(* ===== verification/Prelude.thy ===== *)
theory Prelude
  imports
    Main
    "HOL-Library.Word"
    "HOL-Library.List_Lexorder"
    "HOL-Library.Char_ord"
    "HOL-Library.Sublist"
begin

unbundle bit_operations_syntax

text \<open>
  Shared vocabulary of the development.

  A Go \<^verbatim>\<open>byte\<close> is an \<open>8 word\<close>, a \<^verbatim>\<open>[]byte\<close> a list of them and a Go \<^verbatim>\<open>string\<close> (a byte
  sequence) an Isabelle \<open>string\<close>, whose characters are bytes too.  The lexicographic order of
  \<open>List_Lexorder\<close> is the order of \<^verbatim>\<open>bytes.Compare\<close> and of \<^verbatim>\<open><\<close> on Go strings.
  The theory also models what the sources use of the packages \<^verbatim>\<open>bytes\<close>, \<^verbatim>\<open>strings\<close>,
  \<^verbatim>\<open>unicode/utf8\<close>, \<^verbatim>\<open>math/bits\<close> and \<^verbatim>\<open>encoding/binary\<close>, and holds the generic lemmas on
  lexicographic orders, prefix-free codes and big-endian numbers the components share.
\<close>

type_synonym byte = "8 word"
type_synonym bytes = "byte list"

text \<open>
  Collections of the development: \<open>compare_simps\<close> unfolds the comparison functions,
  \<open>result_simps\<close> the error-or-value combinators.
\<close>

named_theorems compare_simps
named_theorems result_simps

section \<open>Results\<close>

text \<open>
  A fallible Go function returns \<open>Inl e\<close> for a non-nil error and \<open>Inr v\<close> otherwise.
  \<open>bind_result\<close> is the \<^verbatim>\<open>if err != nil { return ..., err }\<close> idiom and \<open>map_result\<close> the loop
  that stops at the first failing element.
\<close>

definition bind_result :: "'e + 'a \<Rightarrow> ('a \<Rightarrow> 'e + 'b) \<Rightarrow> 'e + 'b" where
  "bind_result r f = (case r of Inl e \<Rightarrow> Inl e | Inr v \<Rightarrow> f v)"

fun map_result :: "('a \<Rightarrow> 'e + 'b) \<Rightarrow> 'a list \<Rightarrow> 'e + 'b list" where
  "map_result f [] = Inr []"
| "map_result f (x # xs) =
     (case f x of Inl e \<Rightarrow> Inl e
      | Inr y \<Rightarrow> (case map_result f xs of Inl e \<Rightarrow> Inl e | Inr ys \<Rightarrow> Inr (y # ys)))"

lemma bind_result_simps [simp, result_simps]:
  "bind_result (Inl e) f = Inl e"
  "bind_result (Inr v) f = f v"
  by (simp_all add: bind_result_def)

lemma bind_result_Inr [result_simps]:
  "bind_result r f = Inr y \<longleftrightarrow> (\<exists>v. r = Inr v \<and> f v = Inr y)"
  by (cases r) auto

lemma map_result_Inr_length: "map_result f xs = Inr ys \<Longrightarrow> length ys = length xs"
  by (induction xs arbitrary: ys) (auto split: sum.splits)

lemma map_result_Inr_nth:
  "map_result f xs = Inr ys \<Longrightarrow> i < length xs \<Longrightarrow> f (xs ! i) = Inr (ys ! i)"
proof (induction xs arbitrary: ys i)
  case Nil
  then show ?case by simp
next
  case (Cons x xs)
  then show ?case by (cases i) (auto split: sum.splits)
qed

lemma map_result_Cons_Inr:
  "map_result f (x # xs) = Inr zs \<longleftrightarrow>
     (\<exists>y ys. f x = Inr y \<and> map_result f xs = Inr ys \<and> zs = y # ys)"
  by (auto split: sum.splits)

section \<open>Byte strings and their order\<close>

definition bytes_of :: "string \<Rightarrow> bytes" where
  "bytes_of s = map of_char s"

definition string_of :: "bytes \<Rightarrow> string" where
  "string_of b = map (\<lambda>w. char_of (unat w)) b"

text \<open>The result of \<^verbatim>\<open>bytes.Compare\<close>.\<close>

definition bytes_compare :: "bytes \<Rightarrow> bytes \<Rightarrow> int" where
  "bytes_compare a b = (if a < b then -1 else if a = b then 0 else 1)"

lemma bytes_compare_less [compare_simps]: "bytes_compare a b < 0 \<longleftrightarrow> a < b"
  and bytes_compare_eq [compare_simps]: "bytes_compare a b = 0 \<longleftrightarrow> a = b"
  and bytes_compare_greater [compare_simps]: "bytes_compare a b > 0 \<longleftrightarrow> b < a"
  and bytes_compare_le [compare_simps]: "bytes_compare a b \<le> 0 \<longleftrightarrow> a \<le> b"
  and bytes_compare_ge [compare_simps]: "bytes_compare a b \<ge> 0 \<longleftrightarrow> b \<le> a"
  by (auto simp: bytes_compare_def)

lemma bytes_compare_self [simp]: "bytes_compare a a = 0"
  by (simp add: bytes_compare_def)

lemma unat_of_char [simp]: "unat (of_char c :: byte) = of_char c"
proof -
  have "(of_char c :: nat) < 256" by simp
  moreover have "(of_char c :: byte) = of_nat (of_char c)" by (simp only: of_nat_of_char)
  ultimately show ?thesis by (simp add: unat_of_nat)
qed

lemma of_char_less: "(of_char c :: byte) < of_char d \<longleftrightarrow> c < d"
  by (simp add: word_less_nat_alt less_char_def)

lemma of_char_eq: "(of_char c :: byte) = of_char d \<longleftrightarrow> c = d"
  by (metis unat_of_char of_char_eq_iff)

lemma string_of_bytes_of [simp]: "string_of (bytes_of s) = s"
  by (simp add: string_of_def bytes_of_def comp_def map_idI)

lemma bytes_of_string_of [simp]: "bytes_of (string_of b) = b"
proof -
  have "(of_char (char_of (unat w) :: char) :: byte) = w" for w :: byte
  proof -
    have "unat w < 2 ^ LENGTH(8)" by (rule unsigned_less)
    then have "unat (of_char (char_of (unat w) :: char) :: byte) = unat w" by simp
    then show ?thesis by (simp only: word_unat_eq_iff)
  qed
  then show ?thesis by (simp add: bytes_of_def string_of_def comp_def map_idI)
qed

lemma bytes_of_Nil [simp]: "bytes_of [] = []"
  and bytes_of_Cons [simp]: "bytes_of (c # s) = of_char c # bytes_of s"
  and bytes_of_append [simp]: "bytes_of (s @ t) = bytes_of s @ bytes_of t"
  and length_bytes_of [simp]: "length (bytes_of s) = length s"
  by (simp_all add: bytes_of_def)

lemma bytes_of_inject [simp]: "bytes_of s = bytes_of t \<longleftrightarrow> s = t"
  by (metis string_of_bytes_of)

lemma bytes_of_less: "bytes_of s < bytes_of t \<longleftrightarrow> s < t"
proof (induction s arbitrary: t)
  case Nil
  then show ?case by (cases t) simp_all
next
  case (Cons c s)
  then show ?case by (cases t) (auto simp: of_char_less of_char_eq)
qed

section \<open>Lexicographic order and prefixes\<close>

lemma lex_append_same [simp]: "(p @ x < p @ y) = (x < (y :: 'a :: order list))"
  by (induction p) simp_all

lemma lex_append_same_le [simp]: "(p @ x \<le> p @ y) = (x \<le> (y :: 'a :: order list))"
  by (induction p) simp_all

text \<open>Where neither of two lists is a prefix of the other, what follows them does not matter.\<close>

lemma lex_parallel:
  fixes a b :: "'a :: linorder list"
  assumes "a \<parallel> b"
  shows "a @ x < b @ y \<longleftrightarrow> a < b"
proof -
  from assms obtain p c as d bs where "c \<noteq> d" "a = p @ c # as" "b = p @ d # bs"
    by (metis parallel_decomp)
  then show ?thesis by simp
qed

lemma lex_parallel_neq:
  "a \<parallel> b \<Longrightarrow> a @ x \<noteq> b @ y"
  by (metis parallel_append parallelE prefix_order.refl)

lemma lex_prefix_le: "p \<le> p @ (x :: 'a :: linorder list)"
  using lex_append_same_le [of p "[]" x] by simp

lemma word_not_less: "NOT a < NOT b \<longleftrightarrow> b < (a :: 'a :: len word)"
proof -
  have "uint (NOT w) = mask LENGTH('a) - uint w" for w :: "'a word"
    by (simp add: unsigned_not_eq take_bit_not_eq_mask_diff take_bit_int_eq_self)
  then show ?thesis by (simp add: word_less_def)
qed

lemma lex_complement:
  fixes a b :: bytes
  assumes "a \<parallel> b"
  shows "map NOT a < map NOT b \<longleftrightarrow> b < a"
proof -
  from assms obtain p c as d bs where "c \<noteq> d" "a = p @ c # as" "b = p @ d # bs"
    by (metis parallel_decomp)
  then show ?thesis by (auto simp: word_not_less)
qed

lemma map_not_not [simp]: "map NOT (map NOT a) = (a :: bytes)"
  by (simp add: comp_def)

lemma map_not_inject [simp]: "map NOT a = map NOT b \<longleftrightarrow> a = (b :: bytes)"
  by (metis map_not_not)

lemma parallel_map_not: "a \<parallel> b \<Longrightarrow> map NOT a \<parallel> map NOT (b :: bytes)"
  by (metis map_mono_prefix map_not_not parallel_def)

section \<open>Package strings\<close>

text \<open>\<^verbatim>\<open>strings.Split(s, sep)\<close> and \<^verbatim>\<open>strings.Join(parts, sep)\<close> for a one-byte separator.\<close>

fun split_on :: "char \<Rightarrow> string \<Rightarrow> string list" where
  "split_on c [] = [[]]"
| "split_on c (x # xs) =
     (if x = c then [] # split_on c xs
      else (case split_on c xs of [] \<Rightarrow> [[x]] | y # ys \<Rightarrow> (x # y) # ys))"

fun join_with :: "string \<Rightarrow> string list \<Rightarrow> string" where
  "join_with c [] = []"
| "join_with c [x] = x"
| "join_with c (x # y # zs) = x @ c @ join_with c (y # zs)"

definition has_prefix :: "string \<Rightarrow> string \<Rightarrow> bool" where
  "has_prefix s p = (take (length p) s = p)"

definition has_suffix :: "string \<Rightarrow> string \<Rightarrow> bool" where
  "has_suffix s p = (length p \<le> length s \<and> drop (length s - length p) s = p)"

definition trim_prefix :: "string \<Rightarrow> string \<Rightarrow> string" where
  "trim_prefix s p = (if has_prefix s p then drop (length p) s else s)"

definition contains_any :: "string \<Rightarrow> char list \<Rightarrow> bool" where
  "contains_any s cs = list_ex (\<lambda>c. c \<in> set cs) s"

fun contains_sub :: "string \<Rightarrow> string \<Rightarrow> bool" where
  "contains_sub [] p = (p = [])"
| "contains_sub (c # s) p = (has_prefix (c # s) p \<or> contains_sub s p)"

lemma split_on_nonempty [simp]: "split_on c s \<noteq> []"
  by (cases s) (auto split: list.splits)

lemma join_split_on: "join_with [c] (split_on c s) = s"
proof (induction s)
  case Nil
  then show ?case by simp
next
  case (Cons x s)
  obtain y ys where "split_on c s = y # ys" by (cases "split_on c s") auto
  with Cons show ?case by (cases ys) auto
qed

lemma split_on_no_sep: "p \<in> set (split_on c s) \<Longrightarrow> c \<notin> set p"
  by (induction s arbitrary: p) (auto split: list.splits if_splits)

lemma split_on_free: "c \<notin> set s \<Longrightarrow> split_on c s = [s]"
  by (induction s) auto

lemma split_on_append_sep: "split_on c (s @ c # t) = split_on c s @ split_on c t"
  by (induction s) (auto split: list.splits)

lemma split_on_join:
  "\<lbrakk>xs \<noteq> []; \<And>x. x \<in> set xs \<Longrightarrow> c \<notin> set x\<rbrakk> \<Longrightarrow> split_on c (join_with [c] xs) = xs"
proof (induction "[c]" xs rule: join_with.induct)
  case (3 x y zs)
  then show ?case by (simp add: split_on_append_sep split_on_free)
qed (auto simp: split_on_free)

lemma has_prefix_append [simp]: "has_prefix (p @ s) p"
  by (simp add: has_prefix_def)

lemma has_prefix_iff: "has_prefix s p \<longleftrightarrow> (\<exists>t. s = p @ t)"
  by (metis append_eq_conv_conj has_prefix_def)

lemma trim_prefix_append [simp]: "trim_prefix (p @ s) p = s"
  by (simp add: trim_prefix_def)

lemma contains_any_append [simp]:
  "contains_any (s @ t) cs \<longleftrightarrow> contains_any s cs \<or> contains_any t cs"
  by (simp add: contains_any_def)

section \<open>Package unicode/utf8\<close>

text \<open>\<^verbatim>\<open>utf8.Valid\<close>: the accepted byte ranges are those of the table of the package.\<close>

definition cont_byte :: "byte \<Rightarrow> bool" where
  "cont_byte b = (0x80 \<le> b \<and> b \<le> 0xBF)"

definition lead2 :: "byte \<Rightarrow> bool" where
  "lead2 b = (0xC2 \<le> b \<and> b \<le> 0xDF)"

definition lead3 :: "byte \<Rightarrow> byte \<Rightarrow> bool" where
  "lead3 b c = (0xE0 \<le> b \<and> b \<le> 0xEF \<and>
     (if b = 0xE0 then 0xA0 \<le> c \<and> c \<le> 0xBF
      else if b = 0xED then 0x80 \<le> c \<and> c \<le> 0x9F else cont_byte c))"

definition lead4 :: "byte \<Rightarrow> byte \<Rightarrow> bool" where
  "lead4 b c = (0xF0 \<le> b \<and> b \<le> 0xF4 \<and>
     (if b = 0xF0 then 0x90 \<le> c \<and> c \<le> 0xBF
      else if b = 0xF4 then 0x80 \<le> c \<and> c \<le> 0x8F else cont_byte c))"

function (sequential) utf8_valid :: "bytes \<Rightarrow> bool" where
  "utf8_valid [] = True"
| "utf8_valid (b # bs) =
     (if b < 0x80 then utf8_valid bs
      else (case bs of
         c # cs \<Rightarrow>
           if lead2 b then cont_byte c \<and> utf8_valid cs
           else (case cs of
              d # ds \<Rightarrow>
                if lead3 b c then cont_byte d \<and> utf8_valid ds
                else (case ds of
                   e # es \<Rightarrow> lead4 b c \<and> cont_byte d \<and> cont_byte e \<and> utf8_valid es
                 | [] \<Rightarrow> False)
            | [] \<Rightarrow> False)
       | [] \<Rightarrow> False))"
  by pat_completeness auto
termination
  by (relation "measure length") auto

text \<open>\<^verbatim>\<open>strings.IndexFunc(s, unicode.IsControl) >= 0\<close> on valid UTF-8: C0, DEL and C1 code points.\<close>

fun has_control :: "bytes \<Rightarrow> bool" where
  "has_control [] = False"
| "has_control (b # bs) =
     (b < 0x20 \<or> b = 0x7F \<or>
      (b = 0xC2 \<and> (case bs of c # _ \<Rightarrow> 0x80 \<le> c \<and> c \<le> 0x9F | [] \<Rightarrow> False)) \<or>
      has_control bs)"

lemma utf8_valid_ascii: "(\<And>b. b \<in> set bs \<Longrightarrow> b < 0x80) \<Longrightarrow> utf8_valid bs"
  by (induction bs) auto

section \<open>Numbers and bytes\<close>

text \<open>\<^verbatim>\<open>bits.Len64\<close>: the number of bits of the binary representation, zero for zero.\<close>

fun bit_len :: "nat \<Rightarrow> nat" where
  "bit_len n = (if n = 0 then 0 else Suc (bit_len (n div 2)))"

declare bit_len.simps [simp del]

lemma bit_len_0 [simp]: "bit_len 0 = 0"
  by (simp add: bit_len.simps)

lemma bit_len_bounds: "0 < n \<Longrightarrow> 0 < bit_len n \<and> 2 ^ (bit_len n - 1) \<le> n \<and> n < 2 ^ bit_len n"
proof (induction n rule: bit_len.induct)
  case (1 n)
  have eq: "bit_len n = Suc (bit_len (n div 2))"
    using "1.prems" by (simp add: bit_len.simps [of n])
  show ?case
  proof (cases "n div 2 = 0")
    case True
    then have "n = 1" using "1.prems" by simp
    then show ?thesis using eq by simp
  next
    case False
    with "1.IH" "1.prems" have IH: "0 < bit_len (n div 2)" "2 ^ (bit_len (n div 2) - 1) \<le> n div 2"
      "n div 2 < 2 ^ bit_len (n div 2)" by simp_all
    then obtain k where k: "bit_len (n div 2) = Suc k" by (cases "bit_len (n div 2)") auto
    have "2 ^ k \<le> n div 2" "n div 2 < 2 * 2 ^ k" using IH k by simp_all
    then have "2 * 2 ^ k \<le> n \<and> n < 4 * 2 ^ k" by linarith
    then show ?thesis using eq k by simp
  qed
qed

lemma bit_len_le: "n < 2 ^ k \<Longrightarrow> bit_len n \<le> k"
proof (cases "n = 0")
  case False
  assume "n < 2 ^ k"
  with bit_len_bounds [of n] False have "(2::nat) ^ (bit_len n - 1) < 2 ^ k" by linarith
  then have "bit_len n - 1 < k" by simp
  then show ?thesis by simp
qed simp

text \<open>
  \<^verbatim>\<open>binary.BigEndian.PutUint16\<close> and \<^verbatim>\<open>PutUint64\<close>: the \<open>k\<close> low bytes of a number, most
  significant first.
\<close>

fun be_bytes :: "nat \<Rightarrow> nat \<Rightarrow> bytes" where
  "be_bytes 0 n = []"
| "be_bytes (Suc k) n = of_nat (n div 256 ^ k) # be_bytes k n"

lemma length_be_bytes [simp]: "length (be_bytes k n) = k"
  by (induction k) auto

lemma mod_mult_div: "n mod (b * c) div b = n div b mod (c :: nat)"
  by (cases "b = 0") (simp_all add: mod_mult2_eq)

lemma mod_mult_eq_0: "n mod (b * c) = 0 \<longleftrightarrow> n div b mod c = 0 \<and> n mod b = (0 :: nat)"
  by (auto simp: mod_mult2_eq)

lemma be_bytes_mod: "k \<le> m \<Longrightarrow> be_bytes k (n mod 256 ^ m) = be_bytes k n"
proof (induction k)
  case (Suc k)
  then obtain j where m: "m = k + Suc j" by (metis Suc_le_D add_Suc_shift le_Suc_ex)
  have "n mod 256 ^ m div 256 ^ k = n div 256 ^ k mod 256 ^ Suc j"
    by (simp only: m power_add mod_mult_div)
  moreover have "(of_nat (x mod 256 ^ Suc j) :: byte) = of_nat x" for x
  proof -
    have "x mod 256 ^ Suc j mod 256 = x mod 256"
      by (rule mod_mod_cancel) simp
    then show ?thesis by (simp add: word_of_nat_eq_iff take_bit_eq_mod)
  qed
  ultimately show ?case using Suc by simp
qed simp

lemma div_mod_less:
  fixes n m :: nat
  assumes "0 < b"
  shows "n < m \<longleftrightarrow> n div b < m div b \<or> n div b = m div b \<and> n mod b < m mod b"
proof (cases "n div b = m div b")
  case True
  then show ?thesis by (metis div_mult_mod_eq nat_add_left_cancel_less order_less_irrefl)
next
  case False
  then show ?thesis by (metis div_le_mono le_neq_implies_less less_or_eq_imp_le not_le)
qed

lemma be_bytes_less:
  "n < 256 ^ k \<Longrightarrow> m < 256 ^ k \<Longrightarrow> be_bytes k n < be_bytes k m \<longleftrightarrow> n < m"
proof (induction k arbitrary: n m)
  case (Suc k)
  let ?q = "\<lambda>x. x div (256::nat) ^ k" and ?r = "\<lambda>x. x mod (256::nat) ^ k"
  have q: "?q n < 256" "?q m < 256"
    using Suc.prems by (simp_all add: less_mult_imp_div_less mult.commute)
  have "be_bytes (Suc k) n < be_bytes (Suc k) m \<longleftrightarrow>
      ?q n < ?q m \<or> ?q n = ?q m \<and> be_bytes k (?r n) < be_bytes k (?r m)"
    using q by (simp add: be_bytes_mod word_less_nat_alt word_unat_eq_iff unat_of_nat)
  also have "\<dots> \<longleftrightarrow> ?q n < ?q m \<or> ?q n = ?q m \<and> ?r n < ?r m"
    using Suc.IH [of "?r n" "?r m"] by simp
  also have "\<dots> \<longleftrightarrow> n < m"
    by (simp add: div_mod_less [of "256 ^ k" n m])
  finally show ?case .
qed simp

lemma be_bytes_inject:
  "n < 256 ^ k \<Longrightarrow> m < 256 ^ k \<Longrightarrow> be_bytes k n = be_bytes k m \<longleftrightarrow> n = m"
  by (metis be_bytes_less nat_neq_iff order_less_irrefl)

lemma map_not_less:
  "length a = length b \<Longrightarrow> map NOT a < map NOT b \<longleftrightarrow> b < (a :: bytes)"
  by (induction a b rule: list_induct2) (auto simp: word_not_less)

lemma lex_append_length:
  fixes a b :: "'a :: linorder list"
  shows "length a = length b \<Longrightarrow> a @ x < b @ y \<longleftrightarrow> a < b \<or> a = b \<and> x < y"
  by (induction a b rule: list_induct2) auto

lemma unat64_less: "unat (w :: 64 word) < 2 ^ 64"
proof -
  have "unat w < 2 ^ LENGTH(64)" by (rule unsigned_less)
  then show ?thesis by simp
qed

end
