(* ===== verification/Values.thy ===== *)
theory Values
  imports Prelude
begin

text \<open>
  The value domain of \<^verbatim>\<open>pkg/model/value.go\<close>: normalisation of Go values to the exact
  \<^verbatim>\<open>int64\<close>/\<^verbatim>\<open>float64\<close> domain, the scalar keys whose byte order is the value order, comparison,
  the JSON Unicode check and the typed value trees.  An \<^verbatim>\<open>int64\<close> is a \<open>64 word\<close> read by \<open>sint\<close>;
  a \<^verbatim>\<open>float64\<close> is its IEEE 754 bit pattern, so every operation on it is exact.
\<close>

unbundle bit_operations_syntax

section \<open>Data\<close>

text \<open>
  A JSON number token as \<^verbatim>\<open>json.Decoder\<close> produces it under \<^verbatim>\<open>UseNumber\<close>: sign, integer digits,
  optional fraction digits, optional signed exponent digits.
\<close>

datatype json_number =
  JsonNumber (jn_negative: bool) (jn_int: "nat list") (jn_frac: "nat list option")
    (jn_exp: "(bool \<times> nat list) option")

text \<open>
  A Go value of type \<^verbatim>\<open>any\<close>, by its dynamic type.  A map lists its entries in the order the
  runtime iterates over them; \<open>OtherValue\<close> stands for every type the code does not accept.
\<close>

datatype any =
  NilValue
| Bool bool
| Str string
| GoInt "64 word"
| Int8 "8 word"
| Int16 "16 word"
| Int32 "32 word"
| Int64 "64 word"
| Float32 "32 word"
| Float64 "64 word"
| Number json_number
| Slice "any list"
| Object "(string \<times> any) list"
| OtherValue

datatype value_error =
  NotUTF8 | NonFinite | IntegerDomain | InvalidNumber | ArrayElement nat value_error
| KeyNotUTF8 | ObjectField string value_error | UnsupportedType | ExpectedScalar

section \<open>IEEE 754 binary64 and binary32\<close>

definition f64_sign :: "64 word \<Rightarrow> bool" where
  "f64_sign b = bit b 63"

definition f64_exp :: "64 word \<Rightarrow> nat" where
  "f64_exp b = unat (drop_bit 52 b AND 0x7FF)"

definition f64_frac :: "64 word \<Rightarrow> 64 word" where
  "f64_frac b = b AND mask 52"

definition f64_is_nan :: "64 word \<Rightarrow> bool" where
  "f64_is_nan b = (f64_exp b = 2047 \<and> f64_frac b \<noteq> 0)"

definition f64_is_inf :: "64 word \<Rightarrow> bool" where
  "f64_is_inf b = (f64_exp b = 2047 \<and> f64_frac b = 0)"

definition f64_abs :: "64 word \<Rightarrow> 64 word" where
  "f64_abs b = take_bit 63 b"

definition f64_is_zero :: "64 word \<Rightarrow> bool" where
  "f64_is_zero b = (f64_abs b = 0)"

definition f64_negative :: "64 word \<Rightarrow> bool" where
  "f64_negative b = (f64_sign b \<and> \<not> f64_is_zero b \<and> \<not> f64_is_nan b)"

text \<open>
  The exact value of a finite double, and of an \<^verbatim>\<open>int64\<close>, in units of \<open>2 ^ (-1074)\<close>, the least
  positive double: every value of the domain is an integer in this unit.
\<close>

definition f64_scaled :: "64 word \<Rightarrow> int" where
  "f64_scaled b =
     (let m = (if f64_exp b = 0 then uint (f64_frac b)
               else (2 ^ 52 + uint (f64_frac b)) * 2 ^ (f64_exp b - 1))
      in if f64_sign b then - m else m)"

definition i64_scaled :: "64 word \<Rightarrow> int" where
  "i64_scaled w = sint w * 2 ^ 1074"

text \<open>The Go conversion \<^verbatim>\<open>float64(v)\<close> of a \<^verbatim>\<open>float32\<close>, which is exact.\<close>

definition f32_to_f64 :: "32 word \<Rightarrow> 64 word" where
  "f32_to_f64 b =
     (let sgn = (if bit b 31 then push_bit 63 1 else 0 :: 64 word);
          e = unat (drop_bit 23 b AND 0xFF);
          frac = unat (b AND mask 23)
      in if e = 255 then sgn OR push_bit 52 0x7FF OR push_bit 29 (of_nat frac)
         else if e = 0 then
           (if frac = 0 then sgn
            else (let l = bit_len frac in
              sgn OR of_nat ((l + 873) * 2 ^ 52 + (frac * 2 ^ (53 - l) - 2 ^ 52))))
         else sgn OR of_nat ((e + 896) * 2 ^ 52 + frac * 2 ^ 29))"

text \<open>
  \<^verbatim>\<open>strconv.ParseFloat\<close> on a JSON number: the double nearest to \<open>num / den\<close>, ties to even, and an
  error when the magnitude rounds past the largest finite double.
\<close>

definition round_half_even :: "nat \<Rightarrow> nat \<Rightarrow> nat" where
  "round_half_even n d =
     (let q = n div d; r = n mod d
      in if 2 * r > d \<or> (2 * r = d \<and> odd q) then q + 1 else q)"

definition round_f64 :: "bool \<Rightarrow> nat \<Rightarrow> nat \<Rightarrow> 64 word option" where
  "round_f64 neg num den =
     (let sgn = (if neg then push_bit 63 1 else 0 :: 64 word) in
      if num = 0 then Some sgn
      else
        (let l = int (bit_len num) - int (bit_len den);
             e = (if l \<ge> 0 then (if num \<ge> den * 2 ^ nat l then l else l - 1)
                  else (if num * 2 ^ nat (- l) \<ge> den then l else l - 1));
             e' = max e (- 1022);
             s = e' - 52;
             q = (if s \<ge> 0 then round_half_even num (den * 2 ^ nat s)
                  else round_half_even (num * 2 ^ nat (- s)) den);
             bits = nat (e' + 1022) * 2 ^ 52 + q
         in if bits \<ge> 2047 * 2 ^ 52 then None else Some (sgn OR of_nat bits)))"

definition digits_nat :: "nat list \<Rightarrow> nat" where
  "digits_nat ds = foldl (\<lambda>n d. 10 * n + d) 0 ds"

definition parse_float :: "json_number \<Rightarrow> 64 word option" where
  "parse_float n =
     (let frac = (case jn_frac n of None \<Rightarrow> [] | Some ds \<Rightarrow> ds);
          m = digits_nat (jn_int n @ frac);
          e = (case jn_exp n of None \<Rightarrow> 0
               | Some (neg, ds) \<Rightarrow> (if neg then - int (digits_nat ds) else int (digits_nat ds)))
              - int (length frac)
      in if e \<ge> 0 then round_f64 (jn_negative n) (m * 10 ^ nat e) 1
         else round_f64 (jn_negative n) m (10 ^ nat (- e)))"

definition parse_int :: "json_number \<Rightarrow> 64 word option" where
  "parse_int n =
     (let m = int (digits_nat (jn_int n)); v = (if jn_negative n then - m else m)
      in if - (2 ^ 63) \<le> v \<and> v < 2 ^ 63 then Some (of_int v) else None)"

section \<open>Normalisation\<close>

definition normalizeFloat :: "64 word \<Rightarrow> value_error + any" where
  "normalizeFloat v =
     (if f64_is_nan v \<or> f64_is_inf v then Inl NonFinite
      else if f64_is_zero v then Inr (Float64 0) else Inr (Float64 v))"

definition normalizeNumber :: "json_number \<Rightarrow> value_error + any" where
  "normalizeNumber n =
     (if jn_frac n = None \<and> jn_exp n = None
      then (case parse_int n of None \<Rightarrow> Inl IntegerDomain | Some i \<Rightarrow> Inr (Int64 i))
      else (case parse_float n of None \<Rightarrow> Inl InvalidNumber | Some f \<Rightarrow> normalizeFloat f))"

fun NormalizeValue :: "any \<Rightarrow> value_error + any"
  and normalizeItems :: "nat \<Rightarrow> any list \<Rightarrow> value_error + any list"
  and normalizeFields :: "(string \<times> any) list \<Rightarrow> value_error + (string \<times> any) list" where
  "NormalizeValue NilValue = Inr NilValue"
| "NormalizeValue (Bool b) = Inr (Bool b)"
| "NormalizeValue (Str s) = (if utf8_valid (bytes_of s) then Inr (Str s) else Inl NotUTF8)"
| "NormalizeValue (GoInt w) = Inr (Int64 w)"
| "NormalizeValue (Int8 w) = Inr (Int64 (scast w))"
| "NormalizeValue (Int16 w) = Inr (Int64 (scast w))"
| "NormalizeValue (Int32 w) = Inr (Int64 (scast w))"
| "NormalizeValue (Int64 w) = Inr (Int64 w)"
| "NormalizeValue (Float32 f) = normalizeFloat (f32_to_f64 f)"
| "NormalizeValue (Float64 f) = normalizeFloat f"
| "NormalizeValue (Number n) = normalizeNumber n"
| "NormalizeValue (Slice vs) = bind_result (normalizeItems 0 vs) (\<lambda>out. Inr (Slice out))"
| "NormalizeValue (Object kvs) = bind_result (normalizeFields kvs) (\<lambda>out. Inr (Object out))"
| "NormalizeValue OtherValue = Inl UnsupportedType"
| "normalizeItems i [] = Inr []"
| "normalizeItems i (v # vs) =
     (case NormalizeValue v of Inl e \<Rightarrow> Inl (ArrayElement i e)
      | Inr item \<Rightarrow> bind_result (normalizeItems (Suc i) vs) (\<lambda>out. Inr (item # out)))"
| "normalizeFields [] = Inr []"
| "normalizeFields ((k, v) # kvs) =
     (if \<not> utf8_valid (bytes_of k) then Inl KeyNotUTF8
      else case NormalizeValue v of Inl e \<Rightarrow> Inl (ObjectField k e)
      | Inr item \<Rightarrow> bind_result (normalizeFields kvs) (\<lambda>out. Inr ((k, item) # out)))"

section \<open>Scalar keys\<close>

text \<open>
  \<^verbatim>\<open>numberKey\<close>: sign, exponent and normalised 64-bit significand of the number.  The first two
  definitions are the two branches that compute them, the third writes the twelve key bytes.
\<close>

definition int_parts :: "64 word \<Rightarrow> bool \<times> 64 word \<times> int" where
  "int_parts integer =
     (let negative = (sint integer < 0);
          magnitude = (if negative then (- (integer + 1)) + 1 else integer)
      in if magnitude \<noteq> 0
         then (let length = bit_len (unat magnitude)
               in (negative, push_bit (64 - length) magnitude, int length - 1))
         else (negative, 0, 0))"

definition float_parts :: "64 word \<Rightarrow> bool \<times> 64 word \<times> int" where
  "float_parts floating =
     (let negative = f64_negative floating;
          raw = f64_abs floating;
          fraction = raw AND mask 52;
          encodedExponent = unat (drop_bit 52 raw AND 0x7FF)
      in if encodedExponent = 0
         then (if fraction \<noteq> 0
               then (let length = bit_len (unat fraction)
                     in (negative, push_bit (64 - length) fraction, - 1074 + int length - 1))
               else (negative, 0, 0))
         else (negative, push_bit 11 (push_bit 52 1 OR fraction), int encodedExponent - 1023))"

definition key_of_parts :: "bool \<times> 64 word \<times> int \<Rightarrow> bytes" where
  "key_of_parts parts =
     (let (negative, significand, exponent) = parts;
          digits = be_bytes 2 (nat ((exponent + 1074) mod 65536)) @ be_bytes 8 (unat significand)
      in if significand = 0 then 0x40 # 1 # replicate 10 0
         else if negative then 0x40 # 0 # map NOT digits
         else 0x40 # 2 # digits)"

definition numberKey :: "64 word \<Rightarrow> 64 word \<Rightarrow> bool \<Rightarrow> bytes" where
  "numberKey integer floating isInteger =
     key_of_parts (if isInteger then int_parts integer else float_parts floating)"

definition ScalarKey :: "any \<Rightarrow> value_error + bytes" where
  "ScalarKey value =
     bind_result (NormalizeValue value)
       (\<lambda>v. case v of
          NilValue \<Rightarrow> Inr [0x10]
        | Bool b \<Rightarrow> Inr (if b then [0x30] else [0x20])
        | Str s \<Rightarrow> Inr (0x50 # bytes_of s)
        | Int64 i \<Rightarrow> Inr (numberKey i 0 True)
        | Float64 f \<Rightarrow> Inr (numberKey 0 f False)
        | _ \<Rightarrow> Inl ExpectedScalar)"

definition CompareValues :: "any \<Rightarrow> any \<Rightarrow> value_error + int" where
  "CompareValues a b =
     bind_result (ScalarKey a) (\<lambda>left.
       bind_result (ScalarKey b) (\<lambda>right. Inr (bytes_compare left right)))"

definition EqualValues :: "any \<Rightarrow> any \<Rightarrow> bool" where
  "EqualValues a b = (case CompareValues a b of Inl _ \<Rightarrow> False | Inr c \<Rightarrow> c = 0)"

section \<open>Sign, exponent and significand\<close>

lemma f64_frac_take_bit: "f64_frac b = take_bit 52 b"
  by (simp add: f64_frac_def take_bit_eq_mask)

lemma f64_exp_alt: "f64_exp b = unat b div 2 ^ 52 mod 2048"
proof -
  have "(0x7FF :: 64 word) = mask 11" by (simp add: mask_eq_exp_minus_1)
  then have "f64_exp b = unat (take_bit 11 (drop_bit 52 b))"
    by (simp only: f64_exp_def take_bit_eq_mask)
  also have "\<dots> = take_bit 11 (drop_bit 52 (unat b))"
    by (simp only: unsigned_take_bit_eq unat_drop_bit_eq)
  also have "\<dots> = unat b div 2 ^ 52 mod 2 ^ 11"
    by (simp only: take_bit_eq_mod drop_bit_eq_div)
  finally show ?thesis by simp
qed

lemma unat_f64_frac: "unat (f64_frac b) = unat b mod 2 ^ 52"
  by (simp only: f64_frac_take_bit unsigned_take_bit_eq) (simp only: take_bit_eq_mod)

lemma unat_f64_abs: "unat (f64_abs b) = unat b mod 2 ^ 63"
  by (simp only: f64_abs_def unsigned_take_bit_eq) (simp only: take_bit_eq_mod)

lemma f64_exp_abs [simp]: "f64_exp (f64_abs b) = f64_exp b"
proof -
  have "unat b mod 2 ^ 63 div 2 ^ 52 mod 2048 = unat b div 2 ^ 52 mod 2048"
    using mod_mult_div [of "unat b" "2 ^ 52" "2 ^ 11"] by simp
  then show ?thesis by (simp only: f64_exp_alt unat_f64_abs)
qed

lemma f64_frac_abs [simp]: "f64_frac (f64_abs b) = f64_frac b"
  by (simp only: word_unat_eq_iff unat_f64_frac unat_f64_abs) (rule mod_mod_cancel, simp)

lemma f64_exp_bound: "f64_exp b < 2048"
  by (simp add: f64_exp_alt)

lemma f64_frac_bound: "unat (f64_frac b) < 2 ^ 52"
  by (simp add: unat_f64_frac)

lemma f64_is_zero_iff: "f64_is_zero b \<longleftrightarrow> f64_exp b = 0 \<and> f64_frac b = 0"
proof -
  have "unat b mod 2 ^ 63 = 0 \<longleftrightarrow> unat b div 2 ^ 52 mod 2048 = 0 \<and> unat b mod 2 ^ 52 = 0"
    using mod_mult_eq_0 [of "unat b" "2 ^ 52" "2 ^ 11"] by simp
  then show ?thesis
    by (simp only: f64_is_zero_def word_unat_eq_iff unat_f64_abs f64_exp_alt unat_f64_frac unat_0)
qed

lemma unat_push_norm:
  fixes m :: "64 word"
  assumes "m \<noteq> 0"
  defines "l \<equiv> bit_len (unat m)"
  shows "unat (push_bit (64 - l) m) = unat m * 2 ^ (64 - l)"
    and "2 ^ 63 \<le> unat m * 2 ^ (64 - l)" and "0 < l" and "l \<le> 64"
proof -
  have pos: "0 < unat m" using assms(1) by (simp add: unat_gt_0)
  show l64: "l \<le> 64" unfolding l_def by (rule bit_len_le [OF unat64_less])
  from bit_len_bounds [OF pos] show l0: "0 < l" by (simp add: l_def)
  from bit_len_bounds [OF pos] have b: "2 ^ (l - 1) \<le> unat m" "unat m < 2 ^ l"
    by (simp_all add: l_def)
  have "unat m * 2 ^ (64 - l) < 2 ^ l * 2 ^ (64 - l)" using b(2) by simp
  then have "unat m * 2 ^ (64 - l) < 2 ^ 64" using l64 by (simp flip: power_add)
  then show "unat (push_bit (64 - l) m) = unat m * 2 ^ (64 - l)"
    by (simp only: unsigned_push_bit_eq) (simp add: push_bit_eq_mult take_bit_nat_eq_self)
  have "(2::nat) ^ (l - 1) * 2 ^ (64 - l) \<le> unat m * 2 ^ (64 - l)" using b(1) by simp
  moreover have "l - 1 + (64 - l) = 63" using l0 l64 by simp
  ultimately show "2 ^ 63 \<le> unat m * 2 ^ (64 - l)" by (simp only: flip: power_add)
qed

text \<open>What the two branches of \<open>numberKey\<close> compute: sign, significand and exponent of the value.\<close>

fun parts_of :: "int \<Rightarrow> bool \<times> 64 word \<times> int \<Rightarrow> bool" where
  "parts_of v (negative, significand, exponent) =
     (if significand = 0 then v = 0
      else 2 ^ 63 \<le> unat significand \<and> - 1074 \<le> exponent \<and> exponent \<le> 1023 \<and>
        v * 2 ^ 63 = (if negative then - 1 else 1) * (uint significand * 2 ^ nat (exponent + 1074)))"

lemma int_magnitude:
  fixes w :: "64 word"
  shows "int (unat (if sint w < 0 then (- (w + 1)) + 1 else w)) = \<bar>sint w\<bar>"
proof (cases "sint w < 0")
  case False
  have "sint w < 2 ^ 63" using sint_lt [of w] by simp
  then have "uint w = sint w"
    using False by (simp add: uint_sint take_bit_int_eq_self)
  then show ?thesis using False by simp
next
  case True
  have b: "- (2 ^ 63) \<le> sint w" using sint_ge [of w] by simp
  have "(- (w + 1)) + 1 = - w" by simp
  also have "\<dots> = word_of_int (- sint w)" by simp
  finally have "uint ((- (w + 1)) + 1) = take_bit 64 (- sint w)"
    by (simp only: uint_word_of_int_eq) simp
  also have "\<dots> = - sint w" using b True by (simp add: take_bit_int_eq_self)
  finally show ?thesis using True by simp
qed

lemma parts_of_norm:
  fixes m :: "64 word"
  assumes "m \<noteq> 0" and "v = (if negative then - 1 else 1) * (int (unat m) * 2 ^ k)"
    and e: "e = int k - 1074 + int (bit_len (unat m)) - 1" "e \<le> 1023"
  shows "parts_of v (negative, push_bit (64 - bit_len (unat m)) m, e)"
proof -
  let ?l = "bit_len (unat m)" and ?s = "push_bit (64 - bit_len (unat m)) m"
  note n = unat_push_norm [OF assms(1)]
  have "2 ^ 63 \<le> unat ?s" using n(2) by (simp only: n(1))
  then have nz: "?s \<noteq> 0" by auto
  have u: "uint ?s = int (unat m) * 2 ^ (64 - ?l)"
    by (simp only: uint_nat n(1) of_nat_mult of_nat_power of_nat_numeral)
  have "nat (e + 1074) = k + ?l - 1" using e n(3) by simp
  moreover have "64 - ?l + (k + ?l - 1) = k + 63" using n(3,4) by simp
  ultimately have "uint ?s * 2 ^ nat (e + 1074) = int (unat m) * 2 ^ k * 2 ^ 63"
    by (simp only: u mult.assoc flip: power_add)
  moreover have "- 1074 \<le> e" using e n(3) by simp
  ultimately show ?thesis using assms n nz by simp
qed

lemma int_parts_of: "parts_of (i64_scaled w) (int_parts w)"
proof -
  define m where "m = (if sint w < 0 then (- (w + 1)) + 1 else w)"
  have m: "int (unat m) = \<bar>sint w\<bar>" unfolding m_def by (rule int_magnitude)
  have v: "i64_scaled w = (if sint w < 0 then - 1 else 1) * (int (unat m) * 2 ^ 1074)"
    unfolding m i64_scaled_def by simp
  show ?thesis
  proof (cases "m = 0")
    case True
    then have "sint w = 0" using m by simp
    then have "w = 0" by (simp only: signed_eq_0_iff)
    then show ?thesis by (simp add: int_parts_def i64_scaled_def)
  next
    case False
    have "bit_len (unat m) \<le> 64" using unat_push_norm(4) [OF False] .
    then have "parts_of (i64_scaled w)
        (sint w < 0, push_bit (64 - bit_len (unat m)) m, int (bit_len (unat m)) - 1)"
      by (intro parts_of_norm [OF False v]) simp_all
    then show ?thesis using False by (simp only: int_parts_def Let_def flip: m_def) simp
  qed
qed


lemma float_parts_of:
  assumes "\<not> f64_is_nan b" and "\<not> f64_is_inf b"
  shows "parts_of (f64_scaled b) (float_parts b)"
proof -
  let ?f = "f64_frac b"
  have fin: "f64_exp b < 2047"
    using assms f64_exp_bound [of b] by (auto simp: f64_is_nan_def f64_is_inf_def)
  have neg: "f64_negative b \<longleftrightarrow> f64_sign b \<and> \<not> f64_is_zero b"
    using assms by (simp add: f64_negative_def)
  have parts: "float_parts b =
     (if f64_exp b = 0
      then (if ?f \<noteq> 0
            then (f64_negative b, push_bit (64 - bit_len (unat ?f)) ?f,
                  - 1074 + int (bit_len (unat ?f)) - 1)
            else (f64_negative b, 0, 0))
      else (f64_negative b, push_bit 11 (push_bit 52 1 OR ?f), int (f64_exp b) - 1023))"
    using f64_exp_abs [of b] f64_frac_abs [of b]
    by (simp only: float_parts_def Let_def f64_exp_def f64_frac_def)
  consider (zero) "f64_exp b = 0" "?f = 0" | (sub) "f64_exp b = 0" "?f \<noteq> 0" | (norm) "f64_exp b \<noteq> 0"
    by blast
  then show ?thesis
  proof cases
    case zero
    then show ?thesis by (simp only: parts if_True simp_thms parts_of.simps if_False) (simp add: f64_scaled_def)
  next
    case sub
    have "bit_len (unat ?f) \<le> 52" by (rule bit_len_le [OF f64_frac_bound])
    then have "parts_of (f64_scaled b) (f64_negative b, push_bit (64 - bit_len (unat ?f)) ?f,
                  - 1074 + int (bit_len (unat ?f)) - 1)"
      using sub neg
      by (intro parts_of_norm [where k = 0]) (simp_all only: f64_scaled_def f64_is_zero_iff Let_def uint_nat, auto)
    then show ?thesis using sub by (simp add: parts)
  next
    case norm
    let ?s = "push_bit 11 (push_bit 52 1 OR ?f) :: 64 word"
    have lt: "2 ^ 52 + unat ?f < 2 ^ 53" using f64_frac_bound [of b] by simp
    have "(push_bit 52 1 :: 64 word) AND ?f = 0"
      by (rule bit_word_eqI)
        (auto simp only: f64_frac_def bit_and_iff bit_push_bit_iff bit_mask_iff bit_1_iff bit_0_eq)
    then have "push_bit 52 1 OR ?f = push_bit 52 1 + ?f"
      by (simp add: disjunctive_add_eq_or)
    also have "\<dots> = of_nat (2 ^ 52 + unat ?f)" by (simp add: push_bit_eq_mult)
    finally have o: "unat (push_bit 52 1 OR ?f) = 2 ^ 52 + unat ?f"
      using lt by (simp only: unat_of_nat take_bit_nat_eq_self) (simp add: take_bit_nat_eq_self)
    have u: "unat ?s = (2 ^ 52 + unat ?f) * 2 ^ 11"
      using lt by (simp only: unsigned_push_bit_eq o) (simp add: push_bit_eq_mult take_bit_nat_eq_self)
    have ui: "uint ?s = (2 ^ 52 + uint ?f) * 2 ^ 11"
      by (simp only: uint_nat u of_nat_mult of_nat_power of_nat_numeral of_nat_add)
    have "nat (int (f64_exp b) - 1023 + 1074) = f64_exp b - 1 + 52" using norm by simp
    then have "uint ?s * 2 ^ nat (int (f64_exp b) - 1023 + 1074) =
        (2 ^ 52 + uint ?f) * 2 ^ (f64_exp b - 1) * 2 ^ 63"
      by (simp only: ui power_add) simp
    moreover have "2 ^ 63 \<le> unat ?s" unfolding u by simp
    moreover from this have "?s \<noteq> 0" by auto
    ultimately show ?thesis
      using norm fin neg by (simp add: parts f64_scaled_def f64_is_zero_iff)
  qed
qed

lemma shifted_less:
  fixes s t :: nat
  assumes "2 ^ 63 \<le> s" "s < 2 ^ 64" "2 ^ 63 \<le> t" "t < 2 ^ 64"
  shows "s * 2 ^ d < t * 2 ^ e \<longleftrightarrow> d < e \<or> d = e \<and> s < t"
proof -
  have lt: "s' * 2 ^ d' < t' * 2 ^ e'"
    if "s' < 2 ^ 64" "2 ^ 63 \<le> t'" "d' < e'" for s' t' d' e' :: nat
  proof -
    have "s' * 2 ^ d' < 2 ^ 64 * 2 ^ d'" using that(1) by simp
    also have "\<dots> = 2 ^ 63 * 2 ^ Suc d'" by simp
    also have "\<dots> \<le> 2 ^ 63 * 2 ^ e'" using that(3) by (intro mult_left_mono power_increasing) auto
    also have "\<dots> \<le> t' * 2 ^ e'" using that(2) by (rule mult_right_mono) simp
    finally show ?thesis .
  qed
  consider "d < e" | "e < d" | "d = e" by linarith
  then show ?thesis
  proof cases
    case 1
    then show ?thesis using lt [OF assms(2,3)] by simp
  next
    case 2
    then show ?thesis using lt [OF assms(4,1)] by (simp add: not_less less_imp_le)
  next
    case 3
    then show ?thesis by simp
  qed
qed

lemma digits_less:
  assumes "d < 65536" "e < 65536"
  shows "be_bytes 2 d @ be_bytes 8 (unat (s :: 64 word)) < be_bytes 2 e @ be_bytes 8 (unat (t :: 64 word))
    \<longleftrightarrow> d < e \<or> d = e \<and> s < t"
proof -
  have "unat w < 256 ^ 8" for w :: "64 word"
    using unat64_less [of w] by simp
  then show ?thesis
    using assms
    by (simp only: lex_append_length length_be_bytes be_bytes_less be_bytes_inject
        word_less_nat_alt) (auto simp: be_bytes_less be_bytes_inject)
qed

lemma parts_of_sign:
  assumes "parts_of v (n, s, e)"
  shows "s = 0 \<Longrightarrow> v = 0" and "s \<noteq> 0 \<Longrightarrow> n \<Longrightarrow> v < 0" and "s \<noteq> 0 \<Longrightarrow> \<not> n \<Longrightarrow> 0 < v"
proof -
  have pos: "0 < uint s * 2 ^ nat (e + 1074)" if "s \<noteq> 0"
  proof -
    have "uint s \<noteq> 0" "0 \<le> uint s" using that by (simp_all add: unsigned_eq_0_iff)
    then have "0 < uint s" by linarith
    then show ?thesis by simp
  qed
  show "s = 0 \<Longrightarrow> v = 0" using assms by simp
  show "v < 0" if "s \<noteq> 0" n
  proof -
    have "v * 2 ^ 63 < 0" using assms that pos by simp
    then show ?thesis by simp
  qed
  show "0 < v" if "s \<noteq> 0" "\<not> n"
  proof -
    have "0 < v * 2 ^ 63" using assms that pos by simp
    then show ?thesis by simp
  qed
qed

lemma parts_of_less:
  assumes v: "parts_of v (n, s, d)" and w: "parts_of w (n, t, e)" and nz: "s \<noteq> 0" "t \<noteq> 0"
  shows "v < w \<longleftrightarrow>
    (if n then nat (e + 1074) < nat (d + 1074) \<or> nat (e + 1074) = nat (d + 1074) \<and> t < s
     else nat (d + 1074) < nat (e + 1074) \<or> nat (d + 1074) = nat (e + 1074) \<and> s < t)"
proof -
  have m: "uint x * 2 ^ i < uint y * 2 ^ j \<longleftrightarrow> i < j \<or> i = j \<and> x < y"
    if "2 ^ 63 \<le> unat x" "2 ^ 63 \<le> unat y" for x y :: "64 word" and i j
  proof -
    have "uint z * 2 ^ l = int (unat z * 2 ^ l)" for z :: "64 word" and l by simp
    then have "uint x * 2 ^ i < uint y * 2 ^ j \<longleftrightarrow> unat x * 2 ^ i < unat y * 2 ^ j"
      by (simp only: of_nat_less_iff)
    then show ?thesis using shifted_less [OF that(1) unat64_less that(2) unat64_less] by (simp only: word_less_nat_alt)
  qed
  have b: "2 ^ 63 \<le> unat s" "2 ^ 63 \<le> unat t" using v w nz by simp_all
  have c: "v < w \<longleftrightarrow> v * 2 ^ 63 < w * 2 ^ 63" by simp
  have ev: "v * 2 ^ 63 = (if n then - 1 else 1) * (uint s * 2 ^ nat (d + 1074))"
    and ew: "w * 2 ^ 63 = (if n then - 1 else 1) * (uint t * 2 ^ nat (e + 1074))"
    using v w nz by simp_all
  show ?thesis
    by (cases n) (simp_all only: c ev ew if_True if_False mult_minus1 mult_1 neg_less_iff_less
        m [OF b] m [OF b(2,1)])
qed


lemma key_of_parts_less:
  assumes v: "parts_of v p" and w: "parts_of w q"
  shows "key_of_parts p < key_of_parts q \<longleftrightarrow> v < w"
proof -
  obtain n s d where p: "p = (n, s, d)" by (cases p) auto
  obtain k t e where q: "q = (k, t, e)" by (cases q) auto
  note sv = parts_of_sign [OF v [unfolded p]] and sw = parts_of_sign [OF w [unfolded q]]
  consider (zero) "s = 0 \<or> t = 0" | (signs) "s \<noteq> 0" "t \<noteq> 0" "n \<noteq> k" | (same) "s \<noteq> 0" "t \<noteq> 0" "n = k"
    by blast
  then show ?thesis
  proof cases
    case zero
    then show ?thesis using sv sw by (cases n; cases k) (auto simp: key_of_parts_def Let_def p q)
  next
    case signs
    then show ?thesis using sv sw by (cases n; cases k) (auto simp: key_of_parts_def Let_def p q)
  next
    case same
    let ?d = "nat (d + 1074)" and ?e = "nat (e + 1074)"
    have "- 1074 \<le> d" "d \<le> 1023" "- 1074 \<le> e" "e \<le> 1023" using v w same p q by auto
    then have r: "?d < 65536" "?e < 65536" "nat ((d + 1074) mod 65536) = ?d"
      "nat ((e + 1074) mod 65536) = ?e" by auto
    show ?thesis
      using same parts_of_less [of v n s d w t e] v w r
      by (cases n) (simp_all add: p q key_of_parts_def Let_def map_not_less digits_less
          del: parts_of.simps map_append)
  qed
qed

lemma key_of_parts_eq:
  assumes "parts_of v p" and "parts_of w q"
  shows "key_of_parts p = key_of_parts q \<longleftrightarrow> v = w"
  using key_of_parts_less [OF assms] key_of_parts_less [OF assms(2,1)]
  by (metis linorder_neqE order_less_irrefl)

section \<open>Normal values\<close>

text \<open>The values \<open>NormalizeValue\<close> returns: strings are UTF-8, numbers are \<^verbatim>\<open>int64\<close> or a finite
  \<^verbatim>\<open>float64\<close> other than negative zero, containers hold normal values.\<close>

definition normal_float :: "64 word \<Rightarrow> bool" where
  "normal_float f = (\<not> f64_is_nan f \<and> \<not> f64_is_inf f \<and> (f64_is_zero f \<longrightarrow> f = 0))"

fun normal_value :: "any \<Rightarrow> bool" where
  "normal_value NilValue = True"
| "normal_value (Bool b) = True"
| "normal_value (Str s) = utf8_valid (bytes_of s)"
| "normal_value (Int64 w) = True"
| "normal_value (Float64 f) = normal_float f"
| "normal_value (Slice vs) = list_all normal_value vs"
| "normal_value (Object kvs) = list_all (\<lambda>(k, v). utf8_valid (bytes_of k) \<and> normal_value v) kvs"
| "normal_value _ = False"

lemma f64_zero [simp]: "f64_exp 0 = 0" "f64_frac 0 = 0" "f64_is_zero 0" "\<not> f64_is_nan 0" "\<not> f64_is_inf 0"
  by (simp_all add: f64_exp_alt f64_frac_take_bit f64_is_zero_def f64_abs_def f64_is_nan_def f64_is_inf_def)

lemma normalizeFloat_normal: "normalizeFloat f = Inr v \<Longrightarrow> normal_value v"
  by (auto simp: normalizeFloat_def normal_float_def split: if_splits)

lemma normalizeFloat_idem: "normal_float f \<Longrightarrow> normalizeFloat f = Inr (Float64 f)"
  by (auto simp: normalizeFloat_def normal_float_def)

lemma normalizeNumber_normal: "normalizeNumber n = Inr v \<Longrightarrow> normal_value v"
  by (auto simp: normalizeNumber_def normalizeFloat_normal split: if_splits option.splits)

lemma NormalizeValue_normal_aux:
  "NormalizeValue v = Inr n \<Longrightarrow> normal_value n"
  "normalizeItems i vs = Inr ns \<Longrightarrow> list_all normal_value ns"
  "normalizeFields kvs = Inr nkvs \<Longrightarrow>
     list_all (\<lambda>(k, v). utf8_valid (bytes_of k) \<and> normal_value v) nkvs"
proof (induction v and i vs and kvs arbitrary: n and ns and nkvs
    rule: NormalizeValue_normalizeItems_normalizeFields.induct)
qed (auto simp: normalizeFloat_normal normalizeNumber_normal result_simps
    split: if_splits sum.splits)

lemma NormalizeValue_idem_aux:
  "normal_value v \<Longrightarrow> NormalizeValue v = Inr v"
  "list_all normal_value vs \<Longrightarrow> normalizeItems i vs = Inr vs"
  "list_all (\<lambda>(k, v). utf8_valid (bytes_of k) \<and> normal_value v) kvs \<Longrightarrow>
     normalizeFields kvs = Inr kvs"
proof (induction v and i vs and kvs
    rule: NormalizeValue_normalizeItems_normalizeFields.induct)
qed (auto simp: normalizeFloat_idem)

lemmas NormalizeValue_normal = NormalizeValue_normal_aux(1)
lemmas NormalizeValue_idem [simp] = NormalizeValue_idem_aux(1)

text \<open>A Go value is accepted as a scalar when it normalises to one.\<close>

fun is_scalar :: "any \<Rightarrow> bool" where
  "is_scalar (Slice _) = False"
| "is_scalar (Object _) = False"
| "is_scalar _ = True"

definition scalar_of :: "any \<Rightarrow> value_error + any" where
  "scalar_of v = bind_result (NormalizeValue v) (\<lambda>n. if is_scalar n then Inr n else Inl ExpectedScalar)"

text \<open>
  The order the scalar keys are meant to have: null, false, true, numbers by their exact value,
  strings bytewise.
\<close>

fun scalar_rank :: "any \<Rightarrow> nat" where
  "scalar_rank NilValue = 0"
| "scalar_rank (Bool b) = (if b then 2 else 1)"
| "scalar_rank (Str _) = 4"
| "scalar_rank _ = 3"

fun num_scaled :: "any \<Rightarrow> int" where
  "num_scaled (Int64 w) = i64_scaled w"
| "num_scaled (Float64 f) = f64_scaled f"
| "num_scaled _ = 0"

definition cmp :: "'a :: linorder \<Rightarrow> 'a \<Rightarrow> int" where
  "cmp x y = (if x < y then -1 else if x = y then 0 else 1)"

fun scalar_compare :: "any \<Rightarrow> any \<Rightarrow> int" where
  "scalar_compare (Str s) (Str t) = cmp s t"
| "scalar_compare a b =
     (if scalar_rank a = scalar_rank b then cmp (num_scaled a) (num_scaled b)
      else cmp (scalar_rank a) (scalar_rank b))"

fun scalar_bytes :: "any \<Rightarrow> bytes" where
  "scalar_bytes NilValue = [0x10]"
| "scalar_bytes (Bool b) = (if b then [0x30] else [0x20])"
| "scalar_bytes (Str s) = 0x50 # bytes_of s"
| "scalar_bytes (Int64 i) = numberKey i 0 True"
| "scalar_bytes (Float64 f) = numberKey 0 f False"
| "scalar_bytes _ = []"

lemma normal_scalarE:
  assumes "normal_value n" and "is_scalar n"
  obtains "n = NilValue" | b where "n = Bool b" | t where "n = Str t" "utf8_valid (bytes_of t)"
  | w where "n = Int64 w" | f where "n = Float64 f" "normal_float f"
  using assms by (cases n) auto

lemma ScalarKey_alt: "ScalarKey v = bind_result (scalar_of v) (\<lambda>n. Inr (scalar_bytes n))"
proof (cases "NormalizeValue v")
  case (Inr n)
  then have "normal_value n" by (rule NormalizeValue_normal)
  then show ?thesis using Inr by (cases n) (simp_all add: ScalarKey_def scalar_of_def)
qed (simp add: ScalarKey_def scalar_of_def)

lemma scalar_of_normal: "scalar_of v = Inr n \<Longrightarrow> normal_value n \<and> is_scalar n"
  by (auto simp: scalar_of_def result_simps NormalizeValue_normal split: if_splits)

lemma scalar_bytes_parts:
  assumes "normal_value n" and "scalar_rank n = 3" and "is_scalar n"
  shows "\<exists>p. scalar_bytes n = key_of_parts p \<and> parts_of (num_scaled n) p"
  using assms(1,3)
proof (cases rule: normal_scalarE)
  case (4 w)
  then show ?thesis
    using int_parts_of [of w] by (intro exI [of _ "int_parts w"]) (simp add: numberKey_def)
next
  case (5 f)
  then show ?thesis
    using float_parts_of [of f]
    by (intro exI [of _ "float_parts f"]) (simp add: numberKey_def normal_float_def)
qed (use assms(2) in \<open>auto split: if_splits\<close>)

lemma numberKey_head: "\<exists>t. numberKey i f b = 0x40 # t"
  by (simp add: numberKey_def key_of_parts_def Let_def split: prod.splits)

fun scalar_tag :: "any \<Rightarrow> byte" where
  "scalar_tag NilValue = 0x10"
| "scalar_tag (Bool b) = (if b then 0x30 else 0x20)"
| "scalar_tag (Str _) = 0x50"
| "scalar_tag _ = 0x40"

lemma scalar_bytes_tag:
  assumes "normal_value n" and "is_scalar n"
  shows "\<exists>t. scalar_bytes n = scalar_tag n # t"
  using assms by (cases rule: normal_scalarE) (auto simp: numberKey_head)

lemma scalar_tag_less: "scalar_tag n < scalar_tag m \<longleftrightarrow> scalar_rank n < scalar_rank m"
proof -
  have "scalar_rank x = 0 \<and> scalar_tag x = 0x10 \<or> scalar_rank x = 1 \<and> scalar_tag x = 0x20 \<or>
    scalar_rank x = 2 \<and> scalar_tag x = 0x30 \<or> scalar_rank x = 3 \<and> scalar_tag x = 0x40 \<or>
    scalar_rank x = 4 \<and> scalar_tag x = 0x50" for x by (cases x) auto
  from this [of n] this [of m] show ?thesis by auto
qed

lemma scalar_bytes_compare:
  assumes n: "normal_value n" "is_scalar n" and m: "normal_value m" "is_scalar m"
  shows "bytes_compare (scalar_bytes n) (scalar_bytes m) = scalar_compare n m"
proof -
  consider (num) "scalar_rank n = 3" "scalar_rank m = 3" | (rank) "scalar_rank n \<noteq> scalar_rank m"
    | (eq) "scalar_rank n = scalar_rank m" "scalar_rank n \<noteq> 3" by fastforce
  then show ?thesis
  proof cases
    case num
    obtain p where p: "scalar_bytes n = key_of_parts p" "parts_of (num_scaled n) p"
      using scalar_bytes_parts n num by blast
    obtain q where q: "scalar_bytes m = key_of_parts q" "parts_of (num_scaled m) q"
      using scalar_bytes_parts m num by blast
    have "bytes_compare (scalar_bytes n) (scalar_bytes m) = cmp (num_scaled n) (num_scaled m)"
      using p q by (simp add: bytes_compare_def cmp_def key_of_parts_less key_of_parts_eq)
    moreover have "scalar_compare n m = cmp (num_scaled n) (num_scaled m)"
      using num by (cases n) simp_all
    ultimately show ?thesis by simp
  next
    case rank
    obtain t u where t: "scalar_bytes n = scalar_tag n # t" "scalar_bytes m = scalar_tag m # u"
      using scalar_bytes_tag n m by blast
    have s: "scalar_compare n m = cmp (scalar_rank n) (scalar_rank m)"
      using rank by (cases "(n, m)" rule: scalar_compare.cases) simp_all
    have "scalar_tag n \<noteq> scalar_tag m"
      using rank scalar_tag_less by (metis linorder_neqE_nat order_less_irrefl)
    then show ?thesis
      using rank by (simp add: s t bytes_compare_def cmp_def scalar_tag_less)
  next
    case eq
    from n show ?thesis
    proof (cases rule: normal_scalarE)
      case 1
      from m show ?thesis using 1 eq by (cases rule: normal_scalarE) (auto simp: cmp_def split: if_splits)
    next
      case (2 b)
      from m show ?thesis using 2 eq by (cases rule: normal_scalarE) (auto simp: cmp_def split: if_splits)
    next
      case (3 t)
      from m show ?thesis using 3 eq
        by (cases rule: normal_scalarE) (auto simp: cmp_def bytes_compare_def bytes_of_less split: if_splits)
    qed (use eq in auto)
  qed
qed

lemma CompareValues_alt:
  "CompareValues a b =
     bind_result (scalar_of a) (\<lambda>x. bind_result (scalar_of b) (\<lambda>y. Inr (scalar_compare x y)))"
proof (cases "scalar_of a")
  case (Inr x)
  then show ?thesis
    using scalar_of_normal [OF Inr] scalar_bytes_compare [of x]
    by (cases "scalar_of b") (auto simp: CompareValues_def ScalarKey_alt dest: scalar_of_normal)
qed (simp add: CompareValues_def ScalarKey_alt)

lemma scalar_of_id [simp]:
  "normal_value n \<Longrightarrow> scalar_of n = (if is_scalar n then Inr n else Inl ExpectedScalar)"
  by (simp add: scalar_of_def)

lemma CompareValues_normal [simp]:
  assumes "normal_value n" and "normal_value m" and "is_scalar n" and "is_scalar m"
  shows "CompareValues n m = Inr (scalar_compare n m)"
  using assms by (simp add: CompareValues_alt)

lemma EqualValues_normal [simp]:
  assumes "normal_value n" and "normal_value m"
  shows "EqualValues n m \<longleftrightarrow> is_scalar n \<and> is_scalar m \<and> scalar_compare n m = 0"
  using assms by (simp add: EqualValues_def CompareValues_alt)

lemma ScalarKey_normal [simp]:
  "normal_value n \<Longrightarrow> ScalarKey n = (if is_scalar n then Inr (scalar_bytes n) else Inl ExpectedScalar)"
  by (simp add: ScalarKey_alt)

section \<open>Properties\<close>

text \<open>
  C2: \<open>CompareValues\<close> (through the byte keys of \<open>ScalarKey\<close>) fails exactly when an operand does not
  normalise to a scalar, and otherwise returns the order of the two normalised scalars: null before
  false before true before numbers before strings, integers and doubles mixed and compared by their
  exact value with no rounding, strings bytewise.
\<close>

theorem CompareValues_exact:
  "CompareValues a b =
     bind_result (scalar_of a) (\<lambda>x. bind_result (scalar_of b) (\<lambda>y. Inr (scalar_compare x y)))"
  by (rule CompareValues_alt)

text \<open>
  C5: \<open>NormalizeValue\<close> succeeds only with a value of the normal domain (UTF-8 strings, \<^verbatim>\<open>int64\<close> or
  finite doubles with a single zero, recursively in arrays and objects), and normalising its result
  again changes nothing.
\<close>

theorem NormalizeValue_domain:
  "NormalizeValue v = Inr n \<Longrightarrow> normal_value n \<and> NormalizeValue n = Inr n"
  by (simp add: NormalizeValue_normal)

theorem NormalizeValue_domain_witness:
  "NormalizeValue (Slice [Int8 255, Float64 0x8000000000000000]) = Inr (Slice [Int64 (- 1), Float64 0]) \<and>
   normal_value (Slice [Int64 (- 1), Float64 0])"
proof -
  have "f64_exp 0x8000000000000000 = 0" "f64_frac 0x8000000000000000 = 0"
    by (simp_all add: f64_exp_def f64_frac_def mask_eq_exp_minus_1)
  then have v: "NormalizeValue (Slice [Int8 255, Float64 0x8000000000000000]) =
      Inr (Slice [Int64 (- 1), Float64 0])"
    by (simp add: normalizeFloat_def f64_is_zero_iff f64_is_nan_def f64_is_inf_def)
  then show ?thesis using NormalizeValue_domain [OF v] by simp
qed

end
