(* ===== verification/Filters.thy ===== *)
theory Filters
  imports Values
begin

text \<open>
  Query filters (\<^verbatim>\<open>pkg/model/filter.go\<close>, \<^verbatim>\<open>pkg/model/filter_eval.go\<close>): validation and normalisation of
  a conjunction of filters and its evaluation on the fields of a document.  The evaluation is shown
  equivalent to a declarative reading of the filters over the exact order of scalar values.
\<close>

section \<open>Filters\<close>

text \<open>\<^verbatim>\<open>FilterOp\<close> is a Go string; \<open>OtherOp\<close> is every string that is not one of the eight operators.\<close>

datatype filter_op =
  OpEq | OpNe | OpGt | OpGte | OpLt | OpLte | OpIn | OpContains | OtherOp string

record filter =
  Field :: string
  Op :: filter_op
  FilterValue :: any

type_synonym filters = "filter list"

datatype filter_error =
  InvalidQueryField nat string
| InvalidOperator nat
| BadFilterValue nat value_error
| InRequiresArray nat
| BadInMember nat value_error
| RequiresNumberOrString nat
| BadFieldValue string value_error
| EvaluateOperator string
| TypeAssertionPanic string

fun IsValid :: "filter_op \<Rightarrow> bool" where
  "IsValid (OtherOp _) = False"
| "IsValid _ = True"

definition ValidOps :: "filter_op list" where
  "ValidOps = [OpEq, OpNe, OpGt, OpGte, OpLt, OpLte, OpIn, OpContains]"

definition Validate :: "filter \<Rightarrow> bool" where
  "Validate f = (if Field f = '''' then False else IsValid (Op f))"

definition ValidateQueryField :: "string \<Rightarrow> bool" where
  "ValidateQueryField field \<longleftrightarrow>
     \<not> (field = '''' \<or> \<not> utf8_valid (bytes_of field) \<or> contains_sub field ''.'' \<or>
        has_control (bytes_of field))"

fun isRangeValue :: "any \<Rightarrow> bool" where
  "isRangeValue (Int64 _) = True"
| "isRangeValue (Float64 _) = True"
| "isRangeValue (Str _) = True"
| "isRangeValue _ = False"

fun sameRangeFamily :: "any \<Rightarrow> any \<Rightarrow> bool" where
  "sameRangeFamily (Str _) b = (case b of Str _ \<Rightarrow> True | _ \<Rightarrow> False)"
| "sameRangeFamily (Int64 _) b = (case b of Int64 _ \<Rightarrow> True | Float64 _ \<Rightarrow> True | _ \<Rightarrow> False)"
| "sameRangeFamily (Float64 _) b = (case b of Int64 _ \<Rightarrow> True | Float64 _ \<Rightarrow> True | _ \<Rightarrow> False)"
| "sameRangeFamily _ _ = False"

section \<open>Normalisation\<close>

text \<open>The loop over the members of an \<^verbatim>\<open>in\<close> list, with its set of keys already seen.\<close>

fun unique_members :: "bytes list \<Rightarrow> any list \<Rightarrow> value_error + any list" where
  "unique_members seen [] = Inr []"
| "unique_members seen (item # items) =
     bind_result (ScalarKey item) (\<lambda>key.
       if key \<in> set seen then unique_members seen items
       else bind_result (unique_members (key # seen) items) (\<lambda>unique. Inr (item # unique)))"

definition normalizeFilter :: "nat \<Rightarrow> filter \<Rightarrow> filter_error + filter" where
  "normalizeFilter i f =
     (if \<not> ValidateQueryField (Field f) then Inl (InvalidQueryField i (Field f))
      else if \<not> IsValid (Op f) then Inl (InvalidOperator i)
      else case NormalizeValue (FilterValue f) of Inl e \<Rightarrow> Inl (BadFilterValue i e)
      | Inr value \<Rightarrow>
          (case Op f of
             OpIn \<Rightarrow> (case value of
                 Slice items \<Rightarrow> (case unique_members [] items of Inl e \<Rightarrow> Inl (BadInMember i e)
                   | Inr unique \<Rightarrow> Inr (f\<lparr>FilterValue := Slice unique\<rparr>))
               | _ \<Rightarrow> Inl (InRequiresArray i))
           | _ \<Rightarrow>
               if Op f \<in> {OpGt, OpGte, OpLt, OpLte}
               then (if isRangeValue value then Inr (f\<lparr>FilterValue := value\<rparr>)
                     else Inl (RequiresNumberOrString i))
               else (case ScalarKey value of Inl e \<Rightarrow> Inl (BadFilterValue i e)
                     | Inr _ \<Rightarrow> Inr (f\<lparr>FilterValue := value\<rparr>))))"

fun normalize_from :: "nat \<Rightarrow> filters \<Rightarrow> filter_error + filters" where
  "normalize_from i [] = Inr []"
| "normalize_from i (f # fs) =
     bind_result (normalizeFilter i f) (\<lambda>g.
       bind_result (normalize_from (Suc i) fs) (\<lambda>gs. Inr (g # gs)))"

definition NormalizeFilters :: "filters \<Rightarrow> filter_error + filters" where
  "NormalizeFilters filters = normalize_from 0 filters"

section \<open>Evaluation\<close>

text \<open>
  The accessor of \<^verbatim>\<open>EvaluateFilters\<close> returns a value and whether it is present: an \<open>any option\<close>, in
  which \<open>Some NilValue\<close> is an explicit null.  The type assertion on the list of an \<^verbatim>\<open>in\<close> filter panics
  when the filter was not normalised.
\<close>

definition evaluateNormalizedFilter :: "filter \<Rightarrow> any option \<Rightarrow> filter_error + bool" where
  "evaluateNormalizedFilter f field =
     (case field of None \<Rightarrow> Inr False
      | Some value \<Rightarrow>
          (case NormalizeValue value of Inl e \<Rightarrow> Inl (BadFieldValue (Field f) e)
           | Inr normalized \<Rightarrow>
               (case Op f of
                  OpEq \<Rightarrow> Inr (EqualValues normalized (FilterValue f))
                | OpNe \<Rightarrow> Inr (\<not> EqualValues normalized (FilterValue f))
                | OpIn \<Rightarrow> (case FilterValue f of
                      Slice candidates \<Rightarrow> Inr (list_ex (EqualValues normalized) candidates)
                    | _ \<Rightarrow> Inl (TypeAssertionPanic (Field f)))
                | OpContains \<Rightarrow> (case normalized of
                      Slice items \<Rightarrow> Inr (list_ex (\<lambda>item. EqualValues item (FilterValue f)) items)
                    | _ \<Rightarrow> Inr False)
                | OtherOp _ \<Rightarrow> Inl (EvaluateOperator (Field f))
                | op \<Rightarrow>
                    if \<not> sameRangeFamily normalized (FilterValue f) then Inr False
                    else (case CompareValues normalized (FilterValue f) of
                        Inl e \<Rightarrow> Inl (BadFieldValue (Field f) e)
                      | Inr comparison \<Rightarrow> Inr (case op of
                            OpGt \<Rightarrow> comparison > 0
                          | OpGte \<Rightarrow> comparison \<ge> 0
                          | OpLt \<Rightarrow> comparison < 0
                          | _ \<Rightarrow> comparison \<le> 0)))))"

fun evaluate_loop :: "filters \<Rightarrow> (string \<Rightarrow> any option) \<Rightarrow> bool \<Rightarrow> filter_error + bool" where
  "evaluate_loop [] field matched = Inr matched"
| "evaluate_loop (f # fs) field matched =
     bind_result (evaluateNormalizedFilter f (field (Field f))) (\<lambda>result.
       evaluate_loop fs field (matched \<and> result))"

definition EvaluateFilters :: "filters \<Rightarrow> (string \<Rightarrow> any option) \<Rightarrow> filter_error + bool" where
  "EvaluateFilters filters field =
     bind_result (NormalizeFilters filters) (\<lambda>normalized. evaluate_loop normalized field True)"

definition EvaluateFilter :: "filter \<Rightarrow> any option \<Rightarrow> filter_error + bool" where
  "EvaluateFilter f value =
     bind_result (NormalizeFilters [f]) (\<lambda>normalized. evaluateNormalizedFilter (hd normalized) value)"

section \<open>The meaning of a filter\<close>

text \<open>
  The declarative reading: a missing field satisfies no filter, and a present one is compared with
  the operand by exact scalar order, \<^verbatim>\<open>in\<close> over the members as they were given.
\<close>

definition same_scalar :: "any \<Rightarrow> any \<Rightarrow> bool" where
  "same_scalar n m \<longleftrightarrow> is_scalar n \<and> is_scalar m \<and> scalar_compare n m = 0"

fun op_holds :: "filter_op \<Rightarrow> any \<Rightarrow> any \<Rightarrow> bool" where
  "op_holds OpEq n w = same_scalar n w"
| "op_holds OpNe n w = (\<not> same_scalar n w)"
| "op_holds OpIn n w = (case w of Slice items \<Rightarrow> list_ex (same_scalar n) items | _ \<Rightarrow> False)"
| "op_holds OpContains n w = (case n of Slice items \<Rightarrow> list_ex (\<lambda>i. same_scalar i w) items | _ \<Rightarrow> False)"
| "op_holds OpGt n w = (sameRangeFamily n w \<and> scalar_compare n w > 0)"
| "op_holds OpGte n w = (sameRangeFamily n w \<and> scalar_compare n w \<ge> 0)"
| "op_holds OpLt n w = (sameRangeFamily n w \<and> scalar_compare n w < 0)"
| "op_holds OpLte n w = (sameRangeFamily n w \<and> scalar_compare n w \<le> 0)"
| "op_holds (OtherOp _) n w = False"

definition filter_holds :: "filter \<Rightarrow> any option \<Rightarrow> bool" where
  "filter_holds f field =
     (case field of None \<Rightarrow> False | Some v \<Rightarrow>
       (case (NormalizeValue v, NormalizeValue (FilterValue f)) of
          (Inr n, Inr w) \<Rightarrow> op_holds (Op f) n w | _ \<Rightarrow> False))"

definition readable :: "any option \<Rightarrow> bool" where
  "readable field =
     (case field of None \<Rightarrow> True | Some v \<Rightarrow> (case NormalizeValue v of Inl _ \<Rightarrow> False | Inr _ \<Rightarrow> True))"

lemma same_scalar_bytes:
  assumes "normal_value n" and "normal_value m"
  shows "same_scalar n m \<longleftrightarrow> is_scalar n \<and> is_scalar m \<and> scalar_bytes n = scalar_bytes m"
  using assms scalar_bytes_compare [of n m] bytes_compare_eq [of "scalar_bytes n" "scalar_bytes m"]
  by (auto simp: same_scalar_def)

lemma unique_members_Cons:
  assumes "normal_value item"
  shows "unique_members seen (item # items) = Inr us \<longleftrightarrow> is_scalar item \<and>
    (if scalar_bytes item \<in> set seen then unique_members seen items = Inr us
     else \<exists>vs. unique_members (scalar_bytes item # seen) items = Inr vs \<and> us = item # vs)"
  using assms by (auto simp: result_simps split: if_splits)

lemma unique_members_keys:
  assumes "list_all normal_value items" and "unique_members seen items = Inr us"
  shows "scalar_bytes ` set us = scalar_bytes ` set items - set seen \<and> set us \<subseteq> set items \<and>
    list_all is_scalar items \<and> distinct (map scalar_bytes us)"
  using assms
proof (induction items arbitrary: seen us)
  case (Cons item items)
  then have n: "normal_value item" and ns: "list_all normal_value items" by simp_all
  show ?case
  proof (cases "scalar_bytes item \<in> set seen")
    case True
    then show ?thesis
      using Cons.prems(2) Cons.IH [OF ns, of seen us] unfolding unique_members_Cons [OF n] by auto
  next
    case False
    then obtain vs where vs: "unique_members (scalar_bytes item # seen) items = Inr vs" "us = item # vs"
      and "is_scalar item"
      using Cons.prems(2) unfolding unique_members_Cons [OF n] by auto
    then show ?thesis using Cons.IH [OF ns vs(1)] False by auto
  qed
qed simp

lemma unique_members_id:
  assumes "list_all normal_value us" and "list_all is_scalar us"
    and "distinct (map scalar_bytes us)" and "scalar_bytes ` set us \<inter> set seen = {}"
  shows "unique_members seen us = Inr us"
  using assms by (induction us arbitrary: seen) auto

lemma list_ex_same_scalar:
  assumes "normal_value n" and "list_all normal_value items" and "list_all is_scalar items"
  shows "list_ex (same_scalar n) items \<longleftrightarrow> is_scalar n \<and> scalar_bytes n \<in> scalar_bytes ` set items"
  using assms by (induction items) (auto simp: same_scalar_bytes)

text \<open>What \<open>NormalizeFilters\<close> guarantees of each filter it returns.\<close>

definition range_ops :: "filter_op set" where
  "range_ops = {OpGt, OpGte, OpLt, OpLte}"

definition normal_operand :: "filter_op \<Rightarrow> any \<Rightarrow> bool" where
  "normal_operand op w \<longleftrightarrow> IsValid op \<and> normal_value w \<and>
     (if op = OpIn
      then (case w of Slice us \<Rightarrow> list_all is_scalar us \<and> distinct (map scalar_bytes us) | _ \<Rightarrow> False)
      else if op \<in> range_ops then isRangeValue w else is_scalar w)"

definition normal_filter :: "filter \<Rightarrow> bool" where
  "normal_filter g \<longleftrightarrow> ValidateQueryField (Field g) \<and> normal_operand (Op g) (FilterValue g)"

lemma isRangeValue_scalar: "isRangeValue w \<Longrightarrow> is_scalar w"
  by (cases w) auto

lemma sameRangeFamily_range: "sameRangeFamily a b \<Longrightarrow> isRangeValue a \<and> isRangeValue b"
  by (cases a; cases b) auto

lemma unique_members_normal:
  assumes "normal_value (Slice items)" and "unique_members [] items = Inr us"
  shows "normal_operand OpIn (Slice us)"
    and "normal_value n \<Longrightarrow> op_holds OpIn n (Slice us) = op_holds OpIn n (Slice items)"
proof -
  have items: "list_all normal_value items" using assms(1) by simp
  note k = unique_members_keys [OF items assms(2)]
  have us: "list_all normal_value us" "list_all is_scalar us"
    using k items by (auto simp: list_all_iff)
  show "normal_operand OpIn (Slice us)" using us k by (simp add: normal_operand_def)
  show "op_holds OpIn n (Slice us) = op_holds OpIn n (Slice items)" if "normal_value n"
    using that us items k by (simp add: list_ex_same_scalar)
qed

lemma normalizeFilter_normal:
  assumes "normalizeFilter i f = Inr g"
  shows "normal_filter g \<and> Field g = Field f \<and> Op g = Op f \<and> filter_holds g = filter_holds f"
proof -
  obtain w where v: "ValidateQueryField (Field f)" "IsValid (Op f)" "NormalizeValue (FilterValue f) = Inr w"
    using assms by (auto simp: normalizeFilter_def split: if_splits sum.splits)
  note n = NormalizeValue_normal [OF v(3)]
  show ?thesis
  proof (cases "Op f = OpIn")
    case True
    then obtain items us where i: "w = Slice items" "unique_members [] items = Inr us"
      "g = f\<lparr>FilterValue := Slice us\<rparr>"
      using assms v by (auto simp: normalizeFilter_def split: any.splits sum.splits)
    note u = unique_members_normal [OF n [unfolded i(1)] i(2)]
    have "normal_value (Slice us)" using u(1) by (simp add: normal_operand_def)
    then have h: "NormalizeValue (Slice us) = Inr (Slice us)" by (rule NormalizeValue_idem)
    have "filter_holds g = filter_holds f"
      using u(2) True v(3) i(1)
      by (auto simp: filter_holds_def i(3) h fun_eq_iff NormalizeValue_normal
          simp del: NormalizeValue.simps op_holds.simps split: option.splits sum.splits)
    then show ?thesis using u(1) v True by (simp add: i(3) normal_filter_def)
  next
    case False
    then have g: "g = f\<lparr>FilterValue := w\<rparr>" and o: "normal_operand (Op f) w"
      using assms v n
      by (auto simp: normalizeFilter_def normal_operand_def range_ops_def
          split: if_splits filter_op.splits)
    then have "filter_holds g = filter_holds f"
      using v(3) n by (auto simp: filter_holds_def fun_eq_iff split: option.splits sum.splits)
    then show ?thesis using g o v by (simp add: normal_filter_def)
  qed
qed

lemma normalizeFilter_id:
  assumes "normal_filter g"
  shows "normalizeFilter i g = Inr g"
proof (cases "Op g = OpIn")
  case True
  then obtain us where us: "FilterValue g = Slice us" "list_all is_scalar us" "list_all normal_value us"
    "distinct (map scalar_bytes us)"
    using assms by (auto simp: normal_filter_def normal_operand_def split: any.splits)
  then have "NormalizeValue (Slice us) = Inr (Slice us)" by (intro NormalizeValue_idem) simp
  then show ?thesis
    using assms True us unique_members_id [of us "[]"]
    by (simp add: normalizeFilter_def normal_filter_def del: NormalizeValue.simps)
next
  case False
  then show ?thesis
    using assms
    by (auto simp: normalizeFilter_def normal_filter_def normal_operand_def range_ops_def
        split: filter_op.splits)
qed

lemma evaluate_normal:
  assumes "normal_filter g"
  shows "evaluateNormalizedFilter g field =
    (case field of Some v \<Rightarrow> (case NormalizeValue v of Inl e \<Rightarrow> Inl (BadFieldValue (Field g) e)
        | Inr _ \<Rightarrow> Inr (filter_holds g field))
     | None \<Rightarrow> Inr False)"
proof (cases field)
  case (Some v)
  show ?thesis
  proof (cases "NormalizeValue v")
    case (Inr n)
    note n = NormalizeValue_normal [OF Inr]
    have w: "normal_value (FilterValue g)" "normal_operand (Op g) (FilterValue g)"
      using assms by (simp_all add: normal_filter_def normal_operand_def)
    have h: "filter_holds g (Some v) = op_holds (Op g) n (FilterValue g)"
      using Inr w(1) by (simp add: filter_holds_def)
    have eq: "list_ex (EqualValues n) us = list_ex (same_scalar n) us" if "list_all normal_value us" for us
      using that n by (induction us) (simp_all add: same_scalar_def)
    have eq': "list_ex (\<lambda>i. EqualValues i m) us = list_ex (\<lambda>i. same_scalar i m) us"
      if "list_all normal_value us" "normal_value m" for us m
      using that by (induction us) (simp_all add: same_scalar_def)
    have cv: "CompareValues n (FilterValue g) = Inr (scalar_compare n (FilterValue g))"
      if "sameRangeFamily n (FilterValue g)"
      using that n w(1) sameRangeFamily_range isRangeValue_scalar by simp
    show ?thesis
      using w n
      by (cases "Op g")
        (auto simp: Some Inr h evaluateNormalizedFilter_def same_scalar_def eq eq' cv normal_operand_def
          split: any.splits)
  qed (simp add: Some evaluateNormalizedFilter_def)
qed (simp add: evaluateNormalizedFilter_def)

lemma normalize_from_map:
  "normalize_from i fs = Inr gs \<Longrightarrow>
     list_all2 (\<lambda>f g. normal_filter g \<and> Field g = Field f \<and> Op g = Op f \<and> filter_holds g = filter_holds f) fs gs"
  by (induction i fs arbitrary: gs rule: normalize_from.induct)
    (auto simp: result_simps dest: normalizeFilter_normal)

lemma normalize_from_id: "list_all normal_filter gs \<Longrightarrow> normalize_from i gs = Inr gs"
  by (induction i gs rule: normalize_from.induct) (simp_all add: normalizeFilter_id)

lemma evaluate_loop_normal:
  assumes "list_all2 (\<lambda>f g. normal_filter g \<and> Field g = Field f \<and> Op g = Op f \<and>
    filter_holds g = filter_holds f) fs gs"
  shows "evaluate_loop gs field m = Inr b \<longleftrightarrow>
    list_all (\<lambda>f. readable (field (Field f))) fs \<and>
    b = (m \<and> list_all (\<lambda>f. filter_holds f (field (Field f))) fs)"
  using assms
  by (induction arbitrary: m rule: list_all2_induct)
    (auto simp: evaluate_normal readable_def filter_holds_def split: option.splits sum.splits)

section \<open>Properties\<close>

text \<open>
  C20: \<open>EvaluateFilters\<close> returns a verdict exactly when the conjunction validates and every field it
  reads is absent or normalises, and the verdict is then the conjunction of the declarative meaning
  of the filters as given: a missing field satisfies none (not even \<^verbatim>\<open>!=\<close>), equality and ranges follow
  the exact scalar order, a range holds only between two values of one family (two numbers or two strings), and the duplicates dropped from an \<^verbatim>\<open>in\<close> list make no difference.
\<close>

theorem EvaluateFilters_meaning:
  "EvaluateFilters fs field = Inr b \<longleftrightarrow>
     (\<exists>gs. NormalizeFilters fs = Inr gs) \<and> list_all (\<lambda>f. readable (field (Field f))) fs \<and>
     b = list_all (\<lambda>f. filter_holds f (field (Field f))) fs"
proof (cases "NormalizeFilters fs")
  case (Inr gs)
  then have "list_all2 (\<lambda>f g. normal_filter g \<and> Field g = Field f \<and> Op g = Op f \<and>
      filter_holds g = filter_holds f) fs gs"
    by (simp add: NormalizeFilters_def normalize_from_map)
  from evaluate_loop_normal [OF this] show ?thesis using Inr by (simp add: EvaluateFilters_def)
qed (simp add: EvaluateFilters_def)

text \<open>
  C21: normalising filters is idempotent and keeps the fields, the operators and the verdict of
  \<open>EvaluateFilters\<close> on every document.
\<close>

theorem NormalizeFilters_stable:
  assumes "NormalizeFilters fs = Inr gs"
  shows "NormalizeFilters gs = Inr gs \<and> map Field gs = map Field fs \<and> map Op gs = map Op fs \<and>
    EvaluateFilters gs field = EvaluateFilters fs field"
proof -
  from assms have n: "list_all2 (\<lambda>f g. normal_filter g \<and> Field g = Field f \<and> Op g = Op f \<and>
      filter_holds g = filter_holds f) fs gs"
    by (simp add: NormalizeFilters_def normalize_from_map)
  then have "list_all normal_filter gs" by (induction rule: list_all2_induct) auto
  then have "NormalizeFilters gs = Inr gs" by (simp add: NormalizeFilters_def normalize_from_id)
  moreover have "map Field gs = map Field fs \<and> map Op gs = map Op fs"
    using n by (induction rule: list_all2_induct) auto
  ultimately show ?thesis using assms by (simp add: EvaluateFilters_def)
qed

definition sample_filters :: filters where
  "sample_filters = [\<lparr>Field = ''age'', Op = OpGte, FilterValue = GoInt 18\<rparr>,
     \<lparr>Field = ''tag'', Op = OpIn, FilterValue = Slice [Str ''a'', Str ''b'', Str ''a'']\<rparr>]"

theorem NormalizeFilters_stable_witness:
  "NormalizeFilters [\<lparr>Field = ''age'', Op = OpGte, FilterValue = Int64 18\<rparr>,
     \<lparr>Field = ''tag'', Op = OpIn, FilterValue = Slice [Str ''a'', Str ''b'']\<rparr>] =
   Inr [\<lparr>Field = ''age'', Op = OpGte, FilterValue = Int64 18\<rparr>,
     \<lparr>Field = ''tag'', Op = OpIn, FilterValue = Slice [Str ''a'', Str ''b'']\<rparr>]"
proof -
  have "NormalizeFilters sample_filters = Inr [\<lparr>Field = ''age'', Op = OpGte, FilterValue = Int64 18\<rparr>,
     \<lparr>Field = ''tag'', Op = OpIn, FilterValue = Slice [Str ''a'', Str ''b'']\<rparr>]"
    by (simp add: NormalizeFilters_def sample_filters_def normalizeFilter_def ValidateQueryField_def
        ScalarKey_def bytes_of_def has_prefix_def)
  from NormalizeFilters_stable [OF this] show ?thesis by blast
qed

end
