(* ===== verification/OrderKey.thy ===== *)
theory OrderKey
  imports Values
begin

text \<open>
  Index tuples (\<^verbatim>\<open>internal/indexer/encoding/orderkey.go\<close>): every field is written as an escaped,
  terminated and, for a descending field, complemented scalar key, and the document ID follows as
  the last ascending string.  The theory shows that the code is prefix-free, that the byte order of
  whole keys is the tuple order with per-field directions, and that the decoders invert it.
\<close>

unbundle bit_operations_syntax

section \<open>Data\<close>

definition Version :: byte where
  "Version = 0x02"

definition TypeMissing :: byte where
  "TypeMissing = 0x01"

definition TypeString :: byte where
  "TypeString = 0x50"

text \<open>\<^verbatim>\<open>Direction\<close> is a Go \<^verbatim>\<open>int\<close> with two named values.\<close>

definition Asc :: int where
  "Asc = 0"

definition Desc :: int where
  "Desc = 1"

record order_field =
  FieldValue :: any
  FieldDirection :: int
  FieldMissing :: bool

datatype order_error =
  ErrUnsupportedType value_error | ErrStringTooLong | ErrIDTooLong | ErrInvalidOrderKey
| IDNotUTF8 | InvalidDirection

section \<open>Encoding\<close>

text \<open>The escape loop with its terminator: a zero byte is followed by one, two zeros end the field.\<close>

fun escape :: "bytes \<Rightarrow> bytes" where
  "escape [] = [0, 0]"
| "escape (b # bs) = (if b = 0 then b # 1 # escape bs else b # escape bs)"

definition field_raw :: "order_field \<Rightarrow> order_error + bytes" where
  "field_raw field =
     (if FieldMissing field then Inr [TypeMissing]
      else if (case FieldValue field of Str s \<Rightarrow> length s > 65535 | _ \<Rightarrow> False)
      then Inl ErrStringTooLong
      else (case ScalarKey (FieldValue field) of Inl e \<Rightarrow> Inl (ErrUnsupportedType e)
            | Inr raw \<Rightarrow> Inr raw))"

definition encodeField :: "order_field \<Rightarrow> order_error + bytes" where
  "encodeField field =
     (if FieldDirection field \<noteq> Asc \<and> FieldDirection field \<noteq> Desc then Inl InvalidDirection
      else bind_result (field_raw field) (\<lambda>raw.
        Inr (if FieldDirection field = Desc then map NOT (escape raw) else escape raw)))"

definition EncodePrefix :: "order_field list \<Rightarrow> order_error + bytes" where
  "EncodePrefix fs =
     bind_result (map_result encodeField fs) (\<lambda>encoded. Inr (Version # concat encoded))"

definition id_field :: "string \<Rightarrow> order_field" where
  "id_field docID = \<lparr>FieldValue = Str docID, FieldDirection = Asc, FieldMissing = False\<rparr>"

definition Encode :: "order_field list \<Rightarrow> string \<Rightarrow> order_error + bytes" where
  "Encode fs docID =
     (if length docID > 65535 then Inl ErrIDTooLong
      else if \<not> utf8_valid (bytes_of docID) then Inl IDNotUTF8
      else bind_result (EncodePrefix fs) (\<lambda>prefix.
        bind_result (encodeField (id_field docID)) (\<lambda>tail. Inr (prefix @ tail))))"

section \<open>Decoding\<close>

text \<open>
  The inner loop of \<^verbatim>\<open>ExtractDocID\<close> and \<^verbatim>\<open>tupleParts\<close>: read one component up to its terminator and
  return its unescaped bytes and what follows; \<open>None\<close> is a malformed or unterminated component.
\<close>

fun scan_component :: "bool \<Rightarrow> bytes \<Rightarrow> (bytes \<times> bytes) option" where
  "scan_component desc [] = None"
| "scan_component desc (b # bs) =
     (let c = (if desc then NOT b else b) in
      if c \<noteq> 0 then map_option (\<lambda>(part, rest). (c # part, rest)) (scan_component desc bs)
      else (case bs of [] \<Rightarrow> None
            | n # rest \<Rightarrow>
                (let m = (if desc then NOT n else n) in
                 if m = 0 then Some ([], rest)
                 else if m \<noteq> 1 then None
                 else map_option (\<lambda>(part, tl). (0 # part, tl)) (scan_component desc rest))))"

lemma scan_component_length: "scan_component d bs = Some (part, rest) \<Longrightarrow> length rest < length bs"
  by (induction d bs arbitrary: part rest rule: scan_component.induct)
    (fastforce simp: Let_def split: if_splits list.splits)+

text \<open>The outer loop of \<^verbatim>\<open>ExtractDocID\<close>, which keeps the last component and its direction.\<close>

function last_component :: "bool \<Rightarrow> bytes \<Rightarrow> bytes \<Rightarrow> (bool \<times> bytes) option" where
  "last_component desc lst [] = Some (desc, lst)"
| "last_component desc lst (tag # bs) =
     (let d = (tag > 0x80) in
      case scan_component d (tag # bs) of None \<Rightarrow> None
      | Some (part, rest) \<Rightarrow> if part = [] then None else last_component d part rest)"
  by pat_completeness auto
termination
  by (relation "measure (\<lambda>(d, l, bs). length bs)") (auto simp del: scan_component.simps dest: scan_component_length)

definition ExtractDocID :: "bytes \<Rightarrow> order_error + string" where
  "ExtractDocID key =
     (if length key < 4 \<or> hd key \<noteq> Version then Inl ErrInvalidOrderKey
      else (case last_component False [] (tl key) of None \<Rightarrow> Inl ErrInvalidOrderKey
        | Some (descending, lst) \<Rightarrow>
            (case lst of [] \<Rightarrow> Inl ErrInvalidOrderKey
             | t # docid \<Rightarrow>
                 if descending \<or> t \<noteq> TypeString \<or> \<not> utf8_valid docid then Inl ErrInvalidOrderKey
                 else Inr (string_of docid))))"

text \<open>\<^verbatim>\<open>tupleParts\<close> of the candidate planner: the encoded components of a key.\<close>

function parts_loop :: "bytes \<Rightarrow> bytes list option" where
  "parts_loop [] = Some []"
| "parts_loop (tag # bs) =
     (case scan_component (tag > 0x80) (tag # bs) of None \<Rightarrow> None
      | Some (part, rest) \<Rightarrow>
          map_option (\<lambda>parts. take (length (tag # bs) - length rest) (tag # bs) # parts)
            (parts_loop rest))"
  by pat_completeness auto
termination
  by (relation "measure length") (auto simp del: scan_component.simps dest: scan_component_length)

definition tupleParts :: "bytes \<Rightarrow> order_error + bytes list" where
  "tupleParts key =
     (if key = [] \<or> hd key \<noteq> Version then Inl ErrInvalidOrderKey
      else (case parts_loop (tl key) of None \<Rightarrow> Inl ErrInvalidOrderKey | Some parts \<Rightarrow> Inr parts))"

section \<open>Escaping\<close>

lemma escape_less [simp]: "escape a @ x < escape b @ y \<longleftrightarrow> a < b \<or> a = b \<and> x < y"
proof (induction a arbitrary: b)
  case Nil
  then show ?case by (cases b) (auto simp: word_gt_0)
next
  case (Cons c a)
  then show ?case by (cases b) (auto simp: word_gt_0)
qed

lemma escape_parallel: "a \<noteq> b \<Longrightarrow> escape a \<parallel> escape b"
proof (induction a arbitrary: b)
  case Nil
  then show ?case by (cases b) (auto simp: parallel_def)
next
  case (Cons c a)
  then show ?case by (cases b) (auto simp: parallel_def)
qed

lemma escape_inject [simp]: "escape a = escape b \<longleftrightarrow> a = b"
  using escape_parallel by fastforce

lemma scan_escape [simp]: "scan_component False (escape raw @ rest) = Some (raw, rest)"
  by (induction raw) (auto simp: Let_def)

lemma scan_escape_not [simp]: "scan_component True (map NOT (escape raw) @ rest) = Some (raw, rest)"
  by (induction raw) (auto simp: Let_def)

lemma escape_nonempty [simp]: "escape raw \<noteq> []"
  by (cases raw) auto

lemma escape_head: "raw = t # ts \<Longrightarrow> t \<noteq> 0 \<Longrightarrow> hd (escape raw) = t"
  by simp

section \<open>Prefix-free order codes\<close>

text \<open>
  The interface the index tuple relies on: a code for fields whose words are pairwise incomparable
  unless equal, and whose byte order is a given comparison, among fields that are \<open>alike\<close> (of the
  same direction).  The tuple lemmas are proved from these laws alone.
\<close>

fun lex_compare :: "('a \<Rightarrow> 'a \<Rightarrow> int) \<Rightarrow> 'a list \<Rightarrow> 'a list \<Rightarrow> int \<Rightarrow> int" where
  "lex_compare c (x # xs) (y # ys) d = (if c x y \<noteq> 0 then c x y else lex_compare c xs ys d)"
| "lex_compare c _ _ d = d"

locale prefix_code =
  fixes code :: "'a \<Rightarrow> bytes"
    and alike :: "'a \<Rightarrow> 'a \<Rightarrow> bool"
    and order :: "'a \<Rightarrow> 'a \<Rightarrow> int"
  assumes code_compare: "alike x y \<Longrightarrow> bytes_compare (code x) (code y) = order x y"
    and code_parallel: "alike x y \<Longrightarrow> code x \<noteq> code y \<Longrightarrow> code x \<parallel> code y"
begin

lemma code_append_compare:
  assumes "alike x y"
  shows "bytes_compare (code x @ r) (code y @ s) =
    (if order x y \<noteq> 0 then order x y else bytes_compare r s)"
proof (cases "code x = code y")
  case True
  then show ?thesis using code_compare [OF assms] by (auto simp: bytes_compare_def)
next
  case False
  then have p: "code x \<parallel> code y" using code_parallel [OF assms] by simp
  then have "bytes_compare (code x @ r) (code y @ s) = bytes_compare (code x) (code y)"
    using lex_parallel_neq [OF p] False by (simp add: bytes_compare_def lex_parallel [OF p])
  then show ?thesis using code_compare [OF assms] False bytes_compare_eq [of "code x" "code y"] by auto
qed

lemma tuple_compare:
  assumes "list_all2 alike xs ys"
  shows "bytes_compare (concat (map code xs) @ r) (concat (map code ys) @ s) =
    lex_compare order xs ys (bytes_compare r s)"
  using assms
  by (induction xs ys rule: list_all2_induct) (simp_all add: code_append_compare)

end

section \<open>The field code\<close>

text \<open>The words of the code, and the fields that have one.\<close>

definition field_code :: "order_field \<Rightarrow> bytes" where
  "field_code f = (case encodeField f of Inl _ \<Rightarrow> [] | Inr b \<Rightarrow> b)"

definition encodable :: "order_field \<Rightarrow> bool" where
  "encodable f = (case encodeField f of Inl _ \<Rightarrow> False | Inr _ \<Rightarrow> True)"

text \<open>The slot a field fills: \<open>None\<close> for a missing value, which sorts before every value.\<close>

definition field_slot :: "order_field \<Rightarrow> any option" where
  "field_slot f = (if FieldMissing f then None
     else case scalar_of (FieldValue f) of Inl _ \<Rightarrow> None | Inr v \<Rightarrow> Some v)"

fun slot_compare :: "any option \<Rightarrow> any option \<Rightarrow> int" where
  "slot_compare None None = 0"
| "slot_compare None (Some _) = -1"
| "slot_compare (Some _) None = 1"
| "slot_compare (Some v) (Some w) = scalar_compare v w"

definition field_compare :: "order_field \<Rightarrow> order_field \<Rightarrow> int" where
  "field_compare f g =
     (let c = slot_compare (field_slot f) (field_slot g)
      in if FieldDirection f = Desc then - c else c)"

definition alike_fields :: "order_field \<Rightarrow> order_field \<Rightarrow> bool" where
  "alike_fields f g \<longleftrightarrow> encodable f \<and> encodable g \<and> FieldDirection f = FieldDirection g"

lemma encodableE:
  assumes "encodable f"
  obtains raw where "field_raw f = Inr raw" "FieldDirection f = Asc \<or> FieldDirection f = Desc"
    "field_code f = (if FieldDirection f = Desc then map NOT (escape raw) else escape raw)"
    "encodeField f = Inr (field_code f)"
  using assms
  by (auto simp: encodable_def field_code_def encodeField_def result_simps bind_result_def
      split: if_splits sum.splits)

lemma field_raw_slot:
  assumes "field_raw f = Inr raw"
  shows "raw = (case field_slot f of None \<Rightarrow> [TypeMissing] | Some v \<Rightarrow> scalar_bytes v)"
    and "field_slot f = Some v \<Longrightarrow> normal_value v \<and> is_scalar v"
    and "FieldMissing f \<longleftrightarrow> field_slot f = None"
  using assms
  by (auto simp: field_raw_def field_slot_def ScalarKey_alt bind_result_def
      split: if_splits sum.splits dest: scalar_of_normal)

lemma scalar_tag_range: "scalar_tag v \<in> {0x10, 0x20, 0x30, 0x40, 0x50}"
  by (cases v) auto

lemma field_raw_head:
  assumes "field_raw f = Inr raw"
  shows "\<exists>t ts. raw = t # ts \<and> t \<in> {0x01, 0x10, 0x20, 0x30, 0x40, 0x50}"
proof (cases "field_slot f")
  case None
  then show ?thesis using field_raw_slot(1) [OF assms] by (simp add: TypeMissing_def)
next
  case (Some v)
  then obtain t where "scalar_bytes v = scalar_tag v # t"
    using field_raw_slot(2) [OF assms] scalar_bytes_tag by blast
  then show ?thesis
    using field_raw_slot(1) [OF assms] Some scalar_tag_range [of v] by auto
qed

lemma raw_compare:
  assumes f: "field_raw f = Inr a" and g: "field_raw g = Inr b"
  shows "bytes_compare a b = slot_compare (field_slot f) (field_slot g)"
proof -
  have missing: "[TypeMissing] < scalar_bytes v \<and> \<not> scalar_bytes v < [TypeMissing] \<and>
      scalar_bytes v \<noteq> [TypeMissing]" if v: "normal_value v" "is_scalar v" for v
  proof -
    obtain t where "scalar_bytes v = scalar_tag v # t" using scalar_bytes_tag v by blast
    then show ?thesis using scalar_tag_range [of v] by (auto simp: TypeMissing_def)
  qed
  note a = field_raw_slot(1,2) [OF f] and b = field_raw_slot(1,2) [OF g]
  show ?thesis
    by (cases "field_slot f"; cases "field_slot g")
      (use a b missing in \<open>auto simp: bytes_compare_def scalar_bytes_compare [symmetric]\<close>)
qed

interpretation fields: prefix_code field_code alike_fields field_compare
proof
  fix x y
  assume "alike_fields x y"
  then have e: "encodable x" "encodable y" and d: "FieldDirection x = FieldDirection y"
    by (simp_all add: alike_fields_def)
  obtain a where a: "field_raw x = Inr a"
    "field_code x = (if FieldDirection x = Desc then map NOT (escape a) else escape a)"
    using encodableE [OF e(1)] by blast
  obtain b where b: "field_raw y = Inr b"
    "field_code y = (if FieldDirection x = Desc then map NOT (escape b) else escape b)"
    using encodableE [OF e(2)] d by metis
  have c: "bytes_compare a b = slot_compare (field_slot x) (field_slot y)"
    by (rule raw_compare [OF a(1) b(1)])
  have lt: "escape u < escape v \<longleftrightarrow> u < v" for u v using escape_less [of u "[]" v "[]"] by simp
  have rlt: "map NOT (escape u) < map NOT (escape v) \<longleftrightarrow> v < u" for u v
    by (cases "u = v") (simp_all add: lex_complement escape_parallel lt)
  show "bytes_compare (field_code x) (field_code y) = field_compare x y"
    unfolding field_compare_def a(2) b(2) c [symmetric]
    by (auto simp: bytes_compare_def lt rlt Let_def)
  assume "field_code x \<noteq> field_code y"
  then show "field_code x \<parallel> field_code y"
    unfolding a(2) b(2) by (auto simp: escape_parallel parallel_map_not)
qed


section \<open>Whole keys\<close>

lemma map_result_encodeField:
  assumes "map_result encodeField fs = Inr es"
  shows "es = map field_code fs \<and> list_all encodable fs"
  using assms
  by (induction fs arbitrary: es)
    (auto simp: encodable_def field_code_def split: sum.splits)

lemma EncodeE:
  assumes "Encode fs i = Inr k"
  obtains "k = Version # concat (map field_code fs) @ field_code (id_field i)"
    "list_all encodable fs" "encodable (id_field i)" "utf8_valid (bytes_of i)"
  using assms map_result_encodeField
  by (auto simp: Encode_def EncodePrefix_def result_simps encodable_def field_code_def
      split: if_splits)

lemma encodable_id_slot:
  "encodable (id_field i) \<Longrightarrow> field_slot (id_field i) = Some (Str i)"
  by (auto simp: encodable_def encodeField_def field_raw_def field_slot_def id_field_def scalar_of_def
      ScalarKey_def bind_result_def split: if_splits sum.splits)

lemma compare_same_prefix [simp]: "bytes_compare (p @ x) (p @ y) = bytes_compare x y"
  and compare_same_Cons [simp]: "bytes_compare (b # x) (b # y) = bytes_compare x y"
  by (simp_all add: bytes_compare_def)

lemma list_all2_alike:
  "\<lbrakk>list_all encodable fs; list_all encodable gs; map FieldDirection fs = map FieldDirection gs\<rbrakk>
    \<Longrightarrow> list_all2 alike_fields fs gs"
  by (induction fs arbitrary: gs) (auto simp: alike_fields_def Cons_eq_map_conv)

lemma scan_field_code:
  assumes "encodable f"
  obtains raw t ts where "raw = t # ts" "field_raw f = Inr raw"
    "\<And>rest. scan_component (FieldDirection f = Desc) (field_code f @ rest) = Some (raw, rest)"
    "field_code f \<noteq> []" "hd (field_code f) > 0x80 \<longleftrightarrow> FieldDirection f = Desc"
proof -
  obtain raw where raw: "field_raw f = Inr raw"
    "field_code f = (if FieldDirection f = Desc then map NOT (escape raw) else escape raw)"
    using encodableE [OF assms] by blast
  obtain t ts where t: "raw = t # ts" "t \<in> {0x01, 0x10, 0x20, 0x30, 0x40, 0x50}"
    using field_raw_head [OF raw(1)] by blast
  show thesis
    by (rule that [OF t(1) raw(1)]) (use raw(2) t in \<open>auto\<close>)
qed

lemma parts_loop_fields:
  assumes "list_all encodable fs"
  shows "parts_loop (concat (map field_code fs)) = Some (map field_code fs)"
  using assms
proof (induction fs)
  case (Cons f fs)
  then have "encodable f" by simp
  then obtain raw t ts where s: "raw = t # ts"
    "\<And>rest. scan_component (FieldDirection f = Desc) (field_code f @ rest) = Some (raw, rest)"
    "field_code f \<noteq> []" "hd (field_code f) > 0x80 \<longleftrightarrow> FieldDirection f = Desc"
    by (meson scan_field_code)
  obtain b bs where b: "field_code f = b # bs" using s(3) by (cases "field_code f") auto
  show ?case
    using Cons s(2) [of "concat (map field_code fs)"] s(4) by (simp add: b del: scan_component.simps)
qed simp

lemma last_component_fields:
  assumes "list_all encodable (fs @ [f])" and "field_raw f = Inr raw"
  shows "last_component d l (concat (map field_code (fs @ [f]))) = Some (FieldDirection f = Desc, raw)"
  using assms(1)
proof (induction fs arbitrary: d l)
  case Nil
  then have "encodable f" by simp
  then obtain raw' t ts where s: "raw' = t # ts" "field_raw f = Inr raw'"
    "\<And>rest. scan_component (FieldDirection f = Desc) (field_code f @ rest) = Some (raw', rest)"
    "field_code f \<noteq> []" "hd (field_code f) > 0x80 \<longleftrightarrow> FieldDirection f = Desc"
    by (rule scan_field_code) blast
  obtain b bs where b: "field_code f = b # bs" using s(4) by (cases "field_code f") auto
  show ?case
    using s(1,2,5) s(3) [of "[]"] assms(2) by (simp add: b Let_def del: scan_component.simps)
next
  case (Cons g fs)
  then have "encodable g" by simp
  then obtain raw' t ts where s: "raw' = t # ts" "field_raw g = Inr raw'"
    "\<And>rest. scan_component (FieldDirection g = Desc) (field_code g @ rest) = Some (raw', rest)"
    "field_code g \<noteq> []" "hd (field_code g) > 0x80 \<longleftrightarrow> FieldDirection g = Desc"
    by (rule scan_field_code) blast
  obtain b bs where b: "field_code g = b # bs" using s(4) by (cases "field_code g") auto
  show ?case
    using Cons s(1,2,5) s(3) [of "concat (map field_code (fs @ [f]))"]
    by (simp add: b Let_def del: scan_component.simps)
qed

lemma escape_length: "2 \<le> length (escape raw)"
  by (induction raw) auto

section \<open>Properties\<close>

text \<open>
  C1: the bytes of two index keys with the same field directions compare exactly as the tuples they
  encode: field by field, a missing value before every value, scalars in their exact order, reversed
  for a descending field, and last by document ID.
\<close>

theorem Encode_compare:
  assumes "Encode fs i = Inr k" and "Encode gs j = Inr l"
    and "map FieldDirection fs = map FieldDirection gs"
  shows "bytes_compare k l = lex_compare field_compare fs gs (cmp i j)"
proof -
  from assms(1) have k: "k = Version # concat (map field_code fs) @ field_code (id_field i)"
    "list_all encodable fs" "encodable (id_field i)" by (auto elim: EncodeE)
  from assms(2) have l: "l = Version # concat (map field_code gs) @ field_code (id_field j)"
    "list_all encodable gs" "encodable (id_field j)" by (auto elim: EncodeE)
  have dir: "FieldDirection (id_field x) = Asc" for x by (simp add: id_field_def)
  then have "alike_fields (id_field i) (id_field j)"
    using k l by (simp add: alike_fields_def)
  then have "bytes_compare (field_code (id_field i)) (field_code (id_field j)) = cmp i j"
    using k(3) l(3)
    by (simp add: fields.code_compare field_compare_def dir encodable_id_slot)
       (simp add: Asc_def Desc_def)
  then show ?thesis
    using fields.tuple_compare [OF list_all2_alike [OF k(2) l(2) assms(3)]] by (simp add: k l)
qed

text \<open>
  C3: \<open>ExtractDocID\<close> recovers the document ID from every key \<open>Encode\<close> builds, whatever fields precede
  it.
\<close>

theorem ExtractDocID_Encode:
  assumes "Encode fs i = Inr k"
  shows "ExtractDocID k = Inr i"
proof -
  from assms have k: "k = Version # concat (map field_code (fs @ [id_field i]))"
    "list_all encodable (fs @ [id_field i])" and i: "utf8_valid (bytes_of i)"
    by (auto elim: EncodeE)
  from k(2) have e: "encodable (id_field i)" by simp
  then obtain r where r: "field_raw (id_field i) = Inr r" by (rule encodableE)
  then have raw: "field_raw (id_field i) = Inr (TypeString # bytes_of i)"
    using field_raw_slot(1) [OF r] encodable_id_slot [OF e] by (simp add: TypeString_def)
  have "length (field_code (id_field i)) \<ge> 3"
    using k(2) raw escape_length [of "bytes_of i"] by (auto elim!: encodableE simp: TypeString_def)
  then have "length k \<ge> 4" by (simp add: k(1))
  then show ?thesis
    using last_component_fields [OF k(2) raw] i
    by (simp add: ExtractDocID_def k(1) id_field_def Asc_def Desc_def)
qed

text \<open>
  C4: \<open>tupleParts\<close> splits every key \<open>Encode\<close> builds into the encodings of its fields, in order, and
  of its document ID.
\<close>

theorem tupleParts_Encode:
  assumes "Encode fs i = Inr k"
  shows "tupleParts k = Inr (map field_code fs @ [field_code (id_field i)])"
proof -
  from assms have k: "k = Version # concat (map field_code (fs @ [id_field i]))"
    "list_all encodable (fs @ [id_field i])" by (auto elim: EncodeE)
  then show ?thesis using parts_loop_fields [OF k(2)] by (simp add: tupleParts_def)
qed


text \<open>Concrete keys: two descending fields and one ascending, a missing value and an escaped zero.\<close>

definition sample_fields :: "order_field list" where
  "sample_fields = [\<lparr>FieldValue = Bool True, FieldDirection = Desc, FieldMissing = False\<rparr>,
     \<lparr>FieldValue = NilValue, FieldDirection = Asc, FieldMissing = True\<rparr>]"

definition sample_fields2 :: "order_field list" where
  "sample_fields2 = [\<lparr>FieldValue = Bool False, FieldDirection = Desc, FieldMissing = False\<rparr>,
     \<lparr>FieldValue = Str ''a'', FieldDirection = Asc, FieldMissing = False\<rparr>]"

lemma Encode_sample:
  "Encode sample_fields ''d1'' =
     Inr [0x02, 0xCF, 0xFF, 0xFF, 0x01, 0x00, 0x00, 0x50, 0x64, 0x31, 0x00, 0x00]"
  by (simp add: Encode_def EncodePrefix_def encodeField_def field_raw_def ScalarKey_def id_field_def
      sample_fields_def sample_fields2_def result_simps bind_result_def bytes_of_def
      Asc_def Desc_def TypeMissing_def TypeString_def Version_def)

lemma Encode_sample2:
  "Encode sample_fields2 ''d2'' =
     Inr [0x02, 0xDF, 0xFF, 0xFF, 0x50, 0x61, 0x00, 0x00, 0x50, 0x64, 0x32, 0x00, 0x00]"
  by (simp add: Encode_def EncodePrefix_def encodeField_def field_raw_def ScalarKey_def id_field_def
      sample_fields_def sample_fields2_def result_simps bind_result_def bytes_of_def
      Asc_def Desc_def TypeMissing_def TypeString_def Version_def)

theorem Encode_compare_witness:
  "bytes_compare [0x02, 0xCF, 0xFF, 0xFF, 0x01, 0x00, 0x00, 0x50, 0x64, 0x31, 0x00, 0x00]
     [0x02, 0xDF, 0xFF, 0xFF, 0x50, 0x61, 0x00, 0x00, 0x50, 0x64, 0x32, 0x00, 0x00] =
   lex_compare field_compare sample_fields sample_fields2 (cmp ''d1'' ''d2'')"
  using Encode_compare [OF Encode_sample Encode_sample2]
  by (simp add: sample_fields_def sample_fields2_def)

theorem ExtractDocID_Encode_witness:
  "ExtractDocID [0x02, 0xCF, 0xFF, 0xFF, 0x01, 0x00, 0x00, 0x50, 0x64, 0x31, 0x00, 0x00] = Inr ''d1''"
  using ExtractDocID_Encode [OF Encode_sample] .

theorem tupleParts_Encode_witness:
  "tupleParts [0x02, 0xCF, 0xFF, 0xFF, 0x01, 0x00, 0x00, 0x50, 0x64, 0x31, 0x00, 0x00] =
     Inr [field_code (sample_fields ! 0), field_code (sample_fields ! 1), field_code (id_field ''d1'')]"
  using tupleParts_Encode [OF Encode_sample] by (simp add: sample_fields_def)

end
