(* ===== verification/Heaps.thy ===== *)
theory Heaps
  imports Prelude "HOL-Library.Multiset"
begin

text \<open>
  The Go standard library's \<^verbatim>\<open>sort.Slice\<close> and \<^verbatim>\<open>container/heap\<close> as the program uses them: the sifting
  loops on a slice, and the facts every client rests on, proved in the locale \<open>weak_order\<close> from the
  laws of a \<^verbatim>\<open>Less\<close> function.
\<close>

section \<open>Sorting and heaps\<close>

text \<open>
  \<^verbatim>\<open>sort.Slice\<close> on a short slice: the insertion sort Go runs up to twelve elements, which keeps the
  order of elements the comparison does not separate.
\<close>

fun insert_less :: "('a \<Rightarrow> 'a \<Rightarrow> bool) \<Rightarrow> 'a \<Rightarrow> 'a list \<Rightarrow> 'a list" where
  "insert_less lt x [] = [x]"
| "insert_less lt x (y # ys) = (if lt x y then x # y # ys else y # insert_less lt x ys)"

definition sort_slice :: "('a \<Rightarrow> 'a \<Rightarrow> bool) \<Rightarrow> 'a list \<Rightarrow> 'a list" where
  "sort_slice lt xs = foldl (\<lambda>acc x. insert_less lt x acc) [] xs"

text \<open>\<^verbatim>\<open>container/heap\<close> on a slice with its \<^verbatim>\<open>Less\<close>, \<^verbatim>\<open>Swap\<close>, \<^verbatim>\<open>Push\<close> and \<^verbatim>\<open>Pop\<close>.\<close>

definition swap_at :: "'a list \<Rightarrow> nat \<Rightarrow> nat \<Rightarrow> 'a list" where
  "swap_at xs i j = xs[i := xs ! j, j := xs ! i]"

function heap_up :: "('a \<Rightarrow> 'a \<Rightarrow> bool) \<Rightarrow> 'a list \<Rightarrow> nat \<Rightarrow> 'a list" where
  "heap_up lt xs j =
     (let i = (j - 1) div 2 in
      if i = j \<or> \<not> lt (xs ! j) (xs ! i) then xs else heap_up lt (swap_at xs i j) i)"
  by pat_completeness auto
termination
  by (relation "measure (\<lambda>(lt, xs, j). j)") auto

function heap_down :: "('a \<Rightarrow> 'a \<Rightarrow> bool) \<Rightarrow> 'a list \<Rightarrow> nat \<Rightarrow> nat \<Rightarrow> 'a list" where
  "heap_down lt xs i n =
     (let j1 = 2 * i + 1 in
      if j1 \<ge> n then xs
      else let j = (if j1 + 1 < n \<and> lt (xs ! (j1 + 1)) (xs ! j1) then j1 + 1 else j1) in
        if \<not> lt (xs ! j) (xs ! i) then xs else heap_down lt (swap_at xs i j) j n)"
  by pat_completeness auto
termination
  by (relation "measure (\<lambda>(lt, xs, i, n). n - i)") (auto simp: Let_def split: if_splits)

declare heap_up.simps [simp del] heap_down.simps [simp del]

definition heap_push :: "('a \<Rightarrow> 'a \<Rightarrow> bool) \<Rightarrow> 'a list \<Rightarrow> 'a \<Rightarrow> 'a list" where
  "heap_push lt xs x = heap_up lt (xs @ [x]) (length xs)"

definition heap_pop :: "('a \<Rightarrow> 'a \<Rightarrow> bool) \<Rightarrow> 'a list \<Rightarrow> 'a \<times> 'a list" where
  "heap_pop lt xs =
     (let n = length xs - 1; ys = heap_down lt (swap_at xs 0 n) 0 n in (ys ! n, take n ys))"

text \<open>\<^verbatim>\<open>heap.Init\<close>.\<close>

definition heap_init :: "('a \<Rightarrow> 'a \<Rightarrow> bool) \<Rightarrow> 'a list \<Rightarrow> 'a list" where
  "heap_init lt xs = foldr (\<lambda>i ys. heap_down lt ys i (length xs)) [0..<length xs div 2] xs"

lemma length_swap_at [simp]: "length (swap_at xs i j) = length xs"
  by (simp add: swap_at_def)

lemma nth_swap_at:
  "i < length xs \<Longrightarrow> j < length xs \<Longrightarrow> k < length xs \<Longrightarrow>
     swap_at xs i j ! k = (if k = j then xs ! i else if k = i then xs ! j else xs ! k)"
  by (simp add: swap_at_def nth_list_update)

lemma mset_swap_at [simp]: "i < length xs \<Longrightarrow> j < length xs \<Longrightarrow> mset (swap_at xs i j) = mset xs"
  unfolding swap_at_def by (rule mset_swap)

lemma mset_heap_up [simp]: "j < length xs \<Longrightarrow> mset (heap_up lt xs j) = mset xs"
  by (induction lt xs j rule: heap_up.induct) (subst heap_up.simps, auto simp: Let_def)

lemma length_heap_up [simp]: "length (heap_up lt xs j) = length xs"
  by (induction lt xs j rule: heap_up.induct) (subst heap_up.simps, auto simp: Let_def)

lemma length_heap_down [simp]: "length (heap_down lt xs i n) = length xs"
  by (induction lt xs i n rule: heap_down.induct) (subst heap_down.simps, auto simp: Let_def)

lemma mset_heap_down [simp]: "n \<le> length xs \<Longrightarrow> mset (heap_down lt xs i n) = mset xs"
  by (induction lt xs i n rule: heap_down.induct) (subst heap_down.simps, auto simp: Let_def)

lemma heap_down_beyond: "n \<le> k \<Longrightarrow> k < length xs \<Longrightarrow> heap_down lt xs i n ! k = xs ! k"
  by (induction lt xs i n rule: heap_down.induct)
    (subst heap_down.simps, auto simp: Let_def nth_swap_at)

text \<open>The parent of a position.\<close>

definition parent :: "nat \<Rightarrow> nat" where
  "parent k = (k - 1) div 2"

lemma parent_less: "0 < k \<Longrightarrow> parent k < k"
  by (simp add: parent_def)

text \<open>The heap order, and the states of the two sifting loops.\<close>

definition heap_ok :: "('a \<Rightarrow> 'a \<Rightarrow> bool) \<Rightarrow> 'a list \<Rightarrow> bool" where
  "heap_ok lt xs \<longleftrightarrow> (\<forall>k. 0 < k \<and> k < length xs \<longrightarrow> \<not> lt (xs ! k) (xs ! (parent k)))"

definition up_inv :: "('a \<Rightarrow> 'a \<Rightarrow> bool) \<Rightarrow> 'a list \<Rightarrow> nat \<Rightarrow> bool" where
  "up_inv lt xs j \<longleftrightarrow> j < length xs \<and>
     (\<forall>k. 0 < k \<and> k < length xs \<and> k \<noteq> j \<longrightarrow> \<not> lt (xs ! k) (xs ! (parent k))) \<and>
     (\<forall>k. 0 < k \<and> k < length xs \<and> parent k = j \<and> 0 < j \<longrightarrow>
        \<not> lt (xs ! k) (xs ! (parent j)))"

definition down_inv :: "('a \<Rightarrow> 'a \<Rightarrow> bool) \<Rightarrow> 'a list \<Rightarrow> nat \<Rightarrow> nat \<Rightarrow> nat \<Rightarrow> bool" where
  "down_inv lt xs m i n \<longleftrightarrow> n \<le> length xs \<and> m \<le> i \<and>
     (\<forall>k. 0 < k \<and> k < n \<and> m \<le> parent k \<and> parent k \<noteq> i \<longrightarrow>
        \<not> lt (xs ! k) (xs ! (parent k))) \<and>
     (\<forall>k. 0 < k \<and> k < n \<and> parent k = i \<and> m < i \<and> m \<le> parent i \<longrightarrow>
        \<not> lt (xs ! k) (xs ! (parent i)))"

section \<open>Comparisons that sort\<close>

text \<open>
  What \<^verbatim>\<open>sort\<close> and \<^verbatim>\<open>container/heap\<close> ask of a \<^verbatim>\<open>Less\<close>: a strict weak order.  The facts about sorted
  slices and heaps are proved once from it.
\<close>

locale weak_order =
  fixes lt :: "'a \<Rightarrow> 'a \<Rightarrow> bool"
  assumes lt_asym: "lt x y \<Longrightarrow> \<not> lt y x"
    and not_lt_trans: "\<not> lt x y \<Longrightarrow> \<not> lt y z \<Longrightarrow> \<not> lt x z"
begin

lemma insert_less_mset: "mset (insert_less lt x ys) = add_mset x (mset ys)"
  by (induction ys) auto

lemma insert_less_sorted:
  "sorted_wrt (\<lambda>a b. \<not> lt b a) ys \<Longrightarrow> sorted_wrt (\<lambda>a b. \<not> lt b a) (insert_less lt x ys)"
proof (induction ys)
  case (Cons y ys)
  have "set (insert_less lt x ys) = insert x (set ys)"
    by (metis insert_less_mset set_mset_add_mset_insert set_mset_mset)
  then show ?case
    using Cons lt_asym [of x y] not_lt_trans [of _ y x] by (cases "lt x y") auto
qed simp

lemma sort_slice_correct:
  "mset (sort_slice lt xs) = mset xs \<and> sorted_wrt (\<lambda>a b. \<not> lt b a) (sort_slice lt xs)"
proof (induction xs rule: rev_induct)
  case (snoc x xs)
  then show ?case by (simp add: sort_slice_def insert_less_mset insert_less_sorted)
qed (simp add: sort_slice_def)

lemma up_step:
  assumes inv: "up_inv lt xs j" and less: "lt (xs ! j) (xs ! i)" and i: "i = parent j" "i \<noteq> j"
  shows "up_inv lt (swap_at xs i j) i"
proof -
  have j: "j < length xs" "i < length xs" "i < j" "0 < j"
    using inv i parent_less [of j] by (auto simp: up_inv_def parent_def)
  have n: "\<And>k. 0 < k \<Longrightarrow> k < length xs \<Longrightarrow> k \<noteq> j \<Longrightarrow> \<not> lt (xs ! k) (xs ! (parent k))"
    and c: "\<And>k. 0 < k \<Longrightarrow> k < length xs \<Longrightarrow> parent k = j \<Longrightarrow> \<not> lt (xs ! k) (xs ! i)"
    using inv i j by (auto simp: up_inv_def)
  have a: "\<not> lt (xs ! i) (xs ! j)" using less by (rule lt_asym)
  let ?y = "swap_at xs i j"
  have y: "k < length xs \<Longrightarrow> ?y ! k = (if k = j then xs ! i else if k = i then xs ! j else xs ! k)" for k
    using j nth_swap_at by blast
  have "\<not> lt (?y ! k) (?y ! parent k)" if k: "0 < k" "k < length xs" "k \<noteq> i" for k
  proof -
    have p: "parent k < length xs" using k parent_less [of k] by simp
    show ?thesis
    proof (cases "k = j")
      case True
      then show ?thesis using a y [OF k(2)] y [OF p] i j by simp
    next
      case kj: False
      show ?thesis
      proof (cases "parent k = j")
        case True
        then show ?thesis using c [OF k(1,2)] y [OF k(2)] y [OF p] k(3) kj by simp
      next
        case False
        then show ?thesis
          using n [OF k(1,2) kj] not_lt_trans [OF _ a, of "xs ! k"] y [OF k(2)] y [OF p] k(3) kj
          by (cases "parent k = i") simp_all
      qed
    qed
  qed
  moreover have "\<not> lt (?y ! k) (?y ! parent i)"
    if k: "0 < k" "k < length xs" "parent k = i" "0 < i" for k
  proof -
    have p: "parent i < i" using k parent_less by simp
    then have pi: "\<not> lt (xs ! i) (xs ! parent i)" "?y ! parent i = xs ! parent i"
      using n [of i] y [of "parent i"] j k(4) by simp_all
    have "k \<noteq> i" using k(1,3) parent_less [of k] by auto
    then show ?thesis
      using pi n [OF k(1,2)] not_lt_trans [OF _ pi(1), of "xs ! k"] y [OF k(2)] k(3)
      by (cases "k = j") simp_all
  qed
  ultimately show ?thesis using j by (simp add: up_inv_def)
qed

lemma heap_up_ok: "up_inv lt xs j \<Longrightarrow> heap_ok lt (heap_up lt xs j)"
proof (induction j arbitrary: xs rule: less_induct)
  case (less j)
  let ?i = "parent j"
  show ?case
  proof (cases "?i = j \<or> \<not> lt (xs ! j) (xs ! ?i)")
    case True
    then have "heap_up lt xs j = xs" by (subst heap_up.simps) (simp add: Let_def parent_def)
    then show ?thesis using True less.prems by (auto simp: heap_ok_def up_inv_def)
  next
    case False
    then have "heap_up lt xs j = heap_up lt (swap_at xs ?i j) ?i"
      by (subst heap_up.simps) (simp add: Let_def parent_def)
    moreover have "?i < j" using False parent_less [of j] by (cases "j = 0") (auto simp: parent_def)
    moreover have "up_inv lt (swap_at xs ?i j) ?i" using up_step [OF less.prems] False by blast
    ultimately show ?thesis using less.IH by simp
  qed
qed

lemma heap_push_ok: "heap_ok lt xs \<Longrightarrow> heap_ok lt (heap_push lt xs x)"
proof -
  assume ok: "heap_ok lt xs"
  have "up_inv lt (xs @ [x]) (length xs)"
    unfolding up_inv_def
  proof (intro conjI allI impI)
    fix k
    assume "0 < k \<and> k < length (xs @ [x]) \<and> k \<noteq> length xs"
    then show "\<not> lt ((xs @ [x]) ! k) ((xs @ [x]) ! parent k)"
      using ok parent_less [of k] by (simp add: heap_ok_def nth_append)
  next
    fix k
    assume "0 < k \<and> k < length (xs @ [x]) \<and> parent k = length xs \<and> 0 < length xs"
    then show "\<not> lt ((xs @ [x]) ! k) ((xs @ [x]) ! parent (length xs))"
      using parent_less [of k] by simp
  qed simp
  then show ?thesis unfolding heap_push_def by (rule heap_up_ok)
qed

lemma heap_push_mset: "mset (heap_push lt xs x) = add_mset x (mset xs)"
  by (simp add: heap_push_def)

lemma heap_root: "heap_ok lt xs \<Longrightarrow> k < length xs \<Longrightarrow> \<not> lt (xs ! k) (xs ! 0)"
proof (induction k rule: less_induct)
  case (less k)
  show ?case
  proof (cases "k = 0")
    case True
    then show ?thesis using lt_asym [of "xs ! 0" "xs ! 0"] by blast
  next
    case False
    then have "parent k < k" using parent_less by simp
    then have "\<not> lt (xs ! (parent k)) (xs ! 0)" using less by simp
    moreover have "\<not> lt (xs ! k) (xs ! (parent k))"
      using less.prems False by (simp add: heap_ok_def)
    ultimately show ?thesis by (rule not_lt_trans [rotated])
  qed
qed

lemma down_step:
  assumes inv: "down_inv lt xs m i n" and c: "parent j = i" "0 < j" "j < n"
    and less: "lt (xs ! j) (xs ! i)"
    and best: "\<And>k. 0 < k \<Longrightarrow> k < n \<Longrightarrow> parent k = i \<Longrightarrow> \<not> lt (xs ! k) (xs ! j)"
  shows "down_inv lt (swap_at xs i j) m j n"
proof -
  have j: "i < j" "j < length xs" "i < length xs" "n \<le> length xs" "m \<le> i"
    using inv c parent_less [of j] by (auto simp: down_inv_def)
  have o: "\<And>k. 0 < k \<Longrightarrow> k < n \<Longrightarrow> m \<le> parent k \<Longrightarrow> parent k \<noteq> i \<Longrightarrow> \<not> lt (xs ! k) (xs ! parent k)"
    and g: "\<And>k. 0 < k \<Longrightarrow> k < n \<Longrightarrow> parent k = i \<Longrightarrow> m < i \<Longrightarrow> m \<le> parent i \<Longrightarrow> \<not> lt (xs ! k) (xs ! parent i)"
    using inv by (auto simp: down_inv_def)
  let ?y = "swap_at xs i j"
  have y: "k < n \<Longrightarrow> ?y ! k = (if k = j then xs ! i else if k = i then xs ! j else xs ! k)" for k
    using j nth_swap_at [of i xs j k] by simp
  have "\<not> lt (?y ! k) (?y ! parent k)" if k: "0 < k" "k < n" "m \<le> parent k" "parent k \<noteq> j" for k
  proof -
    have p: "parent k < n" "parent k < k" using k parent_less [of k] by simp_all
    show ?thesis
    proof (cases "parent k = i")
      case True
      then show ?thesis
        using y [OF k(2)] y [OF p(1)] k j p(2) best [OF k(1,2)] lt_asym [OF less] by (cases "k = j") simp_all
    next
      case False
      then have "k \<noteq> j" using c by auto
      have "\<not> lt (xs ! j) (xs ! parent i)" if "k = i"
        using g [OF c(2,3,1)] that k p by auto
      then show ?thesis
        using y [OF k(2)] y [OF p(1)] k j False \<open>k \<noteq> j\<close> o [OF k(1,2,3) False]
        by (cases "k = i") simp_all
    qed
  qed
  moreover have "\<not> lt (?y ! k) (?y ! parent j)" if k: "0 < k" "k < n" "parent k = j" for k
  proof -
    have "k \<noteq> j" "k \<noteq> i" using k parent_less [of k] j by auto
    moreover have "parent k \<noteq> i" using k j by simp
    ultimately show ?thesis
      using y [OF k(2)] y [of i] c j o [OF k(1,2)] k by simp
  qed
  ultimately show ?thesis using j by (simp add: down_inv_def)
qed

lemma heap_down_from:
  "down_inv lt xs m i n \<Longrightarrow> 0 < k \<Longrightarrow> k < n \<Longrightarrow> m \<le> parent k \<Longrightarrow>
     \<not> lt (heap_down lt xs i n ! k) (heap_down lt xs i n ! parent k)"
proof (induction "n - i" arbitrary: i xs rule: less_induct)
  case less
  let ?j = "if 2 * i + 2 < n \<and> lt (xs ! (2 * i + 2)) (xs ! (2 * i + 1)) then 2 * i + 2 else 2 * i + 1"
  have kids: "parent c = i \<Longrightarrow> 0 < c \<Longrightarrow> c = 2 * i + 1 \<or> c = 2 * i + 2" for c
    unfolding parent_def by presburger
  have best: "\<not> lt (xs ! c) (xs ! ?j)" if "0 < c" "c < n" "parent c = i" for c
    using kids [OF that(3,1)] that(2) lt_asym [of "xs ! (2 * i + 2)" "xs ! (2 * i + 1)"]
      lt_asym [of "xs ! c" "xs ! c"] by auto
  have stop: ?case if "heap_down lt xs i n = xs"
    "\<And>c. 0 < c \<Longrightarrow> c < n \<Longrightarrow> parent c = i \<Longrightarrow> \<not> lt (xs ! c) (xs ! i)"
    using that less.prems by (cases "parent k = i") (auto simp: down_inv_def)
  show ?case
  proof (cases "2 * i + 1 \<ge> n \<or> \<not> lt (xs ! ?j) (xs ! i)")
    case True
    then have "heap_down lt xs i n = xs" by (subst heap_down.simps) (auto simp: Let_def)
    then show ?thesis
    proof (rule stop)
      fix c
      assume c: "0 < c" "c < n" "parent c = i"
      then have "2 * i + 1 < n" using kids [of c] by auto
      then have "\<not> lt (xs ! ?j) (xs ! i)" using True by simp
      with best [OF c] show "\<not> lt (xs ! c) (xs ! i)" by (rule not_lt_trans)
    qed
  next
    case False
    then have d: "heap_down lt xs i n = heap_down lt (swap_at xs i ?j) ?j n"
      by (subst heap_down.simps) (auto simp: Let_def split: if_splits)
    have j: "parent ?j = i" "0 < ?j" "?j < n" "i < ?j" using False by (auto simp: parent_def)
    have "down_inv lt (swap_at xs i ?j) m ?j n"
      using down_step [OF less.prems(1) j(1-3)] False best by blast
    moreover have "n - ?j < n - i" using j(3,4) by linarith
    ultimately show ?thesis unfolding d using less.hyps less.prems(2-4) by blast
  qed
qed

lemma heap_pop_correct:
  assumes ok: "heap_ok lt xs" and ne: "xs \<noteq> []" and pop: "heap_pop lt xs = (x, ys)"
  shows "x = xs ! 0 \<and> heap_ok lt ys \<and> add_mset x (mset ys) = mset xs"
proof -
  let ?n = "length xs - 1"
  let ?s = "swap_at xs 0 ?n"
  let ?d = "heap_down lt ?s 0 ?n"
  have n: "?n < length xs" using ne by simp
  have x: "x = ?d ! ?n" "ys = take ?n ?d" using pop by (simp_all add: heap_pop_def Let_def)
  have "?d ! ?n = ?s ! ?n" using n by (intro heap_down_beyond) simp_all
  then have x0: "x = xs ! 0" using n ne x by (simp add: nth_swap_at)
  have "?d = ys @ [x]"
    using n x by (metis Suc_diff_1 hd_drop_conv_nth length_greater_0_conv length_heap_down
        length_swap_at lessI ne take_Suc_conv_app_nth take_all_iff le_refl)
  then have "mset (ys @ [x]) = mset xs" using n ne by (metis mset_heap_down mset_swap_at
        diff_le_self length_greater_0_conv length_swap_at)
  moreover have "down_inv lt ?s 0 0 ?n"
    unfolding down_inv_def
  proof (intro conjI allI impI)
    fix k
    assume k: "0 < k \<and> k < ?n \<and> 0 \<le> parent k \<and> parent k \<noteq> 0"
    then have "0 < k" "k < ?n" by simp_all
    then have l: "parent k < ?n" "k < length xs" "parent k < length xs"
      using parent_less [of k] by linarith+
    have "?s ! k = xs ! k" "?s ! parent k = xs ! parent k"
      using l k n ne nth_swap_at [of 0 xs ?n k] nth_swap_at [of 0 xs ?n "parent k"] by auto
    then show "\<not> lt (?s ! k) (?s ! parent k)" using ok l(2) k by (simp add: heap_ok_def)
  qed simp_all
  then have d: "\<not> lt (?d ! k) (?d ! parent k)" if "0 < k" "k < ?n" for k
    using heap_down_from [of ?s 0 0 ?n k] that by simp
  have "heap_ok lt ys"
    unfolding heap_ok_def
  proof (intro allI impI)
    fix k
    assume "0 < k \<and> k < length ys"
    then show "\<not> lt (ys ! k) (ys ! parent k)"
      using d [of k] parent_less [of k] n by (simp add: x(2))
  qed
  ultimately show ?thesis using x0 by simp
qed

lemma heap_pop_min:
  assumes "heap_ok lt xs" and "xs \<noteq> []" and "heap_pop lt xs = (x, ys)" and "z \<in> set ys"
  shows "\<not> lt z x"
proof -
  have "z \<in> set xs" using heap_pop_correct [OF assms(1-3)] assms(4)
    by (metis insertI2 set_mset_add_mset_insert set_mset_mset)
  then show ?thesis
    using heap_root [OF assms(1)] heap_pop_correct [OF assms(1-3)] by (auto simp: in_set_conv_nth)
qed

lemma heap_init_from:
  assumes "m \<le> length xs div 2"
  shows "let ys = foldr (\<lambda>i ys. heap_down lt ys i (length xs)) [m..<length xs div 2] xs in
    mset ys = mset xs \<and> length ys = length xs \<and>
    (\<forall>k. 0 < k \<and> k < length xs \<and> m \<le> parent k \<longrightarrow> \<not> lt (ys ! k) (ys ! parent k))"
  using assms
proof (induction "length xs div 2 - m" arbitrary: m)
  case 0
  have "\<not> m \<le> parent k" if "0 < k" "k < length xs" for k
    using that 0 unfolding parent_def by linarith
  then show ?case using 0 by (auto simp: Let_def)
next
  case (Suc d)
  let ?f = "\<lambda>i ys. heap_down lt ys i (length xs)"
  let ?z = "foldr ?f [Suc m..<length xs div 2] xs"
  have m: "m < length xs div 2" using Suc.hyps(2) by linarith
  then have u: "[m..<length xs div 2] = m # [Suc m..<length xs div 2]" by (rule upt_conv_Cons)
  have z: "mset ?z = mset xs" "length ?z = length xs"
    "\<And>k. 0 < k \<Longrightarrow> k < length xs \<Longrightarrow> Suc m \<le> parent k \<Longrightarrow> \<not> lt (?z ! k) (?z ! parent k)"
    using Suc.hyps(1) [of "Suc m"] Suc.hyps(2) m by (auto simp: Let_def)
  have "down_inv lt ?z m m (length xs)"
    using z by (auto simp: down_inv_def)
  then show ?case
    using heap_down_from [of ?z m m "length xs"] z(1,2) unfolding u by (simp add: Let_def)
qed

lemma heap_init_ok: "heap_ok lt (heap_init lt xs) \<and> mset (heap_init lt xs) = mset xs"
  using heap_init_from [of 0 xs] by (simp add: heap_init_def heap_ok_def Let_def)

end

end
