(* ===== verification/Templates.thy ===== *)
theory Templates
  imports Filters OrderKey Heaps
begin

text \<open>
  Index templates (\<^verbatim>\<open>internal/indexer/template/template.go\<close>): validation of a template file and
  matching of collection paths against patterns with variable segments, most specific first.
\<close>

section \<open>Templates\<close>

text \<open>\<^verbatim>\<open>Direction\<close> and \<^verbatim>\<open>Mode\<close> are Go strings, so a template file may hold any other value.\<close>

definition TemplateAsc :: string where
  "TemplateAsc = ''asc''"

definition TemplateDesc :: string where
  "TemplateDesc = ''desc''"

definition Scalar :: string where
  "Scalar = ''scalar''"

definition Membership :: string where
  "Membership = ''membership''"

record template_field =
  FieldName :: string
  FieldOrder :: string
  FieldMode :: string

record template =
  Name :: string
  CollectionPattern :: string
  Fields :: "template_field list"
  IncludeDeleted :: bool

record config =
  Database :: string
  ConfigTemplates :: "template list"

datatype template_error =
  ErrEmptyPattern | ErrEmptySegment | ErrNoFields | ErrInvalidDirection string
| ErrDuplicateField string | ErrDuplicateTemplate | ErrInvalidField string | TooManyMembership
| MembershipDescending string | MembershipMetadata string | InvalidMode string
| ErrEmptyDatabase string | ConfigUnreadable string

text \<open>\<^verbatim>\<open>varPattern\<close>, the regular expression \<^verbatim>\<open>^\{[^}]+\}$\<close>.\<close>

definition varPattern :: "string \<Rightarrow> bool" where
  "varPattern seg \<longleftrightarrow>
     (case seg of [] \<Rightarrow> False
      | c # cs \<Rightarrow> c = CHR ''{'' \<and> cs \<noteq> [] \<and> last cs = CHR ''}'' \<and> butlast cs \<noteq> [] \<and>
          CHR ''}'' \<notin> set (butlast cs))"

definition NormalizePattern :: "string \<Rightarrow> string" where
  "NormalizePattern pattern =
     join_with ''/'' (map (\<lambda>seg. if varPattern seg then ''*'' else seg) (split_on CHR ''/'' pattern))"

definition NormalizedPattern :: "template \<Rightarrow> string" where
  "NormalizedPattern t = NormalizePattern (CollectionPattern t)"

definition Identity :: "template \<Rightarrow> string" where
  "Identity t =
     (if Name t \<noteq> '''' then Name t
      else join_with '','' (map (\<lambda>f.
        if FieldMode f = Membership then FieldName f @ '':membership''
        else FieldName f @ '':'' @ FieldOrder f) (Fields t)))"

text \<open>
  \<^verbatim>\<open>Fingerprint\<close> hashes the JSON of the semantic parts of a template; \<open>digest\<close> stands for
  \<^verbatim>\<open>hex(sha256(json))\<close> of the tuple.
\<close>

type_synonym fingerprint_payload = "string \<times> template_field list \<times> bool \<times> byte"

definition fingerprint_fields :: "template_field list \<Rightarrow> template_field list" where
  "fingerprint_fields fs =
     map (\<lambda>f. let g = (if FieldMode f = '''' then f\<lparr>FieldMode := Scalar\<rparr> else f)
              in if FieldMode g = Membership then g\<lparr>FieldOrder := TemplateAsc\<rparr> else g) fs"

definition Fingerprint :: "(fingerprint_payload \<Rightarrow> string) \<Rightarrow> template \<Rightarrow> string" where
  "Fingerprint digest t =
     digest (NormalizedPattern t, fingerprint_fields (Fields t), IncludeDeleted t, Version)"

section \<open>Validation\<close>

definition metadata_fields :: "string list" where
  "metadata_fields = [''id'', ''collection'', ''version'', ''createdAt'', ''updatedAt'', ''deleted'']"

fun validate_fields :: "string list \<Rightarrow> nat \<Rightarrow> template_field list \<Rightarrow> template_error + unit" where
  "validate_fields seen membershipFields [] = Inr ()"
| "validate_fields seen membershipFields (f # fs) =
     (if \<not> ValidateQueryField (FieldName f) then Inl (ErrInvalidField (FieldName f))
      else
        let next = (if FieldName f \<in> set seen then Inl (ErrDuplicateField (FieldName f))
          else validate_fields (FieldName f # seen)
            (if FieldMode f = Membership then membershipFields + 1 else membershipFields) fs)
        in if FieldMode f = '''' \<or> FieldMode f = Scalar
           then (if FieldOrder f \<noteq> TemplateAsc \<and> FieldOrder f \<noteq> TemplateDesc
                 then Inl (ErrInvalidDirection (FieldName f)) else next)
           else if FieldMode f = Membership
           then (if membershipFields + 1 > 1 then Inl TooManyMembership
                 else if FieldOrder f \<noteq> '''' \<and> FieldOrder f \<noteq> TemplateAsc
                 then Inl (MembershipDescending (FieldName f))
                 else if FieldName f \<in> set metadata_fields then Inl (MembershipMetadata (FieldName f))
                 else next)
           else Inl (InvalidMode (FieldName f)))"

definition ValidateTemplate :: "template \<Rightarrow> template_error + unit" where
  "ValidateTemplate t =
     (if CollectionPattern t = '''' then Inl ErrEmptyPattern
      else if '''' \<in> set (split_on CHR ''/'' (CollectionPattern t)) then Inl ErrEmptySegment
      else if Fields t = [] then Inl ErrNoFields
      else validate_fields [] 0 (Fields t))"

fun validate_templates ::
  "(fingerprint_payload \<Rightarrow> string) \<Rightarrow> string list \<Rightarrow> string list \<Rightarrow> template list \<Rightarrow> template_error + unit" where
  "validate_templates digest seen fingerprints [] = Inr ()"
| "validate_templates digest seen fingerprints (t # ts) =
     (let key = NormalizedPattern t @ ''|'' @ Identity t in
      if key \<in> set seen then Inl ErrDuplicateTemplate
      else if Fingerprint digest t \<in> set fingerprints then Inl ErrDuplicateTemplate
      else validate_templates digest (key # seen) (Fingerprint digest t # fingerprints) ts)"

definition ValidateTemplates :: "(fingerprint_payload \<Rightarrow> string) \<Rightarrow> template list \<Rightarrow> template_error + unit" where
  "ValidateTemplates digest templates = validate_templates digest [] [] templates"

text \<open>\<^verbatim>\<open>LoadFromBytes\<close> after the YAML decoder: the decoded configuration is its argument.\<close>

definition LoadFromBytes :: "(fingerprint_payload \<Rightarrow> string) \<Rightarrow> config \<Rightarrow> template_error + template list" where
  "LoadFromBytes digest cfg =
     bind_result (map_result ValidateTemplate (ConfigTemplates cfg)) (\<lambda>_.
       bind_result (ValidateTemplates digest (ConfigTemplates cfg)) (\<lambda>_. Inr (ConfigTemplates cfg)))"

section \<open>Loading a directory\<close>

text \<open>
  \<^verbatim>\<open>LoadFromDir\<close> over the entries of the directory, each with its name, whether it is a directory and
  what \<^verbatim>\<open>loadConfigFromFile\<close> returned for it.
\<close>

type_synonym dir_entry = "string \<times> bool \<times> config option"

type_synonym database_templates = "(string \<times> template list) list"

definition merge_templates :: "string \<Rightarrow> template list \<Rightarrow> database_templates \<Rightarrow> database_templates" where
  "merge_templates db ts result =
     (case map_of result db of
        None \<Rightarrow> result @ [(db, ts)]
      | Some _ \<Rightarrow> map (\<lambda>(d, old). if d = db then (d, old @ ts) else (d, old)) result)"

fun check_config :: "string \<Rightarrow> string list \<Rightarrow> template list \<Rightarrow> template_error + string list" where
  "check_config db seen [] = Inr seen"
| "check_config db seen (t # ts) =
     bind_result (ValidateTemplate t) (\<lambda>_.
       let key = db @ ''|'' @ Identity t in
       if key \<in> set seen then Inl ErrDuplicateTemplate else check_config db (key # seen) ts)"

fun load_entries :: "string list \<Rightarrow> database_templates \<Rightarrow> dir_entry list \<Rightarrow> template_error + database_templates" where
  "load_entries seen result [] = Inr result"
| "load_entries seen result ((name, isDir, loaded) # entries) =
     (if isDir \<or> (\<not> has_suffix name ''.yml'' \<and> \<not> has_suffix name ''.yaml'')
      then load_entries seen result entries
      else case loaded of None \<Rightarrow> Inl (ConfigUnreadable name)
      | Some cfg \<Rightarrow>
          if Database cfg = '''' then Inl (ErrEmptyDatabase name)
          else bind_result (check_config (Database cfg) seen (ConfigTemplates cfg)) (\<lambda>seen'.
            load_entries seen' (merge_templates (Database cfg) (ConfigTemplates cfg) result) entries))"

definition LoadFromDir ::
  "(fingerprint_payload \<Rightarrow> string) \<Rightarrow> dir_entry list \<Rightarrow> template_error + database_templates" where
  "LoadFromDir digest entries =
     bind_result (load_entries [] [] entries) (\<lambda>result.
       bind_result (map_result (\<lambda>(db, ts). ValidateTemplates digest ts) result) (\<lambda>_. Inr result))"

definition AllTemplates :: "database_templates \<Rightarrow> template list" where
  "AllTemplates dt = concat (map snd dt)"

definition Databases :: "database_templates \<Rightarrow> string list" where
  "Databases dt = sort (map fst dt)"

section \<open>Matching\<close>

record pattern_score =
  FixedSegments :: nat
  TotalSegments :: nat

record match_result =
  MatchTemplate :: template
  Score :: pattern_score

definition ScoreLess :: "pattern_score \<Rightarrow> pattern_score \<Rightarrow> bool" where
  "ScoreLess s other =
     (if FixedSegments s \<noteq> FixedSegments other then FixedSegments s < FixedSegments other
      else TotalSegments s < TotalSegments other)"

definition ScoreEqual :: "pattern_score \<Rightarrow> pattern_score \<Rightarrow> bool" where
  "ScoreEqual s other \<longleftrightarrow>
     FixedSegments s = FixedSegments other \<and> TotalSegments s = TotalSegments other"

definition segmentsMatch :: "string list \<Rightarrow> string list \<Rightarrow> bool" where
  "segmentsMatch path pattern =
     list_all (\<lambda>i. varPattern (pattern ! i) \<or> pattern ! i = ''*'' \<or> path ! i = pattern ! i) [0..<length path]"

definition calculateScore :: "string list \<Rightarrow> pattern_score" where
  "calculateScore segments =
     \<lparr>FixedSegments = length (filter (\<lambda>seg. \<not> varPattern seg \<and> seg \<noteq> ''*'') segments),
      TotalSegments = length segments\<rparr>"

definition MatchTemplates :: "string \<Rightarrow> template list \<Rightarrow> match_result list" where
  "MatchTemplates path templates =
     (let pathSegments = split_on CHR ''/'' path;
          matching = filter (\<lambda>t. let patternSegments = split_on CHR ''/'' (CollectionPattern t) in
            length pathSegments = length patternSegments \<and> segmentsMatch pathSegments patternSegments) templates;
          results = map (\<lambda>t. \<lparr>MatchTemplate = t,
            Score = calculateScore (split_on CHR ''/'' (CollectionPattern t))\<rparr>) matching
      in sort_slice (\<lambda>a b. ScoreLess (Score b) (Score a)) results)"

definition SelectBestTemplates :: "match_result list \<Rightarrow> match_result list" where
  "SelectBestTemplates results =
     (case results of [] \<Rightarrow> []
      | r # _ \<Rightarrow> takeWhile (\<lambda>x. ScoreEqual (Score x) (Score r)) results)"

section \<open>What validation accepts\<close>

definition valid_dimension :: "template_field \<Rightarrow> bool" where
  "valid_dimension f \<longleftrightarrow> ValidateQueryField (FieldName f) \<and>
     (if FieldMode f = Membership
      then (FieldOrder f = '''' \<or> FieldOrder f = TemplateAsc) \<and> FieldName f \<notin> set metadata_fields
      else (FieldMode f = '''' \<or> FieldMode f = Scalar) \<and>
        (FieldOrder f = TemplateAsc \<or> FieldOrder f = TemplateDesc))"

definition memberships :: "template_field list \<Rightarrow> nat" where
  "memberships fs = length (filter (\<lambda>f. FieldMode f = Membership) fs)"

lemma Membership_not [simp]: "Membership \<noteq> ''''" "Membership \<noteq> Scalar" "Scalar \<noteq> Membership" "'''' \<noteq> Membership"
  by (simp_all add: Membership_def Scalar_def)

lemma validate_fields_iff:
  "validate_fields seen m fs = Inr () \<longleftrightarrow>
     list_all valid_dimension fs \<and> distinct (map FieldName fs) \<and> set (map FieldName fs) \<inter> set seen = {} \<and>
     (memberships fs = 0 \<or> m + memberships fs \<le> 1)"
proof (induction fs arbitrary: seen m)
  case (Cons f fs)
  show ?case
    by (cases "FieldMode f = Membership")
      (auto simp: Let_def valid_dimension_def memberships_def Cons.IH)
qed (simp add: memberships_def)

section \<open>Matching and priority\<close>

text \<open>
  What matching means: a wildcard is a star or a name in braces, a path matches a pattern segment by segment, and
  a pattern is the more specific the more of its segments are fixed.
\<close>

definition wildcard :: "string \<Rightarrow> bool" where
  "wildcard seg \<longleftrightarrow> seg = ''*'' \<or> (\<exists>name. name \<noteq> '''' \<and> CHR ''}'' \<notin> set name \<and> seg = ''{'' @ name @ ''}'')"

definition pattern_matches :: "string \<Rightarrow> string \<Rightarrow> bool" where
  "pattern_matches path pattern \<longleftrightarrow>
     list_all2 (\<lambda>seg pat. wildcard pat \<or> seg = pat) (split_on CHR ''/'' path) (split_on CHR ''/'' pattern)"

definition fixed_count :: "string \<Rightarrow> nat" where
  "fixed_count pattern = length (filter (\<lambda>seg. \<not> wildcard seg) (split_on CHR ''/'' pattern))"

definition pattern_result :: "template \<Rightarrow> match_result" where
  "pattern_result t =
     \<lparr>MatchTemplate = t, Score = calculateScore (split_on CHR ''/'' (CollectionPattern t))\<rparr>"

lemma varPattern_iff: "varPattern seg \<longleftrightarrow> (\<exists>name. name \<noteq> '''' \<and> CHR ''}'' \<notin> set name \<and> seg = ''{'' @ name @ ''}'')"
proof
  assume "varPattern seg"
  then obtain cs where "seg = CHR ''{'' # cs" "cs \<noteq> []" "last cs = CHR ''}''" "butlast cs \<noteq> []" "CHR ''}'' \<notin> set (butlast cs)"
    by (auto simp: varPattern_def split: list.splits)
  then show "\<exists>name. name \<noteq> '''' \<and> CHR ''}'' \<notin> set name \<and> seg = ''{'' @ name @ ''}''"
    by (intro exI [of _ "butlast cs"]) (metis append_Cons append_Nil append_butlast_last_id)
next
  assume "\<exists>name. name \<noteq> '''' \<and> CHR ''}'' \<notin> set name \<and> seg = ''{'' @ name @ ''}''"
  then show "varPattern seg" by (auto simp: varPattern_def)
qed

lemma wildcard_iff: "wildcard seg \<longleftrightarrow> varPattern seg \<or> seg = ''*''"
  by (auto simp: wildcard_def varPattern_iff)

lemma pattern_matches_var:
  "pattern_matches path pattern \<longleftrightarrow>
     list_all2 (\<lambda>seg pat. varPattern pat \<or> pat = ''*'' \<or> seg = pat)
       (split_on CHR ''/'' path) (split_on CHR ''/'' pattern)"
  by (simp add: pattern_matches_def wildcard_iff disj_assoc)

lemma pattern_result_fixed:
  "pattern_matches path (CollectionPattern t) \<Longrightarrow> pattern_result t = \<lparr>MatchTemplate = t,
     Score = \<lparr>FixedSegments = fixed_count (CollectionPattern t), TotalSegments = length (split_on CHR ''/'' path)\<rparr>\<rparr>"
  by (auto simp: pattern_result_def calculateScore_def fixed_count_def wildcard_iff pattern_matches_def dest: list_all2_lengthD)

lemma segmentsMatch_iff:
  "length path = length pattern \<and> segmentsMatch path pattern \<longleftrightarrow>
     list_all2 (\<lambda>seg pat. varPattern pat \<or> pat = ''*'' \<or> seg = pat) path pattern"
  by (auto simp: segmentsMatch_def list_all2_conv_all_nth list_all_iff)

lemma MatchTemplates_alt:
  "MatchTemplates path templates =
     sort_slice (\<lambda>a b. ScoreLess (Score b) (Score a))
       (map pattern_result (filter (\<lambda>t. pattern_matches path (CollectionPattern t)) templates))"
  by (simp add: MatchTemplates_def pattern_result_def [abs_def] Let_def segmentsMatch_iff pattern_matches_var)

interpretation priority: weak_order "\<lambda>a b. ScoreLess (Score b) (Score a)"
  by unfold_locales (auto simp: ScoreLess_def split: if_splits)

lemma ScoreEqual_iff: "ScoreEqual s t \<longleftrightarrow> \<not> ScoreLess s t \<and> \<not> ScoreLess t s"
  by (auto simp: ScoreEqual_def ScoreLess_def)

lemma ScoreLess_trans:
  "\<not> ScoreLess a b \<Longrightarrow> \<not> ScoreLess b c \<Longrightarrow> \<not> ScoreLess a c"
  "ScoreLess a b \<Longrightarrow> \<not> ScoreLess b a"
  by (auto simp: ScoreLess_def split: if_splits)

lemma takeWhile_equal:
  "sorted_wrt (\<lambda>a b. \<not> ScoreLess (Score a) (Score b)) (r # rs) \<Longrightarrow>
     set (takeWhile (\<lambda>x. ScoreEqual (Score x) (Score r)) rs) = {x \<in> set rs. ScoreEqual (Score x) (Score r)}"
proof (induction rs)
  case (Cons y ys)
  show ?case
  proof (cases "ScoreEqual (Score y) (Score r)")
    case False
    have "\<not> ScoreEqual (Score z) (Score r)" if "z \<in> set ys" for z
      using False Cons.prems that ScoreLess_trans(1) [of "Score y" "Score z" "Score r"]
      by (auto simp: ScoreEqual_iff)
    then show ?thesis using False by auto
  qed (use Cons in auto)
qed simp

lemma best_of_sorted:
  assumes "sorted_wrt (\<lambda>a b. \<not> ScoreLess (Score a) (Score b)) xs"
  shows "set (SelectBestTemplates xs) = {x \<in> set xs. \<forall>y \<in> set xs. \<not> ScoreLess (Score x) (Score y)}"
proof (cases xs)
  case (Cons r rs)
  have top: "\<not> ScoreLess (Score r) (Score x)" if "x \<in> set xs" for x
    using assms that ScoreLess_trans(2) [of "Score r" "Score r"] unfolding Cons by auto
  have "ScoreEqual (Score x) (Score r) \<longleftrightarrow> (\<forall>y \<in> set xs. \<not> ScoreLess (Score x) (Score y))"
    if "x \<in> set xs" for x
    using top that ScoreLess_trans(1) [of "Score x" "Score r"] by (auto simp: ScoreEqual_iff Cons)
  moreover have "ScoreEqual (Score r) (Score r)" by (simp add: ScoreEqual_def)
  ultimately show ?thesis
    using takeWhile_equal [of r rs] assms by (auto simp: SelectBestTemplates_def Cons)
qed (simp add: SelectBestTemplates_def)

lemma split_NormalizePattern:
  "split_on CHR ''/'' (NormalizePattern p) =
     map (\<lambda>seg. if varPattern seg then ''*'' else seg) (split_on CHR ''/'' p)"
  unfolding NormalizePattern_def
  by (rule split_on_join) (auto simp: split_on_no_sep)

lemma varPattern_star [simp]: "\<not> varPattern ''*''"
  by (simp add: varPattern_def)

lemma pattern_matches_normal: "pattern_matches path (NormalizePattern p) = pattern_matches path p"
  by (simp add: pattern_matches_var split_NormalizePattern list_all2_map2)
    (rule arg_cong [where f = "\<lambda>P. list_all2 P _ _"], auto simp: fun_eq_iff)

lemma calculateScore_normal:
  "calculateScore (split_on CHR ''/'' (NormalizePattern p)) = calculateScore (split_on CHR ''/'' p)"
proof -
  have "length (filter (\<lambda>seg. \<not> varPattern seg \<and> seg \<noteq> ''*'') (map (\<lambda>seg. if varPattern seg then ''*'' else seg) xs)) =
    length (filter (\<lambda>seg. \<not> varPattern seg \<and> seg \<noteq> ''*'') xs)" for xs
    by (induction xs) auto
  then show ?thesis by (simp add: calculateScore_def split_NormalizePattern)
qed

section \<open>Properties\<close>

text \<open>
  C23: \<open>ValidateTemplate\<close> accepts exactly the templates whose pattern is non-empty with no empty
  segment, that have a field, whose field names are admitted and pairwise different, whose scalar
  dimensions name a direction, and that have at most one membership dimension, ascending and not on a
  metadata field.
\<close>

theorem ValidateTemplate_accepts:
  "ValidateTemplate t = Inr () \<longleftrightarrow>
     CollectionPattern t \<noteq> '''' \<and> '''' \<notin> set (split_on CHR ''/'' (CollectionPattern t)) \<and>
     Fields t \<noteq> [] \<and> list_all valid_dimension (Fields t) \<and> distinct (map FieldName (Fields t)) \<and>
     memberships (Fields t) \<le> 1"
  by (auto simp: ValidateTemplate_def validate_fields_iff)

text \<open>
  C22: the best templates of a collection path are exactly the matching ones with the most fixed segments, where
  a template matches when its pattern has as many segments as the path and each is a star, a name in braces, or
  equal to the path's segment; each comes with the number of its fixed segments and of all segments.
\<close>

theorem SelectBestTemplates_highest:
  "set (SelectBestTemplates (MatchTemplates path templates)) =
     {\<lparr>MatchTemplate = t, Score = \<lparr>FixedSegments = fixed_count (CollectionPattern t),
         TotalSegments = length (split_on CHR ''/'' path)\<rparr>\<rparr> | t.
       t \<in> set templates \<and> pattern_matches path (CollectionPattern t) \<and>
       (\<forall>u \<in> set templates. pattern_matches path (CollectionPattern u) \<longrightarrow>
          fixed_count (CollectionPattern u) \<le> fixed_count (CollectionPattern t))}"
proof -
  let ?m = "map pattern_result (filter (\<lambda>t. pattern_matches path (CollectionPattern t)) templates)"
  let ?P = "\<lambda>t. pattern_matches path (CollectionPattern t)"
  have s: "mset (MatchTemplates path templates) = mset ?m"
    "sorted_wrt (\<lambda>a b. \<not> ScoreLess (Score a) (Score b)) (MatchTemplates path templates)"
    using priority.sort_slice_correct [of ?m] unfolding MatchTemplates_alt by blast+
  have less: "ScoreLess (Score (pattern_result t)) (Score (pattern_result u)) \<longleftrightarrow>
      fixed_count (CollectionPattern t) < fixed_count (CollectionPattern u)" if "?P t" "?P u" for t u
    using pattern_result_fixed [OF that(1)] pattern_result_fixed [OF that(2)] by (simp add: ScoreLess_def)
  have "set (SelectBestTemplates (MatchTemplates path templates)) =
      {pattern_result t | t. t \<in> set templates \<and> ?P t \<and>
        (\<forall>u \<in> set templates. ?P u \<longrightarrow> \<not> ScoreLess (Score (pattern_result t)) (Score (pattern_result u)))}"
    unfolding best_of_sorted [OF s(2)] mset_eq_setD [OF s(1)] by auto
  also have "\<dots> = {pattern_result t | t. t \<in> set templates \<and> ?P t \<and>
      (\<forall>u \<in> set templates. ?P u \<longrightarrow> fixed_count (CollectionPattern u) \<le> fixed_count (CollectionPattern t))}"
    using less by (intro Collect_cong ex_cong1 conj_cong refl ball_cong imp_cong) (simp add: not_less)
  also have "\<dots> = {\<lparr>MatchTemplate = t, Score = \<lparr>FixedSegments = fixed_count (CollectionPattern t),
         TotalSegments = length (split_on CHR ''/'' path)\<rparr>\<rparr> | t.
       t \<in> set templates \<and> ?P t \<and>
       (\<forall>u \<in> set templates. ?P u \<longrightarrow> fixed_count (CollectionPattern u) \<le> fixed_count (CollectionPattern t))}"
    using pattern_result_fixed [of path] by (intro Collect_cong ex_cong1) auto
  finally show ?thesis .
qed

text \<open>
  C24: templates whose patterns normalise alike, which differ at most in how they write their wildcards, by a star
  or by any variable name, are interchangeable for matching: \<open>MatchTemplates\<close> finds one of them for a collection
  path if and only if it finds the other, with the same score.
\<close>

theorem NormalizedPattern_decides:
  assumes "NormalizedPattern t = NormalizedPattern u"
  shows "MatchTemplates path [u] = map (\<lambda>r. r\<lparr>MatchTemplate := u\<rparr>) (MatchTemplates path [t])"
  using assms pattern_matches_normal [of path "CollectionPattern t"]
    pattern_matches_normal [of path "CollectionPattern u"]
    calculateScore_normal [of "CollectionPattern t"] calculateScore_normal [of "CollectionPattern u"]
  by (simp add: NormalizedPattern_def pattern_result_def MatchTemplates_alt sort_slice_def)

definition sample_template :: template where
  "sample_template = \<lparr>Name = ''by-age'', CollectionPattern = ''users/{uid}/posts'',
     Fields = [\<lparr>FieldName = ''age'', FieldOrder = ''desc'', FieldMode = ''''\<rparr>], IncludeDeleted = False\<rparr>"

theorem SelectBestTemplates_highest_witness:
  "set (SelectBestTemplates (MatchTemplates ''users/u1/posts''
     [sample_template\<lparr>CollectionPattern := ''users/*/*''\<rparr>, sample_template])) =
     {\<lparr>MatchTemplate = sample_template, Score = \<lparr>FixedSegments = 2, TotalSegments = 3\<rparr>\<rparr>}"
proof -
  have p: "CollectionPattern sample_template = ''users/{uid}/posts''" by (simp add: sample_template_def)
  have m: "pattern_matches ''users/u1/posts'' ''users/{uid}/posts''" "pattern_matches ''users/u1/posts'' ''users/*/*''"
    by (simp_all add: pattern_matches_var varPattern_def)
  have f: "fixed_count ''users/{uid}/posts'' = 2" "fixed_count ''users/*/*'' = 1" "length (split_on CHR ''/'' ''users/u1/posts'') = 3"
    by (simp_all add: fixed_count_def wildcard_iff varPattern_def)
  show ?thesis
    using SelectBestTemplates_highest [of "''users/u1/posts''" "[sample_template\<lparr>CollectionPattern := ''users/*/*''\<rparr>, sample_template]"]
    by (auto simp: p m f)
qed

theorem NormalizedPattern_decides_witness:
  "MatchTemplates ''users/u1/posts'' [sample_template\<lparr>CollectionPattern := ''users/*/posts''\<rparr>] =
     [\<lparr>MatchTemplate = sample_template\<lparr>CollectionPattern := ''users/*/posts''\<rparr>,
       Score = \<lparr>FixedSegments = 2, TotalSegments = 3\<rparr>\<rparr>]"
proof -
  have "NormalizedPattern sample_template = NormalizedPattern (sample_template\<lparr>CollectionPattern := ''users/*/posts''\<rparr>)"
    by (simp add: sample_template_def NormalizedPattern_def NormalizePattern_def varPattern_def)
  moreover have "MatchTemplates ''users/u1/posts'' [sample_template] =
      [\<lparr>MatchTemplate = sample_template, Score = \<lparr>FixedSegments = 2, TotalSegments = 3\<rparr>\<rparr>]"
    by (simp add: MatchTemplates_def segmentsMatch_def calculateScore_def sample_template_def varPattern_def sort_slice_def upt_rec)
  ultimately show ?thesis
    using NormalizedPattern_decides [of sample_template "sample_template\<lparr>CollectionPattern := ''users/*/posts''\<rparr>"
        "''users/u1/posts''"] by simp
qed

end
