(* ===== verification/Stores.thy ===== *)
theory Stores
  imports Prelude
begin

text \<open>
  The contract types of the index store (\<^verbatim>\<open>internal/indexer/store/store.go\<close>): index references,
  projections, generations and bootstrap catalogs, with the checks every backend runs before it
  publishes them.
\<close>

section \<open>Data\<close>

record query_index_ref =
  RefDatabase :: string
  RefCollection :: string
  TemplateFingerprint :: string
  RefGeneration :: string

record projection =
  Index :: query_index_ref
  DocumentID :: string
  PostingKeys :: "bytes list"

record read_budget =
  MaxOverlayReplacements :: int
  MaxOverlayBytes :: int
  MaxExamined :: int

record generation =
  GenID :: string
  Ready :: bool
  BootstrapProgress :: string
  Failure :: string

record bootstrap_catalog =
  CatDatabase :: string
  CatGeneration :: string
  TemplateFingerprints :: "string list"
  CatProgress :: string

text \<open>In the search options a nil slice is \<open>None\<close>: no bound, and no cursor.\<close>

record search_options =
  Lower :: "bytes option"
  Upper :: "bytes option"
  StartAfter :: "bytes option"
  Limit :: int

record doc_ref =
  RefID :: string
  OrderKey :: bytes

text \<open>\<^verbatim>\<open>IndexState\<close> is a Go string.\<close>

datatype index_state = IndexStateHealthy | IndexStateRebuilding | IndexStateFailed | OtherState string

record index_info =
  InfoPattern :: string
  InfoTemplateID :: string
  InfoRawPattern :: string
  InfoState :: index_state
  InfoDocCount :: nat

datatype store_error =
  NegativeReadBudget | IncompleteCatalog | EmptyFingerprint | EmptyInventory | MixedCatalogs
| DuplicateDatabase string | NoTemplates | IncompleteProjection | DuplicateProjection string
| EmptyPostingKey string | IncompleteGeneration | IncompleteFailure | PluralPublicationRequired
| GenerationMismatch | ErrWorkLimit | ViewClosed | DatabaseNotFound | ContextDone

section \<open>Checks\<close>

definition NormalizeReadBudget :: "read_budget \<Rightarrow> store_error + read_budget" where
  "NormalizeReadBudget budget =
     (if MaxOverlayReplacements budget < 0 \<or> MaxOverlayBytes budget < 0 \<or> MaxExamined budget < 0
      then Inl NegativeReadBudget
      else
        let b1 = (if MaxOverlayReplacements budget = 0 then budget\<lparr>MaxOverlayReplacements := 10000\<rparr> else budget);
            b2 = (if MaxOverlayBytes b1 = 0 then b1\<lparr>MaxOverlayBytes := 16 * 2 ^ 20\<rparr> else b1);
            b3 = (if MaxExamined b2 = 0 then b2\<lparr>MaxExamined := 100000\<rparr> else b2)
        in Inr b3)"

text \<open>\<^verbatim>\<open>slices.Compact\<close>: drop elements equal to their predecessor.\<close>

fun compact :: "'a list \<Rightarrow> 'a list" where
  "compact (x # y # ys) = (if x = y then compact (y # ys) else x # compact (y # ys))"
| "compact xs = xs"

definition OwnBootstrapCatalog :: "bootstrap_catalog \<Rightarrow> store_error + bootstrap_catalog" where
  "OwnBootstrapCatalog catalog =
     (if CatDatabase catalog = '''' \<or> CatGeneration catalog = '''' then Inl IncompleteCatalog
      else if '''' \<in> set (TemplateFingerprints catalog) then Inl EmptyFingerprint
      else Inr (catalog\<lparr>TemplateFingerprints := compact (sort (TemplateFingerprints catalog))\<rparr>))"

fun own_catalogs ::
  "string \<Rightarrow> string \<Rightarrow> string list \<Rightarrow> bootstrap_catalog list \<Rightarrow> store_error + bootstrap_catalog list" where
  "own_catalogs gen progress databases [] = Inr []"
| "own_catalogs gen progress databases (catalog # catalogs) =
     bind_result (OwnBootstrapCatalog catalog) (\<lambda>owned.
       if CatGeneration catalog \<noteq> gen \<or> CatProgress catalog \<noteq> progress then Inl MixedCatalogs
       else if CatDatabase catalog \<in> set databases then Inl (DuplicateDatabase (CatDatabase catalog))
       else bind_result (own_catalogs gen progress (CatDatabase catalog # databases) catalogs)
         (\<lambda>rest. Inr (owned # rest)))"

definition OwnBootstrapCatalogs ::
  "bootstrap_catalog list \<Rightarrow> string \<Rightarrow> store_error + bootstrap_catalog list" where
  "OwnBootstrapCatalogs catalogs progress =
     (case catalogs of [] \<Rightarrow> Inl EmptyInventory
      | first # _ \<Rightarrow>
          bind_result (own_catalogs (CatGeneration first) progress [] catalogs) (\<lambda>owned.
            if list_all (\<lambda>c. TemplateFingerprints c = []) catalogs then Inl NoTemplates else Inr owned))"

text \<open>\<^verbatim>\<open>ResolveGeneration\<close>; the two existence flags are options.\<close>

definition ResolveGeneration ::
  "bootstrap_catalog option \<Rightarrow> string \<Rightarrow> generation option \<Rightarrow> generation option" where
  "ResolveGeneration catalog fingerprint local =
     (case catalog of None \<Rightarrow> local
      | Some c \<Rightarrow>
          if fingerprint \<notin> set (TemplateFingerprints c) then None
          else
            let gen = \<lparr>GenID = CatGeneration c, Ready = True, BootstrapProgress = CatProgress c, Failure = ''''\<rparr>
            in (case local of
                 Some l \<Rightarrow> if GenID l = CatGeneration c \<and> Failure l \<noteq> ''''
                   then Some (gen\<lparr>Ready := False, Failure := Failure l\<rparr>) else Some gen
               | None \<Rightarrow> Some gen))"

definition complete_ref :: "query_index_ref \<Rightarrow> bool" where
  "complete_ref ref \<longleftrightarrow>
     RefDatabase ref \<noteq> '''' \<and> RefCollection ref \<noteq> '''' \<and> TemplateFingerprint ref \<noteq> '''' \<and> RefGeneration ref \<noteq> ''''"

fun own_keys :: "string \<Rightarrow> bytes list \<Rightarrow> bytes list \<Rightarrow> store_error + bytes list" where
  "own_keys docID seen [] = Inr []"
| "own_keys docID seen (key # keys) =
     (if key = [] then Inl (EmptyPostingKey docID)
      else if key \<in> set seen then own_keys docID seen keys
      else bind_result (own_keys docID (key # seen) keys) (\<lambda>rest. Inr (key # rest)))"

fun own_projections ::
  "(query_index_ref \<times> string) list \<Rightarrow> projection list \<Rightarrow> store_error + projection list" where
  "own_projections seen [] = Inr []"
| "own_projections seen (p # ps) =
     (if \<not> complete_ref (Index p) \<or> DocumentID p = '''' then Inl IncompleteProjection
      else if (Index p, DocumentID p) \<in> set seen then Inl (DuplicateProjection (DocumentID p))
      else bind_result (own_keys (DocumentID p) [] (PostingKeys p)) (\<lambda>keys.
        bind_result (own_projections ((Index p, DocumentID p) # seen) ps) (\<lambda>rest.
          Inr (p\<lparr>PostingKeys := keys\<rparr> # rest))))"

definition OwnProjections :: "projection list \<Rightarrow> store_error + projection list" where
  "OwnProjections replacements = own_projections [] replacements"

section \<open>What the checks establish\<close>

lemma own_keys_Inr:
  "own_keys d seen keys = Inr ks \<Longrightarrow>
     set ks = set keys - set seen \<and> distinct ks \<and> [] \<notin> set keys"
proof (induction keys arbitrary: seen ks)
  case (Cons key keys)
  have ne: "key \<noteq> []" using Cons.prems by (auto split: if_splits)
  show ?case
  proof (cases "key \<in> set seen")
    case True
    then have "own_keys d seen keys = Inr ks" using Cons.prems ne by simp
    from Cons.IH [OF this] show ?thesis using True ne by auto
  next
    case False
    then obtain rest where r: "own_keys d (key # seen) keys = Inr rest" "ks = key # rest"
      using Cons.prems ne by (auto simp: result_simps)
    from Cons.IH [OF r(1)] show ?thesis using False ne r(2) by auto
  qed
qed simp

definition owned_projection :: "projection \<Rightarrow> bool" where
  "owned_projection p \<longleftrightarrow>
     complete_ref (Index p) \<and> DocumentID p \<noteq> '''' \<and> distinct (PostingKeys p) \<and> [] \<notin> set (PostingKeys p)"

lemma own_projections_Inr:
  "own_projections seen ps = Inr qs \<Longrightarrow>
     list_all owned_projection qs \<and>
     map (\<lambda>p. (Index p, DocumentID p, set (PostingKeys p))) qs =
     map (\<lambda>p. (Index p, DocumentID p, set (PostingKeys p))) ps \<and>
     distinct (map (\<lambda>p. (Index p, DocumentID p)) qs) \<and>
     set (map (\<lambda>p. (Index p, DocumentID p)) qs) \<inter> set seen = {}"
proof (induction seen ps arbitrary: qs rule: own_projections.induct)
  case (2 seen p ps)
  then obtain keys rest where k: "own_keys (DocumentID p) [] (PostingKeys p) = Inr keys"
    "own_projections ((Index p, DocumentID p) # seen) ps = Inr rest"
    "qs = p\<lparr>PostingKeys := keys\<rparr> # rest" "complete_ref (Index p)" "DocumentID p \<noteq> ''''"
    "(Index p, DocumentID p) \<notin> set seen"
    by (auto simp: result_simps split: if_splits)
  have IH: "list_all owned_projection rest \<and>
      map (\<lambda>p. (Index p, DocumentID p, set (PostingKeys p))) rest =
      map (\<lambda>p. (Index p, DocumentID p, set (PostingKeys p))) ps \<and>
      distinct (map (\<lambda>p. (Index p, DocumentID p)) rest) \<and>
      set (map (\<lambda>p. (Index p, DocumentID p)) rest) \<inter> set ((Index p, DocumentID p) # seen) = {}"
    using "2.IH" k(2,4-6) by blast
  have "owned_projection (p\<lparr>PostingKeys := keys\<rparr>)" "set keys = set (PostingKeys p)"
    using own_keys_Inr [OF k(1)] k(4,5) by (simp_all add: owned_projection_def)
  then show ?case using IH k(3,6) by simp
qed simp

lemma compact_set [simp]: "set (compact xs) = set xs"
  by (induction xs rule: compact.induct) auto

lemma compact_sorted: "sorted xs \<Longrightarrow> sorted (compact xs) \<and> distinct (compact xs)"
proof (induction xs rule: compact.induct)
  case (1 x y ys)
  have "x \<notin> set (compact (y # ys))" if "x \<noteq> y"
  proof -
    have "x < y" "\<forall>z \<in> set ys. y \<le> z" using 1 that by auto
    then show ?thesis unfolding compact_set by auto
  qed
  moreover have "\<forall>z \<in> set (compact (y # ys)). x \<le> z" unfolding compact_set using "1.prems" by auto
  moreover have "sorted (compact (y # ys)) \<and> distinct (compact (y # ys))"
    using 1 by (cases "x = y") simp_all
  ultimately show ?case by simp
qed auto

end
