(* ===== verification/Candidates.thy ===== *)
theory Candidates
  imports Templates Stores
begin

text \<open>
  The candidate planner (\<^verbatim>\<open>internal/indexer/manager/candidates.go\<close>): how a conjunction of filters over
  an index template becomes a set of key ranges, how positions and posting keys are rebuilt from each
  other, and how a template is chosen for a plan.  The main result is that the ranges lose nothing: an
  index key whose values satisfy the filters lies in one of them.
\<close>

unbundle bit_operations_syntax

section \<open>Plans\<close>

text \<open>\<^verbatim>\<open>FilterOp\<close> of the manager is a Go string.\<close>

datatype plan_op =
  FilterNe | FilterIn | FilterContains | FilterEq | FilterGt | FilterLt | FilterGte | FilterLte
| OtherFilter string

record plan_filter =
  PField :: string
  POp :: plan_op
  PValue :: any

record plan_order =
  OrdField :: string
  OrdDirection :: int

record plan =
  PlanCollection :: string
  PlanFilters :: "plan_filter list"
  OrderBy :: "plan_order list"
  PlanLimit :: int
  PlanStartAfter :: string
  PlanShowDeleted :: bool
  AfterPosition :: bytes
  PlanFingerprint :: string
  PlanGeneration :: string
  PlanBranchHash :: string
  PlanMaxExamined :: int

datatype plan_error =
  ErrInvalidPlan | ErrNoMatchingIndex | ErrStaleCursor | ErrIndexNotReady
| InvalidFilters filter_error | PlanFilterError filter_error | PlanEncodingError order_error
| PlanStoreError store_error | InconsistentIdentity | InvalidCursor

definition MaxCandidateBranches :: nat where
  "MaxCandidateBranches = 128"

definition MaxCandidatePositionBytes :: nat where
  "MaxCandidatePositionBytes = 4096"

record candidate_group =
  GroupID :: string
  Position :: bytes
  GroupBranches :: "nat list"

record candidate_branch =
  Prefix :: bytes
  FixedFields :: nat
  BranchLower :: bytes
  BranchUpper :: "bytes option"

record predicate_assignment =
  Predicate :: nat
  Access :: bool
  Residual :: bool

record candidate_metadata =
  MetaTemplate :: template
  MetaFingerprint :: string
  MetaGeneration :: string
  BranchHash :: string
  EffectiveOrder :: "plan_order list"
  Branches :: "candidate_branch list"
  Assignments :: "predicate_assignment list"

section \<open>Key ranges\<close>

definition PrefixSuccessor :: "bytes \<Rightarrow> bytes option" where
  "PrefixSuccessor pfx =
     (case dropWhile (\<lambda>b. b = 0xFF) (rev pfx) of [] \<Rightarrow> None | b # bs \<Rightarrow> Some (rev ((b + 1) # bs)))"

text \<open>\<^verbatim>\<open>keyInterval\<close>: an inclusive lower and an exclusive upper bound, nil when there is none.\<close>

type_synonym key_interval = "bytes \<times> bytes option"

definition intersect_pair :: "key_interval \<Rightarrow> key_interval \<Rightarrow> key_interval list" where
  "intersect_pair a b =
     (let lo = (if bytes_compare (fst b) (fst a) > 0 then fst b else fst a);
          hi = (case snd a of None \<Rightarrow> snd b
                | Some h \<Rightarrow> (case snd b of Some h' \<Rightarrow> if bytes_compare h' h < 0 then Some h' else Some h
                             | None \<Rightarrow> Some h))
      in if (case hi of None \<Rightarrow> True | Some h \<Rightarrow> bytes_compare lo h < 0) then [(lo, hi)] else [])"

definition intersectIntervals :: "key_interval list \<Rightarrow> key_interval list \<Rightarrow> key_interval list" where
  "intersectIntervals left right = concat (map (\<lambda>a. concat (map (intersect_pair a) right)) left)"

definition fieldDirection :: "template_field \<Rightarrow> int" where
  "fieldDirection f = (if FieldOrder f = TemplateDesc then Desc else Asc)"

definition fieldBytes :: "any \<Rightarrow> int \<Rightarrow> order_error + bytes" where
  "fieldBytes value dir =
     bind_result (EncodePrefix [\<lparr>FieldValue = value, FieldDirection = dir, FieldMissing = False\<rparr>])
       (\<lambda>key. Inr (tl key))"

definition missing_bytes :: "int \<Rightarrow> bytes" where
  "missing_bytes dir =
     (case EncodePrefix [\<lparr>FieldValue = NilValue, FieldDirection = dir, FieldMissing = True\<rparr>] of
        Inr key \<Rightarrow> tl key | Inl _ \<Rightarrow> [])"

fun flip_op :: "filter_op \<Rightarrow> filter_op" where
  "flip_op OpGt = OpLt"
| "flip_op OpGte = OpLte"
| "flip_op OpLt = OpGt"
| "flip_op OpLte = OpGte"
| "flip_op op = op"

definition in_intervals :: "bytes \<Rightarrow> int \<Rightarrow> any list \<Rightarrow> order_error + key_interval list" where
  "in_intervals pfx dir vs =
     map_result (\<lambda>v. bind_result (fieldBytes v dir) (\<lambda>part.
       Inr (pfx @ part, PrefixSuccessor (pfx @ part)))) vs"

definition filterIntervals :: "bytes \<Rightarrow> int \<Rightarrow> filter \<Rightarrow> plan_error + key_interval list" where
  "filterIntervals pfx dir f =
     (if Op f = OpIn
      then (case FilterValue f of
          Slice vs \<Rightarrow> (case in_intervals pfx dir vs of
              Inl e \<Rightarrow> Inl (PlanEncodingError e) | Inr out \<Rightarrow> Inr out)
        | _ \<Rightarrow> Inl (PlanFilterError (TypeAssertionPanic (Field f))))
      else case fieldBytes (FilterValue f) dir of Inl e \<Rightarrow> Inl (PlanEncodingError e)
      | Inr point \<Rightarrow>
          let p = pfx @ point; nxt = PrefixSuccessor p; whole_upper = PrefixSuccessor pfx in
          if Op f = OpEq then Inr [(p, nxt)]
          else if Op f = OpNe
          then
            let missingPoint = pfx @ missing_bytes dir;
                present = (if dir = Asc
                  then ((case PrefixSuccessor missingPoint of Some s \<Rightarrow> s | None \<Rightarrow> []), whole_upper)
                  else (pfx, Some missingPoint))
            in Inr (intersectIntervals [present]
                 [(pfx, Some p), ((case nxt of Some n \<Rightarrow> n | None \<Rightarrow> []), whole_upper)])
          else (case ScalarKey (FilterValue f) of Inl e \<Rightarrow> Inl (PlanEncodingError (ErrUnsupportedType e))
            | Inr raw \<Rightarrow>
                let tag = hd raw;
                    family = (if dir = Asc then (pfx @ [tag], Some (pfx @ [tag + 1]))
                      else (pfx @ [NOT tag], Some (pfx @ [NOT tag + 1])));
                    op = (if dir = Desc then flip_op (Op f) else Op f)
                in case op of
                     OpGt \<Rightarrow> (case nxt of None \<Rightarrow> Inr []
                       | Some n \<Rightarrow> Inr (intersectIntervals [family] [(n, whole_upper)]))
                   | OpGte \<Rightarrow> Inr (intersectIntervals [family] [(p, whole_upper)])
                   | OpLt \<Rightarrow> Inr (intersectIntervals [family] [(pfx, Some p)])
                   | OpLte \<Rightarrow> Inr (intersectIntervals [family] [(pfx, nxt)])
                   | _ \<Rightarrow> Inl ErrInvalidPlan))"

section \<open>Ranges and prefixes\<close>

lemma compare_sign:
  "bytes_compare a b < 0 \<longleftrightarrow> a < b" "bytes_compare a b > 0 \<longleftrightarrow> b < a"
  "bytes_compare a b \<le> 0 \<longleftrightarrow> a \<le> b" "bytes_compare a b \<ge> 0 \<longleftrightarrow> b \<le> a"
  by (auto simp: bytes_compare_def)

definition within :: "bytes \<Rightarrow> key_interval \<Rightarrow> bool" where
  "within k iv \<longleftrightarrow> fst iv \<le> k \<and> (case snd iv of None \<Rightarrow> True | Some hi \<Rightarrow> k < hi)"

definition within_any :: "bytes \<Rightarrow> key_interval list \<Rightarrow> bool" where
  "within_any k ivs \<longleftrightarrow> (\<exists>iv \<in> set ivs. within k iv)"

lemma within_any_simps [simp]:
  "\<not> within_any k []" "within_any k (iv # ivs) \<longleftrightarrow> within k iv \<or> within_any k ivs"
  by (auto simp: within_any_def)

lemma within_intersect_pair: "within_any k (intersect_pair a b) \<longleftrightarrow> within k a \<and> within k b"
  by (cases "snd a"; cases "snd b")
    (auto simp: intersect_pair_def within_def compare_sign not_less Let_def)

lemma within_intersect: "within_any k (intersectIntervals l r) \<longleftrightarrow> within_any k l \<and> within_any k r"
proof -
  have "within_any k (concat xss) \<longleftrightarrow> (\<exists>xs \<in> set xss. within_any k xs)" for xss
    by (auto simp: within_any_def)
  then show ?thesis
    by (auto simp: intersectIntervals_def within_intersect_pair) (auto simp: within_any_def)
qed

text \<open>The successor of a prefix bounds exactly the keys that extend it.\<close>

lemma PrefixSuccessor_some: "pfx \<noteq> [] \<Longrightarrow> hd pfx \<noteq> 0xFF \<Longrightarrow> \<exists>s. PrefixSuccessor pfx = Some s"
  by (cases "dropWhile (\<lambda>b. b = 0xFF) (rev pfx)")
    (auto simp: PrefixSuccessor_def hd_in_set)

lemma byte_max: "(0xFF :: byte) = - 1"
  by simp

lemma byte_succ:
  assumes "(b :: byte) \<noteq> 0xFF"
  shows "unat (b + 1) = unat b + 1"
proof -
  have "1 + b \<noteq> 0" using assms unfolding byte_max by (metis add.commute eq_neg_iff_add_eq_0)
  then show ?thesis by (metis Suc_eq_plus1 add.commute unatSuc)
qed

lemma append_between:
  "q @ x \<le> k \<Longrightarrow> k < q @ y \<Longrightarrow> \<exists>k'. k = q @ k' \<and> x \<le> k' \<and> k' < (y :: bytes)"
proof (induction q arbitrary: k)
  case (Cons c q)
  then show ?case by (cases k) (auto split: if_splits)
qed simp

lemma max_le_prefix: "replicate n (0xFF :: byte) \<le> t \<Longrightarrow> \<exists>r. t = replicate n 0xFF @ r"
proof (induction n arbitrary: t)
  case (Suc n)
  have "\<not> (0xFF :: byte) < c" for c unfolding byte_max by simp
  with Suc show ?case by (cases t) auto
qed simp

lemma trailing_max:
  obtains (all) n where "pfx = replicate n (0xFF :: byte)"
    | (some) q b n where "pfx = q @ b # replicate n 0xFF" "b \<noteq> 0xFF"
proof (induction pfx arbitrary: thesis rule: rev_induct)
  case Nil
  then show ?case by (metis replicate_0)
next
  case (snoc x xs)
  show ?case
  proof (cases "x = 0xFF")
    case False
    then show ?thesis using snoc.prems(2) [of xs x 0] by simp
  next
    case True
    have r: "replicate n (0xFF :: byte) @ [0xFF] = replicate (Suc n) 0xFF" for n
      by (simp add: replicate_append_same)
    show ?thesis
    proof (rule snoc.IH)
      fix n
      assume "xs = replicate n 0xFF"
      then show ?thesis using snoc.prems(1) [of "Suc n"] True r by simp
    next
      fix q b n
      assume "xs = q @ b # replicate n 0xFF" "b \<noteq> 0xFF"
      then show ?thesis using snoc.prems(2) [of q b "Suc n"] True r by simp
    qed
  qed
qed

lemma dropWhile_replicate: "dropWhile (\<lambda>b. b = x) (replicate n x @ ys) = dropWhile (\<lambda>b. b = x) ys"
  by (induction n) auto

lemma PrefixSuccessor_shape:
  assumes "PrefixSuccessor pfx = Some s"
  obtains q b n where "pfx = q @ b # replicate n 0xFF" "b \<noteq> 0xFF" "s = q @ [b + 1]"
proof (cases rule: trailing_max [of pfx])
  case (all n)
  then show thesis using assms dropWhile_replicate [of "0xFF" n "[]"] by (simp add: PrefixSuccessor_def)
next
  case (some q b n)
  then show thesis
    using assms that by (simp add: PrefixSuccessor_def dropWhile_replicate)
qed

lemma PrefixSuccessor_range:
  assumes "PrefixSuccessor pfx = Some s"
  shows "pfx \<le> k \<and> k < s \<longleftrightarrow> (\<exists>r. k = pfx @ r)"
proof -
  obtain q b n where p: "pfx = q @ b # replicate n 0xFF" "b \<noteq> 0xFF" "s = q @ [b + 1]"
    using PrefixSuccessor_shape [OF assms] by blast
  have b: "c < b + 1 \<longleftrightarrow> c \<le> b" for c
    using byte_succ [OF p(2)] by (simp add: word_less_nat_alt word_le_nat_alt less_Suc_eq_le)
  show ?thesis
  proof
    assume k: "pfx \<le> k \<and> k < s"
    then have "q @ b # replicate n 0xFF \<le> k" "k < q @ [b + 1]" by (simp_all add: p)
    then obtain k' where k': "k = q @ k'" "b # replicate n 0xFF \<le> k'" "k' < [b + 1]"
      using append_between by blast
    obtain c t where c: "k' = c # t" using k'(2) by (cases k') simp_all
    have "c \<le> b" using k'(3) b [of c] by (simp add: c)
    moreover have "b < c \<or> b = c \<and> replicate n 0xFF \<le> t" using k'(2) by (simp add: c)
    ultimately have cb: "c = b" "replicate n 0xFF \<le> t" by auto
    obtain r where "t = replicate n 0xFF @ r" using max_le_prefix cb(2) by blast
    then have "k = pfx @ r" by (simp add: k'(1) c p(1) cb(1))
    then show "\<exists>r. k = pfx @ r" ..
  next
    assume "\<exists>r. k = pfx @ r"
    then obtain r where r: "k = pfx @ r" by blast
    have "k < s" using b [of b] by (simp add: r p lex_append_same)
    then show "pfx \<le> k \<and> k < s" using r lex_prefix_le by simp
  qed
qed

section \<open>A key against the bounds of one field\<close>

definition key_prefix :: "bytes \<Rightarrow> bool" where
  "key_prefix pfx \<longleftrightarrow> pfx \<noteq> [] \<and> hd pfx = Version"

definition value_field :: "any \<Rightarrow> int \<Rightarrow> order_field" where
  "value_field v dir = \<lparr>FieldValue = v, FieldDirection = dir, FieldMissing = False\<rparr>"

definition missing_field :: "int \<Rightarrow> order_field" where
  "missing_field dir = \<lparr>FieldValue = NilValue, FieldDirection = dir, FieldMissing = True\<rparr>"

lemma key_prefix_successor:
  assumes "key_prefix pfx"
  obtains s where "PrefixSuccessor (pfx @ x) = Some s"
  using PrefixSuccessor_some [of "pfx @ x"] assms by (auto simp: key_prefix_def Version_def)

lemma fieldBytes_code:
  "fieldBytes v dir = Inr part \<Longrightarrow> part = field_code (value_field v dir) \<and> encodable (value_field v dir)"
  by (auto simp: fieldBytes_def EncodePrefix_def value_field_def encodable_def field_code_def result_simps
      split: sum.splits)

lemma missing_bytes_code:
  assumes "dir = Asc \<or> dir = Desc"
  shows "missing_bytes dir = field_code (missing_field dir)" and "encodable (missing_field dir)"
  using assms
  by (auto simp: missing_bytes_def missing_field_def EncodePrefix_def encodable_def field_code_def
      encodeField_def field_raw_def)

lemma key_below_point:
  assumes alike: "alike_fields g w"
  shows "pfx @ field_code g @ rest < pfx @ field_code w \<longleftrightarrow> field_compare g w < 0"
  using fields.code_append_compare [OF alike, of rest "[]"]
  by (simp add: compare_sign(1) [symmetric]) (simp add: bytes_compare_def)

lemma key_extends_point:
  assumes alike: "alike_fields g w"
  shows "(\<exists>r. pfx @ field_code g @ rest = (pfx @ field_code w) @ r) \<longleftrightarrow> field_compare g w = 0"
proof
  assume "field_compare g w = 0"
  then have "field_code g = field_code w"
    using fields.code_compare [OF alike] by (simp add: bytes_compare_def split: if_splits)
  then show "\<exists>r. pfx @ field_code g @ rest = (pfx @ field_code w) @ r" by simp
next
  assume "\<exists>r. pfx @ field_code g @ rest = (pfx @ field_code w) @ r"
  then obtain r where "field_code g @ rest = field_code w @ r" by auto
  then have "\<not> field_code g \<parallel> field_code w" by (metis parallel_append prefix_order.order_refl parallelE prefix_def)
  then have "field_code g = field_code w" using fields.code_parallel [OF alike] by blast
  then show "field_compare g w = 0" using fields.code_compare [OF alike] by (simp add: bytes_compare_def)
qed

lemma key_below_next:
  assumes alike: "alike_fields g w" and s: "PrefixSuccessor (pfx @ field_code w) = Some n"
  shows "pfx @ field_code g @ rest < n \<longleftrightarrow> field_compare g w \<le> 0"
proof -
  have "pfx @ field_code w \<le> pfx @ field_code g @ rest \<longleftrightarrow> \<not> field_compare g w < 0"
    using key_below_point [OF alike, of pfx rest] by (metis not_less)
  moreover have "pfx @ field_code g @ rest < n" if "field_compare g w < 0"
  proof -
    have "pfx @ field_code w < n" using PrefixSuccessor_range [OF s, of "pfx @ field_code w"] by auto
    then show ?thesis using key_below_point [OF alike, of pfx rest] that by (metis less_trans)
  qed
  ultimately show ?thesis
    using PrefixSuccessor_range [OF s, of "pfx @ field_code g @ rest"] key_extends_point [OF alike, of pfx rest] by auto
qed

section \<open>The ranges of a filter\<close>

text \<open>What a filter asks of the value a key has for its field; a missing value satisfies nothing.\<close>

definition slot_holds :: "filter \<Rightarrow> any option \<Rightarrow> bool" where
  "slot_holds f slot \<longleftrightarrow> (case slot of None \<Rightarrow> False | Some v \<Rightarrow> op_holds (Op f) v (FilterValue f))"

lemma encodable_slot:
  assumes "encodable g"
  shows "field_slot g = Some v \<Longrightarrow> normal_value v \<and> is_scalar v"
    and "FieldDirection g = Asc \<or> FieldDirection g = Desc"
proof -
  obtain raw where "field_raw g = Inr raw" "FieldDirection g = Asc \<or> FieldDirection g = Desc"
    using encodableE [OF assms] by blast
  then show "field_slot g = Some v \<Longrightarrow> normal_value v \<and> is_scalar v"
    "FieldDirection g = Asc \<or> FieldDirection g = Desc"
    using field_raw_slot(2) by blast+
qed

lemma value_field_slot: "normal_value w \<Longrightarrow> is_scalar w \<Longrightarrow> field_slot (value_field w dir) = Some w"
  by (simp add: field_slot_def value_field_def)

lemma missing_field_slot: "field_slot (missing_field dir) = None"
  by (simp add: field_slot_def missing_field_def)

lemma alike_value:
  "encodable g \<Longrightarrow> fieldBytes w (FieldDirection g) = Inr part \<Longrightarrow> alike_fields g (value_field w (FieldDirection g))"
  using fieldBytes_code by (simp add: alike_fields_def) (simp add: value_field_def)

text \<open>The sign of the comparison with a present value.\<close>

lemma compare_value:
  assumes "normal_value w" and "is_scalar w"
  shows "field_compare g (value_field w dir) =
    (if FieldDirection g = Desc then - slot_compare (field_slot g) (Some w) else slot_compare (field_slot g) (Some w))"
  by (simp add: field_compare_def value_field_slot [OF assms] Let_def)

lemma within_point:
  assumes "key_prefix pfx" and "alike_fields g w"
  shows "within (pfx @ field_code g @ rest) (pfx @ field_code w, PrefixSuccessor (pfx @ field_code w)) \<longleftrightarrow>
    field_compare g w = 0"
proof -
  obtain s where s: "PrefixSuccessor (pfx @ field_code w) = Some s" by (rule key_prefix_successor [OF assms(1)])
  show ?thesis
    using PrefixSuccessor_range [OF s, of "pfx @ field_code g @ rest"] key_extends_point [OF assms(2), of pfx rest]
    by (simp add: within_def s)
qed

lemma within_whole:
  assumes "key_prefix pfx"
  shows "within (pfx @ x) (pfx, PrefixSuccessor pfx)" 
proof -
  obtain s where s: "PrefixSuccessor pfx = Some s" using key_prefix_successor [OF assms, of "[]"] by auto
  then show ?thesis using PrefixSuccessor_range [OF s, of "pfx @ x"] by (auto simp: within_def)
qed

definition slot_tag :: "any option \<Rightarrow> byte" where
  "slot_tag slot = (case slot of None \<Rightarrow> TypeMissing | Some v \<Rightarrow> scalar_tag v)"

lemma field_code_head:
  assumes "encodable g"
  obtains t where "field_code g = (if FieldDirection g = Desc then NOT (slot_tag (field_slot g)) else slot_tag (field_slot g)) # t"
proof -
  obtain raw where raw: "field_raw g = Inr raw"
    "field_code g = (if FieldDirection g = Desc then map NOT (escape raw) else escape raw)"
    using encodableE [OF assms] by blast
  obtain t where "raw = slot_tag (field_slot g) # t"
    using field_raw_slot(1,2) [OF raw(1)] scalar_bytes_tag
    by (cases "field_slot g") (auto simp: slot_tag_def)
  moreover have "slot_tag (field_slot g) \<noteq> 0"
    using scalar_tag_range [of "the (field_slot g)"]
    by (cases "field_slot g") (auto simp: slot_tag_def TypeMissing_def)
  ultimately have "field_code g = (if FieldDirection g = Desc then NOT (slot_tag (field_slot g))
      else slot_tag (field_slot g)) # (if FieldDirection g = Desc then map NOT (escape t) else escape t)"
    using raw(2) by simp
  then show ?thesis by (rule that)
qed

lemma byte_between: "t \<noteq> 0xFF \<Longrightarrow> [t] \<le> x # xs \<and> x # xs < [t + 1] \<longleftrightarrow> x = (t :: byte)"
  using byte_succ [of t] by (auto simp: word_less_nat_alt word_le_nat_alt unsigned_word_eqI)

lemma family_tag:
  assumes "isRangeValue w" and scalar: "\<And>v. slot = Some v \<Longrightarrow> normal_value v \<and> is_scalar v"
  shows "slot_tag slot = scalar_tag w \<longleftrightarrow> (\<exists>v. slot = Some v \<and> sameRangeFamily v w)"
proof (cases slot)
  case None
  then show ?thesis using scalar_tag_range [of w] by (auto simp: slot_tag_def TypeMissing_def)
next
  case (Some v)
  then have v: "normal_value v" "is_scalar v" using scalar by auto
  then show ?thesis using assms(1) Some by (cases rule: normal_scalarE [OF v]; cases w) (auto simp: slot_tag_def)
qed

lemma family_byte: "(if dir = Desc then NOT x else x) = (if dir = Desc then NOT y else y) \<longleftrightarrow> x = (y :: byte)"
  by (metis bit.double_compl)

lemma within_family:
  fixes w :: any and dir :: int
  defines "b \<equiv> if dir = Desc then NOT (scalar_tag w) else scalar_tag w"
  assumes g: "encodable g" "FieldDirection g = dir" and w: "isRangeValue w"
  shows "within (pfx @ field_code g @ rest) (pfx @ [b], Some (pfx @ [b + 1])) \<longleftrightarrow>
    (\<exists>v. field_slot g = Some v \<and> sameRangeFamily v w)"
proof -
  obtain t where t: "field_code g = (if dir = Desc then NOT (slot_tag (field_slot g)) else slot_tag (field_slot g)) # t"
    using field_code_head [OF g(1)] g(2) by metis
  have "scalar_tag w = 0x40 \<or> scalar_tag w = 0x50" using w by (cases w) auto
  then have "b \<noteq> 0xFF" by (auto simp: b_def)
  then have "within (pfx @ field_code g @ rest) (pfx @ [b], Some (pfx @ [b + 1])) \<longleftrightarrow>
      (if dir = Desc then NOT (slot_tag (field_slot g)) else slot_tag (field_slot g)) = b"
    using byte_between [of b _ "t @ rest"] by (simp only: within_def t) simp
  also have "\<dots> \<longleftrightarrow> slot_tag (field_slot g) = scalar_tag w"
    unfolding b_def by (rule family_byte)
  also have "\<dots> \<longleftrightarrow> (\<exists>v. field_slot g = Some v \<and> sameRangeFamily v w)"
    by (rule family_tag [OF w encodable_slot(1) [OF g(1)]])
  finally show ?thesis .
qed

text \<open>The half lines around the point of an operand.\<close>

lemma within_half:
  assumes p: "key_prefix pfx" and alike: "alike_fields g w"
    and n: "PrefixSuccessor (pfx @ field_code w) = Some n"
  shows "within (pfx @ field_code g @ rest) (pfx, Some (pfx @ field_code w)) \<longleftrightarrow> field_compare g w < 0"
    and "within (pfx @ field_code g @ rest) (pfx, Some n) \<longleftrightarrow> field_compare g w \<le> 0"
    and "within (pfx @ field_code g @ rest) (pfx @ field_code w, PrefixSuccessor pfx) \<longleftrightarrow> field_compare g w \<ge> 0"
    and "within (pfx @ field_code g @ rest) (n, PrefixSuccessor pfx) \<longleftrightarrow> field_compare g w > 0"
  using within_whole [OF p, of "field_code g @ rest"] key_below_point [OF alike, of pfx rest]
    key_below_next [OF alike n, of rest]
  by (auto simp: within_def simp flip: not_less)

lemma value_sign:
  assumes g: "encodable g" and w: "normal_value w" "is_scalar w"
  shows "field_compare g (value_field w (FieldDirection g)) = 0 \<longleftrightarrow> (\<exists>v. field_slot g = Some v \<and> same_scalar v w)"
    and "field_slot g = Some v \<Longrightarrow> field_compare g (value_field w (FieldDirection g)) =
      (if FieldDirection g = Desc then - scalar_compare v w else scalar_compare v w)"
  using encodable_slot(1) [OF g] w
  by (cases "field_slot g"; simp add: compare_value same_scalar_def)+

lemma missing_sign:
  assumes "encodable g"
  shows "FieldDirection g = Asc \<Longrightarrow> field_compare g (missing_field (FieldDirection g)) > 0 \<longleftrightarrow> field_slot g \<noteq> None"
    and "FieldDirection g = Desc \<Longrightarrow> field_compare g (missing_field (FieldDirection g)) < 0 \<longleftrightarrow> field_slot g \<noteq> None"
  by (cases "field_slot g"; simp add: field_compare_def missing_field_slot Let_def Asc_def Desc_def)+

lemma alike_missing: "encodable g \<Longrightarrow> alike_fields g (missing_field (FieldDirection g))"
  using missing_bytes_code(2) encodable_slot(2) by (simp add: alike_fields_def) (simp add: missing_field_def)

lemma in_intervals_exact:
  assumes p: "key_prefix pfx" and g: "encodable g"
  shows "in_intervals pfx (FieldDirection g) vs = Inr ivs \<Longrightarrow> list_all normal_value vs \<Longrightarrow> list_all is_scalar vs \<Longrightarrow>
    within_any (pfx @ field_code g @ rest) ivs \<longleftrightarrow> (\<exists>v. field_slot g = Some v \<and> list_ex (same_scalar v) vs)"
proof (induction vs arbitrary: ivs)
  case Nil
  then show ?case by (simp add: in_intervals_def)
next
  case (Cons w vs)
  then obtain part rest' where part: "fieldBytes w (FieldDirection g) = Inr part"
    and rest': "in_intervals pfx (FieldDirection g) vs = Inr rest'"
    and ivs: "ivs = (pfx @ part, PrefixSuccessor (pfx @ part)) # rest'"
    by (auto simp: in_intervals_def bind_result_def split: sum.splits)
  have w: "normal_value w" "is_scalar w" using Cons.prems by auto
  have "within (pfx @ field_code g @ rest) (pfx @ part, PrefixSuccessor (pfx @ part)) \<longleftrightarrow>
      (\<exists>v. field_slot g = Some v \<and> same_scalar v w)"
    using within_point [OF p alike_value [OF g part]] fieldBytes_code [OF part] value_sign(1) [OF g w] by simp
  then show ?case using Cons.IH [OF rest'] Cons.prems ivs by auto
qed

lemma ne_exact:
  assumes p: "key_prefix pfx" and g: "encodable g" and w: "normal_value w" "is_scalar w"
    and part: "fieldBytes w (FieldDirection g) = Inr part" and n: "PrefixSuccessor (pfx @ part) = Some n"
  shows "within_any (pfx @ field_code g @ rest)
      (intersectIntervals
        [if FieldDirection g = Asc
         then ((case PrefixSuccessor (pfx @ missing_bytes (FieldDirection g)) of Some s \<Rightarrow> s | None \<Rightarrow> []), PrefixSuccessor pfx)
         else (pfx, Some (pfx @ missing_bytes (FieldDirection g)))]
        [(pfx, Some (pfx @ part)), (n, PrefixSuccessor pfx)]) \<longleftrightarrow>
    (\<exists>v. field_slot g = Some v \<and> \<not> same_scalar v w)"
proof -
  let ?key = "pfx @ field_code g @ rest" and ?m = "missing_field (FieldDirection g)"
  have m: "missing_bytes (FieldDirection g) = field_code ?m" using missing_bytes_code(1) encodable_slot(2) [OF g] .
  obtain s where s: "PrefixSuccessor (pfx @ field_code ?m) = Some s" by (rule key_prefix_successor [OF p])
  note part_code = fieldBytes_code [OF part, THEN conjunct1]
  note half = within_half [OF p alike_missing [OF g] s, of rest]
    within_half [OF p alike_value [OF g part] n [unfolded part_code], of rest]
  have present: "within ?key (if FieldDirection g = Asc
      then ((case PrefixSuccessor (pfx @ missing_bytes (FieldDirection g)) of Some s \<Rightarrow> s | None \<Rightarrow> []), PrefixSuccessor pfx)
      else (pfx, Some (pfx @ missing_bytes (FieldDirection g)))) \<longleftrightarrow> field_slot g \<noteq> None"
    using encodable_slot(2) [OF g] missing_sign [OF g] half(1,4)
    by (simp only: m s option.case) (cases "FieldDirection g = Asc"; simp add: Asc_def Desc_def)
  have "within_any ?key [(pfx, Some (pfx @ part)), (n, PrefixSuccessor pfx)] \<longleftrightarrow>
      field_compare g (value_field w (FieldDirection g)) \<noteq> 0"
    using half(5,8) by (auto simp: part_code)
  then show ?thesis using present value_sign(1) [OF g w] by (auto simp: within_intersect)
qed

text \<open>The range operators: the family of the operand met with a half line, flipped when descending.\<close>

lemma flip_op_sign:
  assumes "Op f \<in> range_ops" and "dir = Asc \<or> dir = Desc"
  shows "op_holds (Op f) v w \<longleftrightarrow> sameRangeFamily v w \<and>
    (let c = (if dir = Desc then - scalar_compare v w else scalar_compare v w) in
     case (if dir = Desc then flip_op (Op f) else Op f) of
       OpGt \<Rightarrow> c > 0 | OpGte \<Rightarrow> c \<ge> 0 | OpLt \<Rightarrow> c < 0 | OpLte \<Rightarrow> c \<le> 0 | _ \<Rightarrow> False)"
  using assms by (auto simp: range_ops_def Let_def)

lemma range_exact:
  assumes p: "key_prefix pfx" and g: "encodable g" and f: "normal_filter f" "Op f \<in> range_ops"
    and ivs: "filterIntervals pfx (FieldDirection g) f = Inr ivs"
  shows "within_any (pfx @ field_code g @ rest) ivs \<longleftrightarrow> slot_holds f (field_slot g)"
proof -
  let ?w = "FilterValue f" and ?d = "FieldDirection g" and ?key = "pfx @ field_code g @ rest"
  define op where "op = (if ?d = Desc then flip_op (Op f) else Op f)"
  define b where "b = (if ?d = Desc then NOT (scalar_tag ?w) else scalar_tag ?w)"
  have w: "normal_value ?w" "isRangeValue ?w" using f by (auto simp: normal_filter_def normal_operand_def range_ops_def)
  note scalar = isRangeValue_scalar [OF w(2)]
  have ops: "Op f \<noteq> OpIn" "Op f \<noteq> OpEq" "Op f \<noteq> OpNe" using f(2) by (auto simp: range_ops_def)
  obtain part where part: "fieldBytes ?w ?d = Inr part"
    using ivs ops by (auto simp: filterIntervals_def split: sum.splits)
  note code = fieldBytes_code [OF part, THEN conjunct1]
  obtain n where n: "PrefixSuccessor (pfx @ part) = Some n" by (rule key_prefix_successor [OF p])
  have raw: "ScalarKey ?w = Inr (scalar_bytes ?w)" "hd (scalar_bytes ?w) = scalar_tag ?w"
    using w(1) scalar scalar_bytes_tag [OF w(1) scalar] by (auto simp: ScalarKey_alt)
  have op: "op \<in> range_ops" using f(2) by (auto simp: op_def range_ops_def)
  have ivs': "ivs = intersectIntervals [(pfx @ [b], Some (pfx @ [b + 1]))]
      [case op of OpGt \<Rightarrow> (n, PrefixSuccessor pfx) | OpGte \<Rightarrow> (pfx @ part, PrefixSuccessor pfx)
       | OpLt \<Rightarrow> (pfx, Some (pfx @ part)) | _ \<Rightarrow> (pfx, Some n)]"
    using encodable_slot(2) [OF g] f(2) ivs part unfolding range_ops_def insert_iff empty_iff
    by (elim disjE; simp add: filterIntervals_def n raw Let_def op_def b_def Asc_def Desc_def)
  note half = within_half [OF p alike_value [OF g part] n [unfolded code], of rest]
  have "within_any ?key ivs \<longleftrightarrow> (\<exists>v. field_slot g = Some v \<and> sameRangeFamily v ?w) \<and>
      (let c = field_compare g (value_field ?w ?d) in
       case op of OpGt \<Rightarrow> c > 0 | OpGte \<Rightarrow> c \<ge> 0 | OpLt \<Rightarrow> c < 0 | OpLte \<Rightarrow> c \<le> 0 | _ \<Rightarrow> False)"
    unfolding ivs' within_intersect using op half within_family [OF g refl w(2), of pfx rest]
    by (auto simp: b_def [symmetric] code Let_def range_ops_def)
  also have "\<dots> \<longleftrightarrow> slot_holds f (field_slot g)"
    using flip_op_sign [OF f(2) encodable_slot(2) [OF g], of _ ?w] value_sign(2) [OF g w(1) scalar]
    by (cases "field_slot g") (simp_all add: slot_holds_def op_def [symmetric])
  finally show ?thesis .
qed

lemma filter_ranges:
  assumes p: "key_prefix pfx" and g: "encodable g" and f: "normal_filter f" "Op f \<noteq> OpContains"
    and ivs: "filterIntervals pfx (FieldDirection g) f = Inr ivs"
  shows "within_any (pfx @ field_code g @ rest) ivs \<longleftrightarrow> slot_holds f (field_slot g)"
proof -
  let ?w = "FilterValue f" and ?d = "FieldDirection g"
  consider (range) "Op f \<in> range_ops" | (isin) "Op f = OpIn" | (point) "Op f = OpEq \<or> Op f = OpNe"
    using f by (cases "Op f") (auto simp: normal_filter_def normal_operand_def range_ops_def)
  then show ?thesis
  proof cases
    case range
    then show ?thesis using range_exact [OF p g f(1) _ ivs] by blast
  next
    case isin
    then obtain vs where vs: "?w = Slice vs" "list_all is_scalar vs" "list_all normal_value vs"
      using f by (cases ?w) (auto simp: normal_filter_def normal_operand_def)
    then have "in_intervals pfx ?d vs = Inr ivs"
      using ivs isin by (auto simp: filterIntervals_def split: sum.splits)
    from in_intervals_exact [OF p g this vs(3,2)] show ?thesis
      by (cases "field_slot g") (simp_all add: slot_holds_def isin vs(1))
  next
    case point
    then have w: "normal_value ?w" "is_scalar ?w" using f by (auto simp: normal_filter_def normal_operand_def range_ops_def)
    obtain part where part: "fieldBytes ?w ?d = Inr part"
      using ivs point by (auto simp: filterIntervals_def split: sum.splits)
    obtain n where n: "PrefixSuccessor (pfx @ part) = Some n" by (rule key_prefix_successor [OF p])
    show ?thesis
    proof (cases "Op f = OpEq")
      case True
      then have "ivs = [(pfx @ part, PrefixSuccessor (pfx @ part))]" using ivs by (simp add: filterIntervals_def part Let_def)
      then show ?thesis
        using within_point [OF p alike_value [OF g part], of rest] fieldBytes_code [OF part] value_sign(1) [OF g w] True
        by (auto simp: slot_holds_def split: option.splits)
    next
      case False
      then show ?thesis using ivs point ne_exact [OF p g w part n, of rest]
        by (auto simp: filterIntervals_def part n Let_def slot_holds_def split: option.splits)
    qed
  qed
qed

text \<open>
  C17: The key ranges of a filter are exact.  Whatever the direction of the index field, an index key lies
  in the ranges \<open>filterIntervals\<close> computes for a normalized filter if and only if the value the key holds
  for the field satisfies the filter, a missing value satisfying none.
\<close>

theorem filterIntervals_exact:
  assumes "key_prefix pfx" and "encodable g" and "normal_filter f" and "Op f \<noteq> OpContains"
    and "filterIntervals pfx (FieldDirection g) f = Inr ivs"
  shows "within_any (pfx @ field_code g @ rest) ivs \<longleftrightarrow> slot_holds f (field_slot g)"
  by (rule filter_ranges [OF assms])

theorem filterIntervals_exact_witness:
  "\<exists>ivs. filterIntervals [Version] Desc \<lparr>Field = ''age'', Op = OpGt, FilterValue = Str ''a''\<rparr> = Inr ivs \<and>
     within_any ([Version] @ field_code (value_field (Str ''b'') Desc)) ivs \<and>
     \<not> within_any ([Version] @ field_code (missing_field Desc)) ivs"
proof -
  let ?f = "\<lparr>Field = ''age'', Op = OpGt, FilterValue = Str ''a''\<rparr>"
  have code: "bytes_of ''a'' = [0x61]" "bytes_of ''b'' = [0x62]" by (simp_all add: bytes_of_def)
  have enc: "encodable (value_field (Str ''b'') Desc)" "encodable (missing_field Desc)"
    using missing_bytes_code(2) by (simp_all add: encodable_def encodeField_def field_raw_def value_field_def ScalarKey_def)
  have dir: "FieldDirection (value_field (Str ''b'') Desc) = Desc" "FieldDirection (missing_field Desc) = Desc"
    by (simp_all add: value_field_def missing_field_def)
  have "\<exists>ivs. filterIntervals [Version] Desc ?f = Inr ivs"
    by (simp add: filterIntervals_def fieldBytes_def EncodePrefix_def encodeField_def field_raw_def ScalarKey_def Let_def result_simps code)
  then obtain ivs where ivs: "filterIntervals [Version] Desc ?f = Inr ivs" by blast
  have f: "normal_filter ?f" "key_prefix [Version]"
    by (simp_all add: normal_filter_def normal_operand_def range_ops_def key_prefix_def code ValidateQueryField_def has_prefix_def)
  have at: "filterIntervals [Version] (FieldDirection (value_field (Str ''b'') Desc)) ?f = Inr ivs"
    "filterIntervals [Version] (FieldDirection (missing_field Desc)) ?f = Inr ivs"
    using ivs unfolding dir by simp_all
  show ?thesis
    using filterIntervals_exact [OF f(2) enc(1) f(1) _ at(1), of "[]"]
      filterIntervals_exact [OF f(2) enc(2) f(1) _ at(2), of "[]"] ivs
    by (simp add: slot_holds_def missing_field_slot value_field_slot code cmp_def less_char_def)
qed

end
