(* ===== verification/Planner.thy ===== *)
theory Planner
  imports Candidates
begin

text \<open>
  Planning of a candidate scan (\<^verbatim>\<open>compileCandidate\<close>, \<^verbatim>\<open>candidateFilters\<close>, the template choice of
  \<^verbatim>\<open>OpenCandidates\<close>, and the maps between posting keys and order positions in
  \<^verbatim>\<open>internal/indexer/manager/candidates.go\<close>).  The leading index fields that the filters fix to points
  are expanded into branches, the next field is bounded by the ranges of its filters, and the rest of the
  fields must realise the requested order.
\<close>

unbundle bit_operations_syntax

section \<open>Filters of a plan\<close>

fun candidate_op :: "plan_op \<Rightarrow> filter_op option" where
  "candidate_op FilterEq = Some OpEq"
| "candidate_op FilterNe = Some OpNe"
| "candidate_op FilterGt = Some OpGt"
| "candidate_op FilterGte = Some OpGte"
| "candidate_op FilterLt = Some OpLt"
| "candidate_op FilterLte = Some OpLte"
| "candidate_op FilterIn = Some OpIn"
| "candidate_op FilterContains = Some OpContains"
| "candidate_op (OtherFilter _) = None"

definition model_filter :: "plan_filter \<Rightarrow> plan_error + filter" where
  "model_filter f =
     (case candidate_op (POp f) of None \<Rightarrow> Inl ErrInvalidPlan
      | Some op \<Rightarrow> Inr \<lparr>Field = PField f, Op = op, FilterValue = PValue f\<rparr>)"

definition candidateFilters :: "plan_filter list \<Rightarrow> plan_error + filters" where
  "candidateFilters fs =
     bind_result (map_result model_filter fs) (\<lambda>out.
       case NormalizeFilters out of Inl e \<Rightarrow> Inl (InvalidFilters e)
       | Inr normalized \<Rightarrow>
           if list_ex (\<lambda>f. Op f = OpIn \<and> (case FilterValue f of Slice vs \<Rightarrow> length vs > 256 | _ \<Rightarrow> False)) normalized
           then Inl ErrInvalidPlan else Inr normalized)"

section \<open>Points of a field\<close>

text \<open>The filters a value must satisfy to stay a point of the field.\<close>

fun admit_value :: "filters \<Rightarrow> string \<Rightarrow> any \<Rightarrow> bool \<Rightarrow> plan_error + bool" where
  "admit_value [] name v matches = Inr matches"
| "admit_value (f # fs) name v matches =
     (if Field f = name
      then (case EvaluateFilter f (Some v) of Inl e \<Rightarrow> Inl (PlanFilterError e)
            | Inr ok \<Rightarrow> admit_value fs name v (matches \<and> ok))
      else admit_value fs name v matches)"

fun admit_points :: "filters \<Rightarrow> string \<Rightarrow> any list \<Rightarrow> plan_error + any list" where
  "admit_points filters name [] = Inr []"
| "admit_points filters name (v # vs) =
     bind_result (admit_value filters name v True) (\<lambda>matches.
       bind_result (admit_points filters name vs) (\<lambda>rest. Inr (if matches then v # rest else rest)))"

definition predicates_on :: "filters \<Rightarrow> (filter \<Rightarrow> bool) \<Rightarrow> nat list" where
  "predicates_on filters P = [i. i \<leftarrow> [0..<length filters], P (filters ! i)]"

text \<open>
  The points of one field with the predicates that produced them: \<open>None\<close> when an ordered field is not
  fixed by an equality or an \<^verbatim>\<open>in\<close>, which ends the expansion.
\<close>

definition field_points :: "filters \<Rightarrow> template_field \<Rightarrow> plan_error + (any list \<times> nat list) option" where
  "field_points filters field =
     (if FieldMode field = Membership
      then (case predicates_on filters (\<lambda>f. Field f = FieldName field \<and> Op f = OpContains) of
              [] \<Rightarrow> Inl ErrNoMatchingIndex
            | i # _ \<Rightarrow> Inr (Some ([FilterValue (filters ! i)], [i])))
      else (case predicates_on filters (\<lambda>f. Field f = FieldName field \<and> (Op f = OpEq \<or> Op f = OpIn)) of
              [] \<Rightarrow> Inr None
            | i # _ \<Rightarrow>
                bind_result
                  (if Op (filters ! i) = OpEq then Inr [FilterValue (filters ! i)]
                   else (case FilterValue (filters ! i) of Slice vs \<Rightarrow> Inr vs
                         | _ \<Rightarrow> Inl (PlanFilterError (TypeAssertionPanic (FieldName field)))))
                  (\<lambda>points. bind_result (admit_points filters (FieldName field) points) (\<lambda>admitted.
                     Inr (Some (admitted, predicates_on filters (\<lambda>f. Field f = FieldName field)))))))"

section \<open>Compilation\<close>

record compile_state =
  CompBranches :: "candidate_branch list"
  CompFixed :: nat
  CompAccess :: nat
  CompEmpty :: bool
  CompExceeded :: bool
  CompAssign :: "predicate_assignment list"

definition mark_access :: "nat list \<Rightarrow> predicate_assignment list \<Rightarrow> predicate_assignment list" where
  "mark_access is assignments = fold (\<lambda>i as. as[i := (as ! i)\<lparr>Access := True\<rparr>]) is assignments"

definition point_less :: "any \<Rightarrow> any \<Rightarrow> bool" where
  "point_less a b \<longleftrightarrow>
     bytes_compare (case ScalarKey a of Inl _ \<Rightarrow> [] | Inr k \<Rightarrow> k) (case ScalarKey b of Inl _ \<Rightarrow> [] | Inr k \<Rightarrow> k) < 0"

definition expand_branches ::
  "template_field \<Rightarrow> nat \<Rightarrow> candidate_branch list \<Rightarrow> any list \<Rightarrow> plan_error + candidate_branch list" where
  "expand_branches field fixed branches points =
     map_result (\<lambda>(branch, value).
         case fieldBytes value (fieldDirection field) of Inl e \<Rightarrow> Inl (PlanEncodingError e)
         | Inr part \<Rightarrow> Inr \<lparr>Prefix = Prefix branch @ part, FixedFields = fixed, BranchLower = [], BranchUpper = None\<rparr>)
       (List.product branches points)"

definition compile_field ::
  "filters \<Rightarrow> nat \<Rightarrow> template_field \<Rightarrow> compile_state \<Rightarrow> plan_error + compile_state option" where
  "compile_field filters index field st =
     bind_result (field_points filters field) (\<lambda>found.
       case found of None \<Rightarrow> Inr None
       | Some (points, marked) \<Rightarrow>
           let fixed = index + 1;
               pts = sort_slice point_less (if points = [] then [NilValue] else points);
               over = length (CompBranches st) * length pts > MaxCandidateBranches;
               bs = (if over then take 1 (CompBranches st) else CompBranches st);
               ps = (if over then take 1 pts else pts)
           in bind_result (expand_branches field fixed bs ps) (\<lambda>next.
                Inr (Some \<lparr>CompBranches = next, CompFixed = fixed, CompAccess = CompAccess st + length marked,
                  CompEmpty = (CompEmpty st \<or> points = []), CompExceeded = (CompExceeded st \<or> over),
                  CompAssign = mark_access marked (CompAssign st)\<rparr>)))"

fun compile_fields ::
  "filters \<Rightarrow> nat \<Rightarrow> template_field list \<Rightarrow> compile_state \<Rightarrow> plan_error + compile_state" where
  "compile_fields filters index [] st = Inr st"
| "compile_fields filters index (field # later) st =
     bind_result (compile_field filters index field st) (\<lambda>r.
       case r of None \<Rightarrow> Inr st | Some st' \<Rightarrow> compile_fields filters (Suc index) later st')"

definition initial_state :: "filters \<Rightarrow> compile_state" where
  "initial_state filters =
     \<lparr>CompBranches = [\<lparr>Prefix = [Version], FixedFields = 0, BranchLower = [], BranchUpper = None\<rparr>],
      CompFixed = 0, CompAccess = 0, CompEmpty = False, CompExceeded = False,
      CompAssign = map (\<lambda>i. \<lparr>Predicate = i, Access = False, Residual = True\<rparr>) [0..<length filters]\<rparr>"

text \<open>The order a scan returns: the requested one, or the index's own, with the document id last.\<close>

definition effective_order :: "template \<Rightarrow> plan_order list \<Rightarrow> plan_order list" where
  "effective_order t requested =
     (let base = (if requested = []
          then [\<lparr>OrdField = FieldName f, OrdDirection = fieldDirection f\<rparr>. f \<leftarrow> Fields t, FieldMode f \<noteq> Membership]
          else requested)
      in if list_ex (\<lambda>o'. OrdField o' = ''id'') base then base
         else base @ [\<lparr>OrdField = ''id'', OrdDirection = Asc\<rparr>])"

definition orderComponents :: "plan_order list \<Rightarrow> plan_order list" where
  "orderComponents order =
     (if order \<noteq> [] \<and> OrdField (List.last order) = ''id'' \<and> OrdDirection (List.last order) = Asc
      then butlast order else order)"

definition order_found :: "template \<Rightarrow> plan_order \<Rightarrow> bool" where
  "order_found t o' =
     (case List.find (\<lambda>tf. FieldName tf = OrdField o') (Fields t) of
        None \<Rightarrow> OrdField o' = ''id'' \<and> OrdDirection o' = Asc
      | Some tf \<Rightarrow> FieldMode tf \<noteq> Membership \<and> fieldDirection tf = OrdDirection o')"

definition remaining_fields :: "template \<Rightarrow> nat \<Rightarrow> template_field list" where
  "remaining_fields t fixed =
     (let remaining = drop fixed (Fields t)
      in if remaining \<noteq> [] \<and> FieldName (List.last remaining) = ''id'' \<and> fieldDirection (List.last remaining) = Asc
         then butlast remaining else remaining)"

definition variable_order :: "template \<Rightarrow> nat \<Rightarrow> plan_order list \<Rightarrow> plan_order list" where
  "variable_order t fixed order =
     filter (\<lambda>o'. OrdField o' \<notin> FieldName ` set (take fixed (Fields t))) (orderComponents order)"

definition order_served :: "template \<Rightarrow> nat \<Rightarrow> plan_order list \<Rightarrow> bool" where
  "order_served t fixed order \<longleftrightarrow>
     list_all (order_found t) (orderComponents order) \<and>
     map (\<lambda>o'. (OrdField o', OrdDirection o')) (variable_order t fixed order) =
     map (\<lambda>f. (FieldName f, fieldDirection f)) (remaining_fields t fixed)"

text \<open>The ranges of one branch: every filter on the first free field but \<^verbatim>\<open>contains\<close> narrows them.\<close>

fun bound_branch ::
  "bytes \<Rightarrow> template_field \<Rightarrow> nat \<Rightarrow> filters \<Rightarrow> key_interval list \<Rightarrow> plan_error + (key_interval list \<times> nat list)" where
  "bound_branch pfx field i [] intervals = Inr (intervals, [])"
| "bound_branch pfx field i (f # fs) intervals =
     (if Field f \<noteq> FieldName field \<or> Op f = OpContains then bound_branch pfx field (Suc i) fs intervals
      else bind_result (filterIntervals pfx (fieldDirection field) f) (\<lambda>constraint.
        bind_result (bound_branch pfx field (Suc i) fs (intersectIntervals intervals constraint)) (\<lambda>(ivs, marked).
          Inr (ivs, i # marked))))"

definition branch_intervals ::
  "template \<Rightarrow> nat \<Rightarrow> filters \<Rightarrow> candidate_branch \<Rightarrow> plan_error + (candidate_branch list \<times> nat list)" where
  "branch_intervals t fixed filters branch =
     bind_result
       (if fixed < length (Fields t)
        then bound_branch (Prefix branch) (Fields t ! fixed) 0 filters [(Prefix branch, PrefixSuccessor (Prefix branch))]
        else Inr ([(Prefix branch, PrefixSuccessor (Prefix branch))], []))
       (\<lambda>(ivs, marked). Inr (map (\<lambda>iv. branch\<lparr>BranchLower := fst iv, BranchUpper := snd iv\<rparr>) ivs, marked))"

definition branch_bytes :: "candidate_branch \<Rightarrow> nat" where
  "branch_bytes b = length (Prefix b) + length (BranchLower b) +
     (case BranchUpper b of None \<Rightarrow> 0 | Some u \<Rightarrow> length u)"

text \<open>
  \<^verbatim>\<open>compileCandidate\<close>.  \<open>digest\<close> is the hexadecimal SHA-256 of the JSON of the branches and the order, \<open>hash\<close>
  the same of a template's fingerprint payload.  JSON tells the nil slice of a plan that can match nothing
  (\<open>None\<close>) from an empty one.
\<close>

type_synonym digest = "candidate_branch list option \<Rightarrow> plan_order list \<Rightarrow> string"

definition compileCandidate ::
  "(fingerprint_payload \<Rightarrow> string) \<Rightarrow> digest \<Rightarrow> template \<Rightarrow> filters \<Rightarrow> plan_order list \<Rightarrow>
     plan_error + (candidate_metadata \<times> nat)" where
  "compileCandidate hash digest t filters requested =
     bind_result (compile_fields filters 0 (Fields t) (initial_state filters)) (\<lambda>st.
       let fixed = CompFixed st; order = effective_order t requested in
       if CompExceeded st \<and> \<not> CompEmpty st then Inl ErrInvalidPlan
       else if list_ex (\<lambda>f. FieldMode f = Membership) (drop fixed (Fields t)) then Inl ErrNoMatchingIndex
       else if \<not> order_served t fixed order then Inl ErrNoMatchingIndex
       else bind_result (map_result (branch_intervals t fixed filters) (CompBranches st)) (\<lambda>parts.
         let bounded = concat (map fst parts);
             marked = concat (map snd parts);
             access = CompAccess st + length marked
         in if access = 0 \<and> requested = [] then Inl ErrNoMatchingIndex
            else if length bounded > MaxCandidateBranches then Inl ErrInvalidPlan
            else
              let branches = (if CompEmpty st then [] else bounded)
              in if sum_list (map branch_bytes branches) > 2 ^ 20 then Inl ErrInvalidPlan
                 else Inr (\<lparr>MetaTemplate = t, MetaFingerprint = Fingerprint hash t, MetaGeneration = '''',
                   BranchHash = digest (if CompEmpty st then None else Some bounded) order, EffectiveOrder = order, Branches = branches,
                   Assignments = mark_access marked (CompAssign st)\<rparr>, access)))"

section \<open>Posting keys and positions\<close>

text \<open>A Go map filled from a list of pairs: a later entry replaces an earlier one.\<close>

definition fill_map :: "('k \<times> 'v) list \<Rightarrow> 'k \<Rightarrow> 'v option" where
  "fill_map kvs = map_of (rev kvs)"

fun concat_parts :: "(string \<Rightarrow> bytes option) \<Rightarrow> string list \<Rightarrow> bytes \<Rightarrow> plan_error + bytes" where
  "concat_parts values [] key = Inr key"
| "concat_parts values (name # names) key =
     (case values name of None \<Rightarrow> Inl ErrInvalidPlan | Some part \<Rightarrow> concat_parts values names (key @ part))"

definition PostingKey :: "candidate_metadata \<Rightarrow> candidate_group \<Rightarrow> int \<Rightarrow> plan_error + bytes" where
  "PostingKey m g branchID =
     (if branchID < 0 \<or> branchID \<ge> int (length (Branches m)) then Inl ErrInvalidPlan
      else case tupleParts (Position g) of Inl e \<Rightarrow> Inl (PlanEncodingError e)
      | Inr parts \<Rightarrow>
          let order = orderComponents (EffectiveOrder m) in
          if length parts \<noteq> length order + 1 then Inl (PlanEncodingError ErrInvalidOrderKey)
          else
            let filled = fill_map (zip (map OrdField order) parts);
                logicalID = List.last parts;
                values = (if filled ''id'' = None then filled(''id'' \<mapsto> logicalID) else filled);
                branch = Branches m ! nat branchID
            in bind_result (concat_parts values (map FieldName (drop (FixedFields branch) (Fields (MetaTemplate m)))) (Prefix branch))
                 (\<lambda>key. Inr (key @ logicalID)))"

definition position_part :: "candidate_metadata \<Rightarrow> bytes list \<Rightarrow> (string \<Rightarrow> bytes option) \<Rightarrow> plan_order \<Rightarrow> plan_error + bytes" where
  "position_part m parts values o' =
     (case values (OrdField o') of None \<Rightarrow> Inl ErrInvalidPlan
      | Some part \<Rightarrow>
          Inr (if OrdField o' = ''id'' \<and> OrdDirection o' = Desc
               then (case fill_map (zip (map FieldName (Fields (MetaTemplate m))) parts) ''id'' of
                       Some p \<Rightarrow> p | None \<Rightarrow> part)
               else part))"

definition position :: "candidate_metadata \<Rightarrow> bytes \<Rightarrow> plan_error + bytes" where
  "position m posting =
     (case tupleParts posting of Inl e \<Rightarrow> Inl (PlanEncodingError e)
      | Inr parts \<Rightarrow>
          if length parts \<noteq> length (Fields (MetaTemplate m)) + 1 then Inl (PlanEncodingError ErrInvalidOrderKey)
          else
            let values = (fill_map (zip (map FieldName (Fields (MetaTemplate m))) parts))(''id'' \<mapsto> List.last parts)
            in bind_result (map_result (position_part m parts values) (orderComponents (EffectiveOrder m))) (\<lambda>ps.
                 let out = [Version] @ concat ps @ List.last parts
                 in if length out > MaxCandidatePositionBytes then Inl (PlanStoreError ErrWorkLimit) else Inr out))"

text \<open>
  \<^verbatim>\<open>scanOptions\<close>: where a branch resumes after a position.  The walk stops at the first ordered field the
  branch fixes to a value that differs from the position's.
\<close>

fun seek_branch ::
  "(string \<Rightarrow> bytes option) \<Rightarrow> (plan_order \<times> bytes) list \<Rightarrow> bytes \<Rightarrow> (bytes option) option" where
  "seek_branch fixed [] seek = None"
| "seek_branch fixed ((o', part) # rest) seek =
     (case fixed (OrdField o') of
        Some value \<Rightarrow>
          let c = bytes_compare value part in
          if c = 0 then seek_branch fixed rest seek
          else Some (if c < 0 then PrefixSuccessor seek else Some seek)
      | None \<Rightarrow> seek_branch fixed rest (seek @ part))"

definition scanOptions :: "candidate_metadata \<Rightarrow> nat \<Rightarrow> bytes \<Rightarrow> plan_error + search_options" where
  "scanOptions m branchID after =
     (let branch = Branches m ! branchID;
          opts = \<lparr>Lower = (if BranchLower branch = [] then None else Some (BranchLower branch)),
                  Upper = BranchUpper branch, StartAfter = None, Limit = 0\<rparr>
      in if after = [] then Inr opts
         else case tupleParts after of Inl e \<Rightarrow> Inl (PlanEncodingError e)
         | Inr parts \<Rightarrow>
             let order = orderComponents (EffectiveOrder m) in
             if length parts \<noteq> length order + 1 then Inl (PlanEncodingError ErrInvalidOrderKey)
             else case tupleParts (Prefix branch) of Inl e \<Rightarrow> Inl (PlanEncodingError e)
             | Inr fixedParts \<Rightarrow>
                 (case seek_branch (fill_map (zip (map FieldName (Fields (MetaTemplate m))) fixedParts))
                         (zip order parts) (Prefix branch) of
                    Some None \<Rightarrow> Inr (opts\<lparr>Lower := BranchUpper branch\<rparr>)
                  | Some (Some seek) \<Rightarrow>
                      Inr (if bytes_compare seek (BranchLower branch) > 0 then opts\<lparr>Lower := Some seek\<rparr> else opts)
                  | None \<Rightarrow>
                      bind_result (PostingKey m \<lparr>GroupID = '''', Position = after, GroupBranches = []\<rparr> (int branchID))
                        (\<lambda>key. Inr (opts\<lparr>StartAfter := Some key\<rparr>))))"

section \<open>Points are exact\<close>

lemma same_scalar_congr:
  assumes "normal_value v" "is_scalar v" "normal_value p" "is_scalar p" "same_scalar v p"
    and f: "normal_filter f"
  shows "slot_holds f (Some v) \<longleftrightarrow> slot_holds f (Some p)"
proof -
  let ?w = "FilterValue f"
  have eq: "scalar_bytes v = scalar_bytes p" using assms same_scalar_bytes by blast
  then have tag: "scalar_tag v = scalar_tag p"
    using scalar_bytes_tag [OF assms(1,2)] scalar_bytes_tag [OF assms(3,4)] by auto
  have w: "normal_operand (Op f) ?w" "normal_value ?w" using f by (auto simp: normal_filter_def normal_operand_def)
  have point: "same_scalar v m \<longleftrightarrow> same_scalar p m" if "normal_value m" for m
    using that assms eq by (simp add: same_scalar_bytes)
  have family: "sameRangeFamily v ?w \<longleftrightarrow> sameRangeFamily p ?w" if "isRangeValue ?w"
    using family_tag [OF that, of "Some v"] family_tag [OF that, of "Some p"] assms tag by (simp add: slot_tag_def)
  have cmp: "scalar_compare v ?w = scalar_compare p ?w" if "isRangeValue ?w"
    using scalar_bytes_compare [of v ?w] scalar_bytes_compare [of p ?w] assms eq w(2) isRangeValue_scalar [OF that] by simp
  have scalar: "\<not> op_holds OpContains x ?w" if "is_scalar x" for x using that by (cases x) auto
  consider (range) "Op f \<in> range_ops" | (isin) us where "Op f = OpIn" "?w = Slice us"
    | (contains) "Op f = OpContains" | (point) "Op f = OpEq \<or> Op f = OpNe"
    using w(1) by (cases "Op f"; cases ?w) (auto simp: normal_operand_def range_ops_def)
  then show ?thesis
  proof cases
    case range
    then show ?thesis using family cmp w(1) by (auto simp: slot_holds_def normal_operand_def range_ops_def)
  next
    case isin
    then show ?thesis using list_ex_same_scalar w assms eq by (simp add: slot_holds_def normal_operand_def)
  next
    case contains
    then show ?thesis using scalar assms by (simp add: slot_holds_def)
  next
    case point
    then show ?thesis using \<open>\<And>m. normal_value m \<Longrightarrow> same_scalar v m \<longleftrightarrow> same_scalar p m\<close> w(2) by (auto simp: slot_holds_def)
  qed
qed

lemma EvaluateFilter_normal:
  assumes "normal_filter f" and "normal_value v"
  shows "EvaluateFilter f (Some v) = Inr (slot_holds f (Some v))"
proof -
  have "normal_value (FilterValue f)" using assms(1) by (simp add: normal_filter_def normal_operand_def)
  then show ?thesis
    using assms normalize_from_id [of "[f]" 0] evaluate_normal [OF assms(1), of "Some v"]
    by (simp add: EvaluateFilter_def NormalizeFilters_def filter_holds_def slot_holds_def)
qed

lemma admit_value_exact:
  "list_all normal_filter filters \<Longrightarrow> normal_value v \<Longrightarrow>
    admit_value filters name v m = Inr (m \<and> (\<forall>f \<in> set filters. Field f = name \<longrightarrow> slot_holds f (Some v)))"
  by (induction filters arbitrary: m) (auto simp: EvaluateFilter_normal)

lemma admit_points_exact:
  "list_all normal_filter filters \<Longrightarrow> list_all normal_value vs \<Longrightarrow>
    admit_points filters name vs =
      Inr (filter (\<lambda>v. \<forall>f \<in> set filters. Field f = name \<longrightarrow> slot_holds f (Some v)) vs)"
  by (induction vs) (simp_all add: admit_value_exact)

lemma predicates_on_filter: "predicates_on filters P = filter (\<lambda>i. P (filters ! i)) [0..<length filters]"
proof -
  have "concat (map (\<lambda>i. if Q i then [i] else []) xs) = filter Q xs" for Q and xs :: "nat list" by (induction xs) auto
  then show ?thesis by (simp add: predicates_on_def)
qed

lemma predicates_on_set: "set (predicates_on filters P) = {i. i < length filters \<and> P (filters ! i)}"
  by (auto simp: predicates_on_filter)

text \<open>What a fixed field asks of the value a key has for it.\<close>

definition field_admits :: "filters \<Rightarrow> template_field \<Rightarrow> any option \<Rightarrow> bool" where
  "field_admits filters field slot \<longleftrightarrow>
     (if FieldMode field = Membership
      then (case predicates_on filters (\<lambda>f. Field f = FieldName field \<and> Op f = OpContains) of
              [] \<Rightarrow> False
            | i # _ \<Rightarrow> (\<exists>v. slot = Some v \<and> same_scalar v (FilterValue (filters ! i))))
      else \<forall>f \<in> set filters. Field f = FieldName field \<longrightarrow> slot_holds f slot)"

lemma field_points_exact:
  assumes fs: "list_all normal_filter filters" and pts: "field_points filters field = Inr (Some (points, marked))"
    and slot: "\<And>v. slot = Some v \<Longrightarrow> normal_value v \<and> is_scalar v"
  shows "list_all normal_value points" and "list_all is_scalar points"
    and "(\<exists>p \<in> set points. \<exists>v. slot = Some v \<and> same_scalar v p) \<longleftrightarrow> field_admits filters field slot"
proof -
  have normal: "normal_filter (filters ! i)" if "i < length filters" for i using fs that by (simp add: list_all_length)
  show "list_all normal_value points" "list_all is_scalar points"
    "(\<exists>p \<in> set points. \<exists>v. slot = Some v \<and> same_scalar v p) \<longleftrightarrow> field_admits filters field slot"
  proof (atomize (full), cases "FieldMode field = Membership")
    case True
    then obtain i is' where i: "predicates_on filters (\<lambda>f. Field f = FieldName field \<and> Op f = OpContains) = i # is'"
      and p: "points = [FilterValue (filters ! i)]" using pts by (auto simp: field_points_def split: list.splits)
    have "i < length filters" "Op (filters ! i) = OpContains"
      using predicates_on_set [of filters "\<lambda>f. Field f = FieldName field \<and> Op f = OpContains"] i by auto
    then show "list_all normal_value points \<and> list_all is_scalar points \<and>
       (\<exists>p \<in> set points. \<exists>v. slot = Some v \<and> same_scalar v p) = field_admits filters field slot"
      using normal True i p by (auto simp: field_admits_def normal_filter_def normal_operand_def range_ops_def)
  next
    case False
    then obtain i is' where i: "predicates_on filters (\<lambda>f. Field f = FieldName field \<and> (Op f = OpEq \<or> Op f = OpIn)) = i # is'"
      using pts by (auto simp: field_points_def split: list.splits)
    let ?f = "filters ! i"
    have f: "i < length filters" "Field ?f = FieldName field" "Op ?f = OpEq \<or> Op ?f = OpIn"
      using predicates_on_set [of filters "\<lambda>f. Field f = FieldName field \<and> (Op f = OpEq \<or> Op f = OpIn)"] i by auto
    obtain vs where vs: "vs = (if Op ?f = OpEq then [FilterValue ?f] else (case FilterValue ?f of Slice us \<Rightarrow> us))"
      and scalars: "list_all normal_value vs" "list_all is_scalar vs"
      and points: "admit_points filters (FieldName field) vs = Inr points"
      and holds: "slot_holds ?f slot \<longleftrightarrow> (\<exists>v. slot = Some v \<and> list_ex (same_scalar v) vs)"
    proof (cases "Op ?f = OpEq")
      case True
      then show ?thesis using that [of "[FilterValue ?f]"] pts False i normal [OF f(1)]
        by (auto simp: field_points_def bind_result_def slot_holds_def normal_filter_def normal_operand_def range_ops_def
            split: sum.splits option.splits)
    next
      case isin: False
      then obtain us where us: "FilterValue ?f = Slice us" "list_all is_scalar us" "list_all normal_value us"
        using f normal [OF f(1)] by (cases "FilterValue ?f") (auto simp: normal_filter_def normal_operand_def)
      then show ?thesis using that [of us] pts False i isin f
        by (auto simp: field_points_def bind_result_def slot_holds_def split: sum.splits option.splits)
    qed
    have pts': "points = filter (\<lambda>v. \<forall>f \<in> set filters. Field f = FieldName field \<longrightarrow> slot_holds f (Some v)) vs"
      using points admit_points_exact [OF fs scalars(1)] by simp
    have "(\<exists>p \<in> set points. \<exists>v. slot = Some v \<and> same_scalar v p) \<longleftrightarrow>
       (\<exists>v. slot = Some v \<and> list_ex (same_scalar v) vs \<and> (\<forall>f \<in> set filters. Field f = FieldName field \<longrightarrow> slot_holds f slot))"
    proof (cases slot)
      case (Some v)
      have "slot_holds f (Some v) \<longleftrightarrow> slot_holds f (Some p)"
        if "p \<in> set vs" "same_scalar v p" "f \<in> set filters" for p f
        using same_scalar_congr [of v p f] slot [OF Some] fs scalars that by (simp add: list_all_iff)
      then show ?thesis unfolding pts' list_ex_iff Some by auto
    qed simp
    also have "\<dots> \<longleftrightarrow> (\<forall>f \<in> set filters. Field f = FieldName field \<longrightarrow> slot_holds f slot)"
      using holds f(1,2) by auto
    finally show "list_all normal_value points \<and> list_all is_scalar points \<and>
       (\<exists>p \<in> set points. \<exists>v. slot = Some v \<and> same_scalar v p) = field_admits filters field slot"
      using False scalars pts' by (auto simp: field_admits_def list_all_iff)
  qed
qed

section \<open>Branches are exact\<close>

lemma codes_inject:
  assumes "list_all2 alike_fields xs ys"
  shows "concat (map field_code xs) @ r = concat (map field_code ys) @ s \<longleftrightarrow>
    map field_code xs = map field_code ys \<and> r = s"
  using assms
proof (induction xs ys rule: list_all2_induct)
  case (Cons x xs y ys)
  have "field_code x = field_code y" if "field_code x @ a = field_code y @ b" for a b
    using that fields.code_parallel [OF Cons.hyps(1)]
    by (metis parallel_append prefix_order.order_refl parallelE prefix_def)
  then have "field_code x @ a = field_code y @ b \<longleftrightarrow> field_code x = field_code y \<and> a = b" for a b by force
  then show ?case using Cons.IH by simp
qed simp

text \<open>The tuples a template indexes: one field per dimension, in its direction.\<close>

definition tuple_for :: "template_field list \<Rightarrow> order_field list \<Rightarrow> bool" where
  "tuple_for dims gs \<longleftrightarrow> list_all2 (\<lambda>f g. encodable g \<and> FieldDirection g = fieldDirection f) dims gs"

lemma tuple_for_simps [simp]:
  "tuple_for [] gs \<longleftrightarrow> gs = []"
  "tuple_for (f # fs) (g # gs) \<longleftrightarrow> encodable g \<and> FieldDirection g = fieldDirection f \<and> tuple_for fs gs"
  by (simp_all add: tuple_for_def)

lemma list_all2_snoc: "list_all2 P (xs @ [x]) (ys @ [y]) \<longleftrightarrow> list_all2 P xs ys \<and> P x y"
  using list_all2_rev [of P "xs @ [x]" "ys @ [y]"] list_all2_rev [of P xs ys] by auto

lemma tuple_for_append:
  "tuple_for (fs @ [f]) gs \<longleftrightarrow>
    (\<exists>hs h. gs = hs @ [h] \<and> tuple_for fs hs \<and> encodable h \<and> FieldDirection h = fieldDirection f)"
  by (cases gs rule: rev_cases) (auto simp: tuple_for_def list_all2_snoc dest: list_all2_lengthD)

lemma tuple_for_alike: "tuple_for dims gs \<Longrightarrow> tuple_for dims hs \<Longrightarrow> list_all2 alike_fields gs hs"
  by (induction dims arbitrary: gs hs) (auto simp: tuple_for_def list_all2_Cons1 alike_fields_def)

definition tuple_key :: "order_field list \<Rightarrow> bytes" where
  "tuple_key gs = Version # concat (map field_code gs)"

lemma tuple_key_prefix: "key_prefix (tuple_key gs)"
  by (simp add: tuple_key_def key_prefix_def)

lemma tuple_key_extends:
  assumes "tuple_for dims gs" and "tuple_for dims hs"
  shows "(\<exists>u. tuple_key gs @ rest = tuple_key hs @ u) \<longleftrightarrow> tuple_key gs = tuple_key hs"
  using codes_inject [OF tuple_for_alike [OF assms]] codes_inject [OF tuple_for_alike [OF assms], of "[]" "[]"]
  by (auto simp: tuple_key_def)

lemma tuple_key_snoc:
  assumes "tuple_for dims gs" and "tuple_for dims hs" and "alike_fields g h"
  shows "tuple_key (gs @ [g]) = tuple_key (hs @ [h]) \<longleftrightarrow> tuple_key gs = tuple_key hs \<and> field_compare g h = 0"
  using codes_inject [OF tuple_for_alike [OF assms(1,2)], of "field_code g" "field_code h"]
    codes_inject [OF tuple_for_alike [OF assms(1,2)], of "[]" "[]"] fields.code_compare [OF assms(3)]
  by (auto simp: tuple_key_def bytes_compare_def split: if_splits)

definition admits :: "filters \<Rightarrow> template_field list \<Rightarrow> order_field list \<Rightarrow> bool" where
  "admits filters dims gs \<longleftrightarrow> list_all2 (\<lambda>f g. field_admits filters f (field_slot g)) dims gs"

definition branches_ok :: "filters \<Rightarrow> template_field list \<Rightarrow> compile_state \<Rightarrow> bool" where
  "branches_ok filters dims st \<longleftrightarrow>
     CompFixed st = length dims \<and> CompBranches st \<noteq> [] \<and>
     (\<forall>b \<in> set (CompBranches st). FixedFields b = length dims \<and> (\<exists>hs. tuple_for dims hs \<and> Prefix b = tuple_key hs)) \<and>
     (\<forall>gs. tuple_for dims gs \<longrightarrow>
        (CompEmpty st \<longrightarrow> \<not> admits filters dims gs) \<and>
        (\<not> CompEmpty st \<longrightarrow> \<not> CompExceeded st \<longrightarrow>
           ((\<exists>b \<in> set (CompBranches st). Prefix b = tuple_key gs) \<longleftrightarrow> admits filters dims gs)))"

lemma branches_ok_initial: "branches_ok filters [] (initial_state filters)"
  by (simp add: branches_ok_def initial_state_def tuple_key_def admits_def)

lemma map_result_forall2: "map_result f xs = Inr ys \<longleftrightarrow> list_all2 (\<lambda>x y. f x = Inr y) xs ys"
  by (induction xs arbitrary: ys) (auto simp: list_all2_Cons1 map_result_Cons_Inr simp del: map_result.simps(2))

definition branch_of :: "nat \<Rightarrow> bytes \<Rightarrow> candidate_branch" where
  "branch_of n pfx = \<lparr>Prefix = pfx, FixedFields = n, BranchLower = [], BranchUpper = None\<rparr>"

lemma expand_branches_exact:
  assumes "expand_branches field n branches points = Inr nxt"
  shows "set nxt = (\<lambda>(b, v). branch_of n (Prefix b @ field_code (value_field v (fieldDirection field)))) ` (set branches \<times> set points)"
    and "length nxt = length branches * length points"
    and "branches \<noteq> [] \<Longrightarrow> v \<in> set points \<Longrightarrow> encodable (value_field v (fieldDirection field))"
proof -
  define one where "one = (\<lambda>(b :: candidate_branch, v). branch_of n (Prefix b @ field_code (value_field v (fieldDirection field))))"
  have all: "list_all2 (\<lambda>(b, v) y. encodable (value_field v (fieldDirection field)) \<and> y = one (b, v))
      (List.product branches points) nxt"
    using assms unfolding expand_branches_def map_result_forall2
    by (rule list_all2_mono) (auto simp: one_def branch_of_def split: sum.splits dest: fieldBytes_code)
  then have "list_all2 (\<lambda>x y. y = one x) (List.product branches points) nxt" by (rule list_all2_mono) auto
  then have nxt: "nxt = map one (List.product branches points)"
    by (simp add: list_all2_conv_all_nth list_eq_iff_nth_eq)
  then show "set nxt = (\<lambda>(b, v). branch_of n (Prefix b @ field_code (value_field v (fieldDirection field)))) ` (set branches \<times> set points)"
    "length nxt = length branches * length points" by (simp_all add: one_def)
  assume "branches \<noteq> []" "v \<in> set points"
  then have "(hd branches, v) \<in> set (List.product branches points)" by simp
  with all show "encodable (value_field v (fieldDirection field))"
    unfolding list_all2_conv_all_nth in_set_conv_nth by fastforce
qed

interpretation points: weak_order point_less
  by unfold_locales (auto simp: point_less_def compare_sign)

lemma point_less_sort: "mset (sort_slice point_less xs) = mset xs"
  using points.sort_slice_correct by blast

lemma compile_fieldE:
  assumes "compile_field filters n field st = Inr (Some st')"
  obtains points marked bs ps where "field_points filters field = Inr (Some (points, marked))"
    "expand_branches field (n + 1) bs ps = Inr (CompBranches st')"
    "CompFixed st' = n + 1" "CompEmpty st' \<longleftrightarrow> CompEmpty st \<or> points = []" "CompExceeded st \<longrightarrow> CompExceeded st'"
    "set bs \<subseteq> set (CompBranches st)" "set ps \<subseteq> (if points = [] then {NilValue} else set points)"
    "\<not> CompExceeded st' \<longrightarrow> bs = CompBranches st \<and> (points \<noteq> [] \<longrightarrow> set ps = set points)"
    "CompAssign st' = mark_access marked (CompAssign st)" "ps \<noteq> []" "CompBranches st \<noteq> [] \<longrightarrow> bs \<noteq> []"
proof -
  obtain points marked where p: "field_points filters field = Inr (Some (points, marked))"
    using assms by (auto simp: compile_field_def bind_result_def split: sum.splits option.splits)
  define pts where "pts = sort_slice point_less (if points = [] then [NilValue] else points)"
  define over where "over = (length (CompBranches st) * length pts > MaxCandidateBranches)"
  define bs where "bs = (if over then take 1 (CompBranches st) else CompBranches st)"
  define ps where "ps = (if over then take 1 pts else pts)"
  have pts: "set pts = (if points = [] then {NilValue} else set points)" "pts \<noteq> []"
    using mset_eq_setD [OF point_less_sort, of "if points = [] then [NilValue] else points"]
      point_less_sort [of "if points = [] then [NilValue] else points"]
    by (auto simp: pts_def split: if_splits)
  obtain nxt where nxt: "expand_branches field (n + 1) bs ps = Inr nxt"
    and st': "st' = \<lparr>CompBranches = nxt, CompFixed = n + 1, CompAccess = CompAccess st + length marked,
                  CompEmpty = (CompEmpty st \<or> points = []), CompExceeded = (CompExceeded st \<or> over),
                  CompAssign = mark_access marked (CompAssign st)\<rparr>"
    using assms unfolding compile_field_def p over_def bs_def ps_def pts_def Let_def by (auto simp: result_simps)
  show thesis
    by (rule that [OF p, of bs ps])
      (use nxt pts in \<open>auto simp: st' bs_def ps_def split: if_splits dest: in_set_takeD\<close>)
qed

lemma branches_step:
  assumes tuple: "tuple_for dims hs" and val: "normal_value v" "is_scalar v"
    and enc: "encodable (value_field v (fieldDirection field))"
    and gs: "tuple_for dims gs" "encodable g" "FieldDirection g = fieldDirection field"
  shows "tuple_key hs @ field_code (value_field v (fieldDirection field)) = tuple_key (gs @ [g]) \<longleftrightarrow>
    tuple_key hs = tuple_key gs \<and> (\<exists>u. field_slot g = Some u \<and> same_scalar u v)"
proof -
  let ?h = "value_field v (fieldDirection field)"
  have alike: "alike_fields g ?h" using gs enc by (simp add: alike_fields_def) (simp add: value_field_def)
  have "tuple_key hs @ field_code ?h = tuple_key (gs @ [g]) \<longleftrightarrow> tuple_key (gs @ [g]) = tuple_key (hs @ [?h])"
    by (simp add: tuple_key_def eq_commute)
  also have "\<dots> \<longleftrightarrow> tuple_key gs = tuple_key hs \<and> field_compare g ?h = 0" by (rule tuple_key_snoc [OF gs(1) tuple alike])
  also have "field_compare g ?h = 0 \<longleftrightarrow> (\<exists>u. field_slot g = Some u \<and> same_scalar u v)"
    using value_sign(1) [OF gs(2) val] unfolding gs(3) .
  finally show ?thesis by (simp only: eq_commute [of "tuple_key gs"])
qed

lemma admits_snoc: "admits filters (dims @ [f]) (gs @ [g]) \<longleftrightarrow> admits filters dims gs \<and> field_admits filters f (field_slot g)"
  by (simp add: admits_def list_all2_snoc)

lemma bex_image_Times: "(\<exists>z \<in> (\<lambda>(x, y). F x y) ` (A \<times> B). P z) \<longleftrightarrow> (\<exists>x \<in> A. \<exists>y \<in> B. P (F x y))"
  by auto

lemma compile_field_ok:
  assumes fs: "list_all normal_filter filters" and st: "branches_ok filters dims st"
    and step: "compile_field filters (length dims) field st = Inr (Some st')"
  shows "branches_ok filters (dims @ [field]) st'"
proof -
  from step obtain points marked bs ps where pts: "field_points filters field = Inr (Some (points, marked))"
    and ex: "expand_branches field (length dims + 1) bs ps = Inr (CompBranches st')"
    and fixed: "CompFixed st' = length dims + 1" and empty: "CompEmpty st' \<longleftrightarrow> CompEmpty st \<or> points = []"
    and exceeded: "CompExceeded st \<longrightarrow> CompExceeded st'"
    and sub: "set bs \<subseteq> set (CompBranches st)" "set ps \<subseteq> (if points = [] then {NilValue} else set points)"
    and all: "\<not> CompExceeded st' \<longrightarrow> bs = CompBranches st \<and> (points \<noteq> [] \<longrightarrow> set ps = set points)"
    and "CompAssign st' = mark_access marked (CompAssign st)"
    and ne: "ps \<noteq> []" "CompBranches st \<noteq> [] \<longrightarrow> bs \<noteq> []"
    by (rule compile_fieldE)
  have bs: "bs \<noteq> []" using ne(2) st by (simp add: branches_ok_def)
  have old: "\<And>b. b \<in> set (CompBranches st) \<Longrightarrow> \<exists>hs. tuple_for dims hs \<and> Prefix b = tuple_key hs"
    "\<And>gs. tuple_for dims gs \<Longrightarrow> CompEmpty st \<Longrightarrow> \<not> admits filters dims gs"
    "\<And>gs. tuple_for dims gs \<Longrightarrow> \<not> CompEmpty st \<Longrightarrow> \<not> CompExceeded st \<Longrightarrow>
       (\<exists>b \<in> set (CompBranches st). Prefix b = tuple_key gs) \<longleftrightarrow> admits filters dims gs"
    using st unfolding branches_ok_def by blast+
  let ?d = "fieldDirection field"
  note branches = expand_branches_exact(1) [OF ex]
  have enc: "encodable (value_field v ?d)" if "v \<in> set ps" for v
    using expand_branches_exact(3) [OF ex bs that] .
  have shape: "FixedFields b = length (dims @ [field]) \<and> (\<exists>hs. tuple_for (dims @ [field]) hs \<and> Prefix b = tuple_key hs)"
    if b: "b \<in> set (CompBranches st')" for b
  proof -
    obtain b0 v where bv: "b0 \<in> set bs" "v \<in> set ps" "b = branch_of (length dims + 1) (Prefix b0 @ field_code (value_field v ?d))"
      using b unfolding branches by auto
    obtain hs where "tuple_for dims hs" "Prefix b0 = tuple_key hs" using old(1) bv(1) sub(1) by blast
    then have "tuple_for (dims @ [field]) (hs @ [value_field v ?d])" "Prefix b = tuple_key (hs @ [value_field v ?d])"
      using enc [OF bv(2)] bv(3) unfolding tuple_for_append
      by (auto simp: tuple_key_def branch_of_def value_field_def)
    then show ?thesis using bv(3) by (auto simp: branch_of_def)
  qed
  have count: "CompBranches st' \<noteq> []" using expand_branches_exact(2) [OF ex] bs ne(1) by auto
  have exact: "(CompEmpty st' \<longrightarrow> \<not> admits filters (dims @ [field]) (gs @ [g])) \<and>
      (\<not> CompEmpty st' \<longrightarrow> \<not> CompExceeded st' \<longrightarrow>
        ((\<exists>b \<in> set (CompBranches st'). Prefix b = tuple_key (gs @ [g])) \<longleftrightarrow> admits filters (dims @ [field]) (gs @ [g])))"
    if gs: "tuple_for dims gs" "encodable g" "FieldDirection g = ?d" for gs g
  proof -
    have p: "list_all normal_value points" "list_all is_scalar points"
      "(\<exists>p \<in> set points. \<exists>v. field_slot g = Some v \<and> same_scalar v p) \<longleftrightarrow> field_admits filters field (field_slot g)"
      using field_points_exact [OF fs pts, of "field_slot g"] encodable_slot(1) [OF gs(2)] by simp_all
    have e: "\<not> admits filters (dims @ [field]) (gs @ [g])" if "CompEmpty st'"
      using that empty p(3) old(2) [OF gs(1)] by (auto simp: admits_snoc)
    have "(\<exists>b \<in> set (CompBranches st'). Prefix b = tuple_key (gs @ [g])) \<longleftrightarrow> admits filters (dims @ [field]) (gs @ [g])"
      if c: "\<not> CompEmpty st'" "\<not> CompExceeded st'"
    proof -
      have now: "bs = CompBranches st" "set ps = set points" "\<not> CompEmpty st" "\<not> CompExceeded st"
        using c all empty exceeded by auto
      have "(\<exists>b \<in> set (CompBranches st'). Prefix b = tuple_key (gs @ [g])) \<longleftrightarrow>
        (\<exists>b0 \<in> set bs. \<exists>v \<in> set points. Prefix b0 @ field_code (value_field v ?d) = tuple_key (gs @ [g]))"
        unfolding branches now(2) bex_image_Times by (simp add: branch_of_def)
      also have "\<dots> \<longleftrightarrow> (\<exists>b0 \<in> set bs. \<exists>v \<in> set points. Prefix b0 = tuple_key gs \<and> (\<exists>u. field_slot g = Some u \<and> same_scalar u v))"
      proof (intro bex_cong refl)
        fix b0 v assume "b0 \<in> set bs" "v \<in> set points"
        then obtain hs where "tuple_for dims hs" "Prefix b0 = tuple_key hs" "normal_value v" "is_scalar v" "encodable (value_field v ?d)"
          using old(1) [of b0] now p(1,2) enc [of v] by (auto simp: list_all_iff)
        then show "Prefix b0 @ field_code (value_field v ?d) = tuple_key (gs @ [g]) \<longleftrightarrow>
            Prefix b0 = tuple_key gs \<and> (\<exists>u. field_slot g = Some u \<and> same_scalar u v)"
          using branches_step [of dims hs v field gs g] gs by simp
      qed
      also have "\<dots> \<longleftrightarrow> admits filters (dims @ [field]) (gs @ [g])"
        unfolding admits_snoc p(3) [symmetric] old(3) [OF gs(1) now(3,4), symmetric] now(1) by blast
      finally show ?thesis .
    qed
    then show ?thesis using e by blast
  qed
  show ?thesis
    unfolding branches_ok_def
  proof (intro conjI ballI allI impI)
    fix gs assume "tuple_for (dims @ [field]) gs"
    then obtain hs h where h: "gs = hs @ [h]" "tuple_for dims hs" "encodable h" "FieldDirection h = ?d"
      by (auto simp: tuple_for_append)
    show "\<not> admits filters (dims @ [field]) gs" if "CompEmpty st'" using exact [OF h(2-4)] that h(1) by simp
    show "(\<exists>b \<in> set (CompBranches st'). Prefix b = tuple_key gs) \<longleftrightarrow> admits filters (dims @ [field]) gs"
      if "\<not> CompEmpty st'" "\<not> CompExceeded st'" using exact [OF h(2-4)] that h(1) by simp
  qed (use shape count fixed in auto)
qed

section \<open>Predicates answered by the scan\<close>

definition marks_of :: "filters \<Rightarrow> template_field \<Rightarrow> nat list" where
  "marks_of filters field =
     (if FieldMode field = Membership
      then take 1 (predicates_on filters (\<lambda>f. Field f = FieldName field \<and> Op f = OpContains))
      else predicates_on filters (\<lambda>f. Field f = FieldName field))"

lemma field_points_marks:
  "field_points filters field = Inr (Some (points, marked)) \<Longrightarrow> marked = marks_of filters field"
  by (auto simp: field_points_def marks_of_def result_simps split: if_splits list.splits)

lemma marks_of_field: "i \<in> set (marks_of filters field) \<Longrightarrow> i < length filters \<and> Field (filters ! i) = FieldName field"
  by (auto simp: marks_of_def predicates_on_set split: if_splits dest!: in_set_takeD)

lemma length_mark_access [simp]: "length (mark_access is as) = length as"
  unfolding mark_access_def by (induction "is" arbitrary: as) auto

lemma mark_access_iff:
  "i < length as \<Longrightarrow> Access (mark_access is as ! i) \<longleftrightarrow> Access (as ! i) \<or> i \<in> set is"
  unfolding mark_access_def
proof (induction "is" arbitrary: as)
  case (Cons k ks)
  then show ?case by (cases "i = k") auto
qed simp

definition assign_ok :: "filters \<Rightarrow> template_field list \<Rightarrow> compile_state \<Rightarrow> bool" where
  "assign_ok filters dims st \<longleftrightarrow> length (CompAssign st) = length filters \<and>
     (\<forall>i < length filters. Access (CompAssign st ! i) \<longleftrightarrow> (\<exists>f \<in> set dims. i \<in> set (marks_of filters f))) \<and>
     (\<forall>f \<in> set dims. FieldMode f = Membership \<longrightarrow> marks_of filters f \<noteq> [])"

lemma assign_ok_initial: "assign_ok filters [] (initial_state filters)"
  by (simp add: assign_ok_def initial_state_def)

lemma field_points_membership:
  "field_points filters field = Inr (Some (points, marked)) \<Longrightarrow> FieldMode field = Membership \<Longrightarrow> marks_of filters field \<noteq> []"
  by (auto simp: field_points_def marks_of_def split: list.splits)

lemma compile_field_assign:
  assumes "assign_ok filters dims st" and "compile_field filters n field st = Inr (Some st')"
  shows "assign_ok filters (dims @ [field]) st'"
proof -
  from assms(2) obtain points marked where m: "field_points filters field = Inr (Some (points, marked))"
    "CompAssign st' = mark_access marked (CompAssign st)" by (rule compile_fieldE) blast
  then show ?thesis
    using assms(1) field_points_marks [OF m(1)] field_points_membership [OF m(1)]
    by (auto simp: assign_ok_def mark_access_iff)
qed

lemma compile_fields_ok:
  assumes "list_all normal_filter filters"
  shows "compile_fields filters (length dims) later st = Inr st' \<Longrightarrow> branches_ok filters dims st \<Longrightarrow>
    assign_ok filters dims st \<Longrightarrow>
    \<exists>k \<le> length later. branches_ok filters (dims @ take k later) st' \<and> assign_ok filters (dims @ take k later) st'"
proof (induction later arbitrary: dims st)
  case (Cons field later)
  from Cons.prems(1) consider "st' = st"
    | st1 where "compile_field filters (length dims) field st = Inr (Some st1)"
        "compile_fields filters (Suc (length dims)) later st1 = Inr st'"
    by (auto simp: result_simps split: option.splits)
  then show ?case
  proof cases
    case 1
    then show ?thesis using Cons.prems by (intro exI [of _ 0]) simp
  next
    case 2
    from Cons.IH [of "dims @ [field]" st1] 2(2) compile_field_ok [OF assms Cons.prems(2) 2(1)]
      compile_field_assign [OF Cons.prems(3) 2(1)]
    obtain k where "k \<le> length later" "branches_ok filters (dims @ field # take k later) st'"
      "assign_ok filters (dims @ field # take k later) st'" by auto
    then show ?thesis by (intro exI [of _ "Suc k"]) simp
  qed
qed (auto)

lemma bound_branch_exact:
  assumes p: "key_prefix pfx" and g: "encodable g" "FieldDirection g = fieldDirection field"
  shows "bound_branch pfx field n fs ivs = Inr (ivs', marked) \<Longrightarrow> list_all normal_filter fs \<Longrightarrow>
    within_any (pfx @ field_code g @ rest) ivs' \<longleftrightarrow> within_any (pfx @ field_code g @ rest) ivs \<and>
      (\<forall>f \<in> set fs. Field f = FieldName field \<longrightarrow> Op f \<noteq> OpContains \<longrightarrow> slot_holds f (field_slot g))"
proof (induction fs arbitrary: n ivs ivs' marked)
  case (Cons f fs)
  show ?case
  proof (cases "Field f \<noteq> FieldName field \<or> Op f = OpContains")
    case True
    then show ?thesis using Cons.IH Cons.prems by auto
  next
    case False
    then obtain c marked' where c: "filterIntervals pfx (fieldDirection field) f = Inr c"
      "bound_branch pfx field (Suc n) fs (intersectIntervals ivs c) = Inr (ivs', marked')"
      using Cons.prems(1) by (auto simp: result_simps)
    have "within_any (pfx @ field_code g @ rest) c \<longleftrightarrow> slot_holds f (field_slot g)"
      using filter_ranges [OF p g(1), of f c rest] g(2) c(1) Cons.prems(2) False by simp
    then show ?thesis using Cons.IH [OF c(2)] Cons.prems(2) False by (auto simp: within_intersect)
  qed
qed simp

lemma bound_branch_within: "bound_branch pfx field n fs ivs = Inr (ivs', marked) \<Longrightarrow> within_any key ivs' \<Longrightarrow> within_any key ivs"
proof (induction fs arbitrary: n ivs ivs' marked)
  case (Cons f fs)
  show ?case
  proof (cases "Field f \<noteq> FieldName field \<or> Op f = OpContains")
    case True
    then show ?thesis using Cons by auto
  next
    case False
    then obtain c marked' where "bound_branch pfx field (Suc n) fs (intersectIntervals ivs c) = Inr (ivs', marked')"
      using Cons.prems(1) by (auto simp: result_simps)
    from Cons.IH [OF this Cons.prems(2)] show ?thesis by (simp add: within_intersect)
  qed
qed simp

definition bound_marks :: "template_field \<Rightarrow> nat \<Rightarrow> filters \<Rightarrow> nat set" where
  "bound_marks field n fs =
     {n + i | i. i < length fs \<and> Field (fs ! i) = FieldName field \<and> Op (fs ! i) \<noteq> OpContains}"

lemma bound_marks_simps [simp]:
  "bound_marks field n [] = {}"
  "bound_marks field n (f # fs) =
     (if Field f = FieldName field \<and> Op f \<noteq> OpContains then {n} else {}) \<union> bound_marks field (Suc n) fs"
  by (auto simp: bound_marks_def less_Suc_eq_0_disj)

lemma bound_branch_marks: "bound_branch pfx field n fs ivs = Inr (ivs', marked) \<Longrightarrow> set marked = bound_marks field n fs"
  by (induction fs arbitrary: n ivs ivs' marked) (auto simp: result_simps split: if_splits)

text \<open>The branches of one prefix, seen from a key of the index.\<close>

definition bound_admits :: "template_field list \<Rightarrow> nat \<Rightarrow> filters \<Rightarrow> order_field list \<Rightarrow> bool" where
  "bound_admits dims k filters gs \<longleftrightarrow>
     (k < length dims \<longrightarrow> (\<forall>f \<in> set filters. Field f = FieldName (dims ! k) \<longrightarrow> Op f \<noteq> OpContains \<longrightarrow>
        slot_holds f (field_slot (gs ! k))))"

definition in_branch :: "bytes \<Rightarrow> candidate_branch \<Rightarrow> bool" where
  "in_branch key b \<longleftrightarrow> within key (BranchLower b, BranchUpper b)"

lemma branch_intervals_exact:
  assumes fs: "list_all normal_filter filters" and gs: "tuple_for (Fields t) gs" and k: "k \<le> length (Fields t)"
    and b: "Prefix b = tuple_key hs" "tuple_for (take k (Fields t)) hs"
    and out: "branch_intervals t k filters b = Inr (bs, marked)"
  shows "(\<exists>b' \<in> set bs. in_branch (tuple_key gs @ rest) b') \<longleftrightarrow>
      Prefix b = tuple_key (take k gs) \<and> bound_admits (Fields t) k filters gs"
    and "set marked = (if k < length (Fields t) then bound_marks (Fields t ! k) 0 filters else {})"
    and "\<forall>b' \<in> set bs. Prefix b' = Prefix b \<and> FixedFields b' = FixedFields b"
proof -
  let ?whole = "(Prefix b, PrefixSuccessor (Prefix b))" and ?key = "tuple_key gs @ rest"
  obtain ivs where ivs: "(if k < length (Fields t) then bound_branch (Prefix b) (Fields t ! k) 0 filters [?whole]
      else Inr ([?whole], [])) = Inr (ivs, marked)" and bs: "bs = map (\<lambda>iv. b\<lparr>BranchLower := fst iv, BranchUpper := snd iv\<rparr>) ivs"
    using out by (auto simp: branch_intervals_def result_simps)
  show "set marked = (if k < length (Fields t) then bound_marks (Fields t ! k) 0 filters else {})"
    using ivs bound_branch_marks by (auto split: if_splits)
  show "\<forall>b' \<in> set bs. Prefix b' = Prefix b \<and> FixedFields b' = FixedFields b" by (auto simp: bs)
  have len: "length gs = length (Fields t)" using gs by (simp add: tuple_for_def list_all2_lengthD)
  have any: "(\<exists>b' \<in> set bs. in_branch ?key b') \<longleftrightarrow> within_any ?key ivs"
    by (auto simp: bs in_branch_def within_any_def)
  have take: "tuple_for (take k (Fields t)) (take k gs)" using gs by (simp add: tuple_for_def)
  have key: "?key = tuple_key (take k gs) @ concat (map field_code (drop k gs)) @ rest"
    by (simp add: tuple_key_def) (metis append_assoc append_take_drop_id concat_append map_append)
  obtain s where s: "PrefixSuccessor (Prefix b) = Some s"
    using key_prefix_successor [OF tuple_key_prefix, of hs "[]"] b(1) by auto
  have whole: "within ?key ?whole \<longleftrightarrow> Prefix b = tuple_key (take k gs)"
    using PrefixSuccessor_range [OF s, of ?key] tuple_key_extends [OF take b(2), of "concat (map field_code (drop k gs)) @ rest"]
    by (simp add: within_def s [unfolded b(1)] key b(1) eq_commute)
  have low: "within_any ?key ivs \<Longrightarrow> within_any ?key [?whole]"
    using ivs bound_branch_within [of "Prefix b" "Fields t ! k" 0 filters "[?whole]" ivs marked ?key]
    by (auto split: if_splits)
  show "(\<exists>b' \<in> set bs. in_branch ?key b') \<longleftrightarrow> Prefix b = tuple_key (take k gs) \<and> bound_admits (Fields t) k filters gs"
  proof (cases "Prefix b = tuple_key (take k gs)")
    case False
    then show ?thesis using any low whole by auto
  next
    case True
    show ?thesis
    proof (cases "k < length (Fields t)")
      case less: True
      then have g: "encodable (gs ! k)" "FieldDirection (gs ! k) = fieldDirection (Fields t ! k)"
        using gs by (simp_all add: tuple_for_def list_all2_conv_all_nth)
      have key': "?key = Prefix b @ field_code (gs ! k) @ (concat (map field_code (drop (Suc k) gs)) @ rest)"
        unfolding key True using less len by (simp add: Cons_nth_drop_Suc [symmetric])
      have p: "key_prefix (Prefix b)" unfolding b(1) by (rule tuple_key_prefix)
      have "within_any ?key ivs \<longleftrightarrow> within_any ?key [?whole] \<and> bound_admits (Fields t) k filters gs"
        using bound_branch_exact [OF p g _ fs, of 0 "[?whole]" ivs marked "concat (map field_code (drop (Suc k) gs)) @ rest"] ivs less
        unfolding key' [symmetric] bound_admits_def by simp
      then show ?thesis using any whole True by simp
    next
      case False
      then show ?thesis using any whole True ivs by (auto simp: bound_admits_def)
    qed
  qed
qed

text \<open>
  What a filter asks of an indexed tuple: of the dimension of its field, the member when the dimension is
  a membership one and the value otherwise.
\<close>

definition marked_holds :: "template_field \<Rightarrow> filter \<Rightarrow> any option \<Rightarrow> bool" where
  "marked_holds field f slot \<longleftrightarrow>
     (if FieldMode field = Membership then \<exists>v. slot = Some v \<and> same_scalar v (FilterValue f) else slot_holds f slot)"

definition predicate_holds :: "template_field list \<Rightarrow> order_field list \<Rightarrow> filter \<Rightarrow> bool" where
  "predicate_holds dims gs f \<longleftrightarrow>
     (\<forall>j < length dims. FieldName (dims ! j) = Field f \<longrightarrow> marked_holds (dims ! j) f (field_slot (gs ! j)))"

lemma field_admits_marks:
  assumes "FieldMode field = Membership \<longrightarrow> marks_of filters field \<noteq> []"
  shows "field_admits filters field slot \<longleftrightarrow> (\<forall>i \<in> set (marks_of filters field). marked_holds field (filters ! i) slot)"
proof (cases "FieldMode field = Membership")
  case True
  then show ?thesis using assms by (auto simp: field_admits_def marks_of_def marked_holds_def split: list.splits)
next
  case False
  then show ?thesis
    by (auto simp: field_admits_def marks_of_def marked_holds_def predicates_on_set all_set_conv_all_nth)
qed

lemma admits_marks:
  assumes "length gs = length dims" and "\<forall>f \<in> set dims. FieldMode f = Membership \<longrightarrow> marks_of filters f \<noteq> []"
  shows "admits filters dims gs \<longleftrightarrow>
    (\<forall>j < length dims. \<forall>i \<in> set (marks_of filters (dims ! j)). marked_holds (dims ! j) (filters ! i) (field_slot (gs ! j)))"
  using assms field_admits_marks by (auto simp: admits_def list_all2_conv_all_nth)

lemma predicate_at:
  assumes "distinct (map FieldName dims)" and "j < length dims" and "Field f = FieldName (dims ! j)"
  shows "predicate_holds dims gs f \<longleftrightarrow> marked_holds (dims ! j) f (field_slot (gs ! j))"
  using assms by (auto simp: predicate_holds_def distinct_conv_nth)

lemma compileCandidateE:
  assumes "compileCandidate hash digest t filters requested = Inr (m, access)"
  obtains st parts where "compile_fields filters 0 (Fields t) (initial_state filters) = Inr st"
    "CompExceeded st \<longrightarrow> CompEmpty st" "\<forall>f \<in> set (drop (CompFixed st) (Fields t)). FieldMode f \<noteq> Membership"
    "order_served t (CompFixed st) (effective_order t requested)"
    "map_result (branch_intervals t (CompFixed st) filters) (CompBranches st) = Inr parts"
    "Branches m = (if CompEmpty st then [] else concat (map fst parts))"
    "Assignments m = mark_access (concat (map snd parts)) (CompAssign st)"
    "EffectiveOrder m = effective_order t requested" "MetaTemplate m = t"
    "length (Branches m) \<le> MaxCandidateBranches"
proof -
  obtain st where st: "compile_fields filters 0 (Fields t) (initial_state filters) = Inr st"
    and "\<not> (CompExceeded st \<and> \<not> CompEmpty st)"
    and "\<not> list_ex (\<lambda>f. FieldMode f = Membership) (drop (CompFixed st) (Fields t))"
    and "order_served t (CompFixed st) (effective_order t requested)"
    using assms by (auto simp: compileCandidate_def result_simps Let_def split: if_splits)
  moreover obtain parts where parts: "map_result (branch_intervals t (CompFixed st) filters) (CompBranches st) = Inr parts"
    using assms calculation by (auto simp: compileCandidate_def result_simps Let_def split: if_splits)
  moreover have "Branches m = (if CompEmpty st then [] else concat (map fst parts)) \<and>
    Assignments m = mark_access (concat (map snd parts)) (CompAssign st) \<and>
    EffectiveOrder m = effective_order t requested \<and> MetaTemplate m = t \<and> length (Branches m) \<le> MaxCandidateBranches"
    using assms calculation by (auto simp: compileCandidate_def Let_def split: if_splits)
  ultimately show thesis by (intro that [of st parts]) (auto simp: list_ex_iff)
qed

lemma candidateFilters_normal: "candidateFilters pfs = Inr filters \<Longrightarrow> list_all normal_filter filters"
proof -
  assume "candidateFilters pfs = Inr filters"
  then obtain raw where "NormalizeFilters raw = Inr filters"
    unfolding candidateFilters_def bind_result_def
    by (cases "map_result model_filter pfs"; cases "NormalizeFilters (projr (map_result model_filter pfs))")
      (auto split: if_splits)
  then show ?thesis
    unfolding NormalizeFilters_def by (auto dest!: normalize_from_map simp: list_all2_conv_all_nth list_all_length)
qed

text \<open>The union over the branches of a prefix set.\<close>

lemma bounded_exact:
  assumes fs: "list_all normal_filter filters" and gs: "tuple_for (Fields t) gs" and k: "k \<le> length (Fields t)"
    and st: "branches_ok filters (take k (Fields t)) st"
    and parts: "map_result (branch_intervals t k filters) (CompBranches st) = Inr parts"
  shows "(\<exists>b' \<in> set (concat (map fst parts)). in_branch (tuple_key gs @ rest) b') \<longleftrightarrow>
      (\<exists>b \<in> set (CompBranches st). Prefix b = tuple_key (take k gs)) \<and> bound_admits (Fields t) k filters gs"
    and "set (concat (map snd parts)) = (if k < length (Fields t) then bound_marks (Fields t ! k) 0 filters else {})"
proof -
  have each: "list_all2 (\<lambda>b (bs, marked).
      ((\<exists>b' \<in> set bs. in_branch (tuple_key gs @ rest) b') \<longleftrightarrow>
        Prefix b = tuple_key (take k gs) \<and> bound_admits (Fields t) k filters gs) \<and>
      set marked = (if k < length (Fields t) then bound_marks (Fields t ! k) 0 filters else {})) (CompBranches st) parts"
    unfolding list_all2_conv_all_nth
  proof (intro conjI allI impI)
    show "length (CompBranches st) = length parts" using map_result_Inr_length [OF parts] by simp
    fix i assume i: "i < length (CompBranches st)"
    let ?b = "CompBranches st ! i"
    obtain hs where hs: "tuple_for (take k (Fields t)) hs" "Prefix ?b = tuple_key hs"
      using st nth_mem [OF i] unfolding branches_ok_def by blast
    obtain bs marked where out: "parts ! i = (bs, marked)" by fastforce
    then have "branch_intervals t k filters ?b = Inr (bs, marked)" using map_result_Inr_nth [OF parts i] by simp
    from branch_intervals_exact(1,2) [OF fs gs k hs(2,1) this]
    show "case parts ! i of (bs, marked) \<Rightarrow> ((\<exists>b' \<in> set bs. in_branch (tuple_key gs @ rest) b') \<longleftrightarrow>
        Prefix ?b = tuple_key (take k gs) \<and> bound_admits (Fields t) k filters gs) \<and>
      set marked = (if k < length (Fields t) then bound_marks (Fields t ! k) 0 filters else {})"
      unfolding out by simp
  qed
  let ?M = "if k < length (Fields t) then bound_marks (Fields t ! k) 0 filters else {}"
  have "parts \<noteq> []" using st map_result_Inr_length [OF parts] by (auto simp: branches_ok_def)
  moreover have "set (snd p) = ?M" if mem: "p \<in> set parts" for p
  proof -
    obtain i where i: "i < length parts" "parts ! i = p" using mem unfolding in_set_conv_nth by blast
    then show ?thesis using each by (cases p) (auto simp: list_all2_conv_all_nth)
  qed
  ultimately show "set (concat (map snd parts)) = ?M" by (cases parts) simp_all
  from each show "(\<exists>b' \<in> set (concat (map fst parts)). in_branch (tuple_key gs @ rest) b') \<longleftrightarrow>
      (\<exists>b \<in> set (CompBranches st). Prefix b = tuple_key (take k gs)) \<and> bound_admits (Fields t) k filters gs"
    by (induction rule: list_all2_induct) (auto split: prod.splits)
qed

lemma compile_exact:
  assumes t: "distinct (map FieldName (Fields t))" and fs: "list_all normal_filter filters"
    and c: "compileCandidate hash digest t filters requested = Inr (m, access)" and gs: "tuple_for (Fields t) gs"
  shows "(\<exists>b \<in> set (Branches m). in_branch (tuple_key gs @ rest) b) \<longleftrightarrow>
    (\<forall>i < length filters. Access (Assignments m ! i) \<longrightarrow> predicate_holds (Fields t) gs (filters ! i))"
proof -
  let ?dims = "Fields t"
  from c obtain st parts where st: "compile_fields filters 0 ?dims (initial_state filters) = Inr st"
    and exceeded: "CompExceeded st \<longrightarrow> CompEmpty st"
    and plain: "\<forall>f \<in> set (drop (CompFixed st) ?dims). FieldMode f \<noteq> Membership"
    and "order_served t (CompFixed st) (effective_order t requested)"
    and parts: "map_result (branch_intervals t (CompFixed st) filters) (CompBranches st) = Inr parts"
    and m: "Branches m = (if CompEmpty st then [] else concat (map fst parts))"
      "Assignments m = mark_access (concat (map snd parts)) (CompAssign st)"
    and "EffectiveOrder m = effective_order t requested" "MetaTemplate m = t"
      "length (Branches m) \<le> MaxCandidateBranches" by (rule compileCandidateE)
  obtain k where k: "k \<le> length ?dims" and b: "branches_ok filters (take k ?dims) st" and a: "assign_ok filters (take k ?dims) st"
    using compile_fields_ok [OF fs, of "[]" ?dims "initial_state filters" st] st branches_ok_initial assign_ok_initial by auto
  then have fixed: "CompFixed st = k" by (simp add: branches_ok_def)
  note be = bounded_exact [OF fs gs k b parts [unfolded fixed]]
  have len: "length gs = length ?dims" using gs by (simp add: tuple_for_def list_all2_lengthD)
  have take: "tuple_for (take k ?dims) (take k gs)" using gs by (simp add: tuple_for_def)
  have access: "Access (Assignments m ! i) \<longleftrightarrow> (\<exists>j < k. i \<in> set (marks_of filters (?dims ! j))) \<or>
      k < length ?dims \<and> i \<in> bound_marks (?dims ! k) 0 filters" if "i < length filters" for i
  proof -
    have "(\<exists>f \<in> set (take k ?dims). i \<in> set (marks_of filters f)) \<longleftrightarrow> (\<exists>j < k. i \<in> set (marks_of filters (?dims ! j)))"
      unfolding nth_image [OF k, symmetric] by auto
    then show ?thesis using a that be(2) by (simp add: m(2) assign_ok_def mark_access_iff)
  qed
  have adm: "admits filters (take k ?dims) (take k gs) \<longleftrightarrow>
      (\<forall>j < k. \<forall>i \<in> set (marks_of filters (?dims ! j)). predicate_holds ?dims gs (filters ! i))"
  proof -
    have "admits filters (take k ?dims) (take k gs) \<longleftrightarrow>
        (\<forall>j < k. \<forall>i \<in> set (marks_of filters (?dims ! j)). marked_holds (?dims ! j) (filters ! i) (field_slot (gs ! j)))"
      using admits_marks [of "take k gs" "take k ?dims" filters] a k len by (simp add: assign_ok_def)
    also have "\<dots> \<longleftrightarrow> (\<forall>j < k. \<forall>i \<in> set (marks_of filters (?dims ! j)). predicate_holds ?dims gs (filters ! i))"
    proof (intro all_cong ball_cong refl)
      fix j i assume "j < k" "i \<in> set (marks_of filters (?dims ! j))"
      then show "marked_holds (?dims ! j) (filters ! i) (field_slot (gs ! j)) = predicate_holds ?dims gs (filters ! i)"
        using predicate_at [OF t, of j "filters ! i" gs] marks_of_field [of i filters "?dims ! j"] k by simp
    qed
    finally show ?thesis .
  qed
  have bound: "bound_admits ?dims k filters gs \<longleftrightarrow>
      (k < length ?dims \<longrightarrow> (\<forall>i \<in> bound_marks (?dims ! k) 0 filters. predicate_holds ?dims gs (filters ! i)))"
  proof (cases "k < length ?dims")
    case True
    then have "?dims ! k \<in> set (drop k ?dims)" by (auto simp: in_set_conv_nth intro!: exI [of _ 0])
    then have "FieldMode (?dims ! k) \<noteq> Membership" using plain fixed by auto
    then show ?thesis
      using predicate_at [OF t True] by (auto simp: bound_admits_def bound_marks_def marked_holds_def all_set_conv_all_nth)
  qed (simp add: bound_admits_def)
  have "(\<exists>b \<in> set (Branches m). in_branch (tuple_key gs @ rest) b) \<longleftrightarrow>
      admits filters (take k ?dims) (take k gs) \<and> bound_admits ?dims k filters gs"
    using be(1) b take exceeded by (auto simp: m(1) branches_ok_def)
  also have "\<dots> \<longleftrightarrow> (\<forall>i < length filters. Access (Assignments m ! i) \<longrightarrow> predicate_holds ?dims gs (filters ! i))"
    unfolding adm bound using access by (auto simp: bound_marks_def dest: marks_of_field)
  finally show ?thesis .
qed

section \<open>Properties\<close>

text \<open>
  C7: The branches of a compiled candidate plan cover exactly the predicates it assigns to the index.  For
  a valid template and normalized filters, the key of an indexed tuple lies in the range of one of the
  branches if and only if the tuple satisfies every filter whose assignment is marked as access; so no
  tuple that satisfies the whole conjunction is missed, and no marked filter needs the scanned tuples to be
  checked again.
\<close>

theorem compileCandidate_exact:
  assumes "ValidateTemplate t = Inr ()" and "candidateFilters pfs = Inr filters"
    and "compileCandidate hash digest t filters requested = Inr (m, access)" and "tuple_for (Fields t) gs"
  shows "(\<exists>b \<in> set (Branches m). in_branch (tuple_key gs @ rest) b) \<longleftrightarrow>
    (\<forall>i < length filters. Access (Assignments m ! i) \<longrightarrow> predicate_holds (Fields t) gs (filters ! i))"
proof (rule compile_exact [OF _ candidateFilters_normal [OF assms(2)] assms(3,4)])
  show "distinct (map FieldName (Fields t))" using assms(1) by (auto simp: ValidateTemplate_def validate_fields_iff split: if_splits)
qed

definition name_template :: template where
  "name_template = \<lparr>Name = ''by-name'', CollectionPattern = ''users'',
     Fields = [\<lparr>FieldName = ''name'', FieldOrder = TemplateAsc, FieldMode = ''''\<rparr>], IncludeDeleted = False\<rparr>"

definition name_filter :: filter where
  "name_filter = \<lparr>Field = ''name'', Op = OpEq, FilterValue = Str ''a''\<rparr>"

definition name_query :: "plan_filter list" where
  "name_query = [\<lparr>PField = ''name'', POp = FilterEq, PValue = Str ''a''\<rparr>]"

definition name_meta :: candidate_metadata where
  "name_meta = \<lparr>MetaTemplate = name_template, MetaFingerprint = ''f'', MetaGeneration = '''', BranchHash = ''d'',
     EffectiveOrder = [\<lparr>OrdField = ''name'', OrdDirection = Asc\<rparr>, \<lparr>OrdField = ''id'', OrdDirection = Asc\<rparr>],
     Branches = [\<lparr>Prefix = [Version, 0x50, 0x61, 0, 0], FixedFields = 1, BranchLower = [Version, 0x50, 0x61, 0, 0],
       BranchUpper = Some [Version, 0x50, 0x61, 0, 1]\<rparr>],
     Assignments = [\<lparr>Predicate = 0, Access = True, Residual = True\<rparr>]\<rparr>"

lemma name_codes: "bytes_of ''a'' = [0x61]" "bytes_of ''b'' = [0x62]"
  by (simp_all add: bytes_of_def)

lemma name_filters: "candidateFilters name_query = Inr [name_filter]"
  by (simp add: candidateFilters_def model_filter_def NormalizeFilters_def normalizeFilter_def ValidateQueryField_def
      ScalarKey_def name_codes has_prefix_def name_query_def name_filter_def)

lemma name_valid: "ValidateTemplate name_template = Inr ()"
  by (simp add: ValidateTemplate_def validate_fields_iff name_template_def valid_dimension_def ValidateQueryField_def
      has_prefix_def memberships_def)

lemma name_direction: "fieldDirection \<lparr>FieldName = ''name'', FieldOrder = TemplateAsc, FieldMode = ''''\<rparr> = Asc"
  by (simp add: fieldDirection_def TemplateAsc_def TemplateDesc_def)

lemma name_compile: "compileCandidate (\<lambda>_. ''f'') (\<lambda>_ _. ''d'') name_template [name_filter] [] = Inr (name_meta, 1)"
proof -
  have part: "fieldBytes (Str ''a'') Asc = Inr [0x50, 0x61, 0, 0]"
    by (simp add: fieldBytes_def EncodePrefix_def encodeField_def field_raw_def ScalarKey_def result_simps name_codes Asc_def Desc_def)
  have normal: "normal_filter name_filter" "normal_value (Str ''a'')"
    by (simp_all add: normal_filter_def normal_operand_def range_ops_def name_codes ValidateQueryField_def has_prefix_def name_filter_def)
  have holds: "slot_holds name_filter (Some (Str ''a''))" by (simp add: slot_holds_def same_scalar_def cmp_def name_filter_def)
  note f = name_filter_def
  have eval: "EvaluateFilter name_filter (Some (Str ''a'')) = Inr True"
    using EvaluateFilter_normal [OF normal] holds by simp
  have sort: "sort_slice point_less [Str ''a''] = [Str ''a'']" by (simp add: sort_slice_def)
  have nxt: "PrefixSuccessor [Version, 0x50, 0x61, 0, 0] = Some [Version, 0x50, 0x61, 0, 1]"
    by (simp add: PrefixSuccessor_def)
  show ?thesis
    by (simp add: compileCandidate_def name_template_def compile_field_def field_points_def predicates_on_filter
        eval [unfolded f] f sort initial_state_def expand_branches_def name_direction part mark_access_def MaxCandidateBranches_def
        effective_order_def order_served_def orderComponents_def order_found_def variable_order_def remaining_fields_def
        branch_intervals_def branch_bytes_def Let_def nxt name_meta_def Fingerprint_def)
qed

theorem compileCandidate_exact_witness:
  "(\<exists>b \<in> set (Branches name_meta). in_branch (tuple_key [value_field (Str ''a'') Asc]) b) \<and>
   \<not> (\<exists>b \<in> set (Branches name_meta). in_branch (tuple_key [value_field (Str ''b'') Asc]) b)"
proof -
  have tuple: "tuple_for (Fields name_template) [value_field (Str s) Asc]" if "s = ''a'' \<or> s = ''b''" for s
    using that name_direction
    by (auto simp: name_template_def encodable_def encodeField_def field_raw_def value_field_def ScalarKey_def
        name_codes Asc_def Desc_def)
  note exact = compileCandidate_exact [OF name_valid name_filters name_compile tuple, of _ "[]"]
  have "same_scalar (Str ''a'') (Str ''a'')" "\<not> same_scalar (Str ''b'') (Str ''a'')"
    by (simp_all add: same_scalar_def cmp_def)
  then show ?thesis
    using exact [of "''a''"] exact [of "''b''"]
    by (auto simp: predicate_holds_def marked_holds_def slot_holds_def name_template_def value_field_slot name_codes
        name_filter_def name_meta_def)
qed

end
