(* ===== verification/Positions.thy ===== *)
theory Positions
  imports Planner
begin

text \<open>
  Positions of candidate scans (\<^verbatim>\<open>position\<close>, \<^verbatim>\<open>PostingKey\<close> and \<^verbatim>\<open>scanOptions\<close> of
  \<^verbatim>\<open>internal/indexer/manager/candidates.go\<close>): a position is the tuple of the ordered fields and the
  document id.  The theory shows that on each branch positions and posting keys are in the same order,
  that either can be rebuilt from the other, and that a scan resumed after a position returns exactly the
  tuples behind it.
\<close>

section \<open>Index tuples and their positions\<close>

text \<open>
  The tuples of one document: a value per dimension in its direction, the document's own id for a
  dimension over \<^verbatim>\<open>id\<close>, and the id as the last component.
\<close>

definition index_tuple :: "template \<Rightarrow> order_field list \<Rightarrow> string \<Rightarrow> bool" where
  "index_tuple t gs i \<longleftrightarrow> tuple_for (Fields t) gs \<and> encodable (id_field i) \<and>
     (\<forall>j < length (Fields t). FieldName (Fields t ! j) = ''id'' \<longrightarrow>
        gs ! j = value_field (Str i) (fieldDirection (Fields t ! j)))"

definition index_key :: "order_field list \<Rightarrow> string \<Rightarrow> bytes" where
  "index_key gs i = tuple_key (gs @ [id_field i])"

text \<open>The field of a tuple an order component reads.\<close>

definition component_field :: "template \<Rightarrow> order_field list \<Rightarrow> string \<Rightarrow> plan_order \<Rightarrow> order_field" where
  "component_field t gs i o' =
     (case map_of (zip (map FieldName (Fields t)) gs) (OrdField o') of Some g \<Rightarrow> g | None \<Rightarrow> id_field i)"

lemma fill_map_distinct: "distinct (map fst kvs) \<Longrightarrow> fill_map kvs = map_of kvs"
proof (rule ext)
  fix k assume d: "distinct (map fst kvs)"
  then have d': "distinct (map fst (rev kvs))" by (simp add: rev_map [symmetric])
  have "(fill_map kvs k = Some v) = (map_of kvs k = Some v)" for v
    unfolding fill_map_def map_of_eq_Some_iff [OF d] map_of_eq_Some_iff [OF d'] by simp
  then show "fill_map kvs k = map_of kvs k" by (cases "map_of kvs k"; cases "fill_map kvs k") auto
qed

lemma fill_map_zip:
  assumes "distinct names" and "length names \<le> length parts"
  shows "fill_map (zip names parts) = map_of (zip names parts)"
  using assms by (intro fill_map_distinct) (simp add: map_fst_zip_take)

lemma index_tuple_len: "index_tuple t gs i \<Longrightarrow> length gs = length (Fields t)"
  unfolding index_tuple_def tuple_for_def by (auto dest: list_all2_lengthD)

lemma index_tuple_encodable: "index_tuple t gs i \<Longrightarrow> list_all encodable (gs @ [id_field i])"
  unfolding index_tuple_def tuple_for_def list_all2_conv_all_nth
  by (simp, simp only: list_all_length, simp)

lemma tupleParts_key: "list_all encodable gs \<Longrightarrow> tupleParts (tuple_key gs) = Inr (map field_code gs)"
  using parts_loop_fields by (simp add: tupleParts_def tuple_key_def)

lemma id_field_value: "id_field i = value_field (Str i) Asc"
  by (simp add: id_field_def value_field_def)

lemma component_at:
  assumes "distinct (map FieldName (Fields t))" and "length gs = length (Fields t)" and "j < length (Fields t)"
    and "OrdField o' = FieldName (Fields t ! j)"
  shows "component_field t gs i o' = gs ! j"
  using assms map_of_zip_nth [of "map FieldName (Fields t)" gs j] by (simp add: component_field_def)

lemma component_absent:
  "OrdField o' \<notin> FieldName ` set (Fields t) \<Longrightarrow> component_field t gs i o' = id_field i"
  by (auto simp: component_field_def split: option.splits dest!: map_of_SomeD set_zip_leftD)

text \<open>The components a plan may order by, seen from a template.\<close>

lemma order_foundE:
  assumes "order_found t o'" and "distinct (map FieldName (Fields t))"
  obtains j where "j < length (Fields t)" "OrdField o' = FieldName (Fields t ! j)"
      "OrdDirection o' = fieldDirection (Fields t ! j)" "FieldMode (Fields t ! j) \<noteq> Membership"
  | "OrdField o' \<notin> FieldName ` set (Fields t)" "OrdField o' = ''id''" "OrdDirection o' = Asc"
proof (cases "List.find (\<lambda>tf. FieldName tf = OrdField o') (Fields t)")
  case None
  then have "OrdField o' \<notin> FieldName ` set (Fields t)" by (auto simp: find_None_iff)
  then show thesis using that(2) assms None by (simp add: order_found_def)
next
  case (Some tf)
  then obtain j where j: "j < length (Fields t)" "Fields t ! j = tf" "FieldName tf = OrdField o'"
    by (auto simp: find_Some_iff)
  then show thesis using that(1) [of j] assms(1) Some by (auto simp: order_found_def)
qed

lemma component_alike:
  assumes t: "distinct (map FieldName (Fields t))" and o': "order_found t o'"
    and gs: "index_tuple t gs i"
  shows "encodable (component_field t gs i o') \<and> FieldDirection (component_field t gs i o') = OrdDirection o'"
  using o' t
proof (cases rule: order_foundE)
  case (1 j)
  then have "component_field t gs i o' = gs ! j" using component_at [OF t index_tuple_len [OF gs]] by blast
  then show ?thesis
    using gs 1 by (auto simp: index_tuple_def tuple_for_def list_all2_conv_all_nth)
next
  case 2
  then show ?thesis
    using component_absent [OF 2(1)] gs by (simp_all add: index_tuple_def id_field_def)
qed

lemma values_at:
  assumes t: "distinct (map FieldName (Fields t))" and gs: "length gs = length (Fields t)" and j: "j < length (Fields t)"
  shows "fill_map (zip (map FieldName (Fields t)) (map field_code gs @ [x])) (FieldName (Fields t ! j)) = Some (field_code (gs ! j))"
proof -
  have "fill_map (zip (map FieldName (Fields t)) (map field_code gs @ [x])) = map_of (zip (map FieldName (Fields t)) (map field_code gs))"
    using fill_map_zip [OF t, of "map field_code gs @ [x]"] gs by (simp add: zip_append2)
  then show ?thesis using map_of_zip_nth [of "map FieldName (Fields t)" "map field_code gs" j] assms by simp
qed

lemma position_part_eq:
  assumes t: "distinct (map FieldName (Fields t))" and o': "order_found t o'" and gs: "index_tuple t gs i"
    and m: "MetaTemplate m = t"
  defines "parts \<equiv> map field_code gs @ [field_code (id_field i)]"
  shows "position_part m parts ((fill_map (zip (map FieldName (Fields t)) parts))(''id'' \<mapsto> List.last parts)) o' =
    Inr (field_code (component_field t gs i o'))"
  using o' t
proof (cases rule: order_foundE)
  case (1 j)
  note at = values_at [OF t index_tuple_len [OF gs] 1(1), of "field_code (id_field i)"]
  have c: "component_field t gs i o' = gs ! j" by (rule component_at [OF t index_tuple_len [OF gs] 1(1,2)])
  have g: "gs ! j = value_field (Str i) (OrdDirection o')" if "OrdField o' = ''id''"
    using gs 1 that by (simp add: index_tuple_def)
  have "OrdDirection o' = Asc \<or> OrdDirection o' = Desc" unfolding 1(3) by (simp add: fieldDirection_def)
  then show ?thesis
    using at g unfolding c position_part_def m parts_def 1(2) [symmetric]
    by (cases "OrdField o' = ''id''") (auto simp: id_field_value Asc_def Desc_def)
next
  case 2
  then show ?thesis unfolding component_absent [OF 2(1)] position_part_def m parts_def by (simp add: Asc_def Desc_def)
qed

lemma position_eq:
  assumes t: "distinct (map FieldName (Fields t))" and m: "MetaTemplate m = t"
    and found: "list_all (order_found t) (orderComponents (EffectiveOrder m))" and gs: "index_tuple t gs i"
  shows "position m (index_key gs i) =
    (let out = tuple_key (map (component_field t gs i) (orderComponents (EffectiveOrder m)) @ [id_field i])
     in if length out > MaxCandidatePositionBytes then Inl (PlanStoreError ErrWorkLimit) else Inr out)"
proof -
  let ?parts = "map field_code gs @ [field_code (id_field i)]" and ?os = "orderComponents (EffectiveOrder m)"
  have "map_result (position_part m ?parts ((fill_map (zip (map FieldName (Fields t)) ?parts))(''id'' \<mapsto> List.last ?parts))) os =
      Inr (map (\<lambda>o'. field_code (component_field t gs i o')) os)" if "list_all (order_found t) os" for os
    using that by (induction os) (simp_all add: position_part_eq [OF t _ gs m, simplified])
  from this [OF found] show ?thesis
    using tupleParts_key [OF index_tuple_encodable [OF gs]] index_tuple_len [OF gs]
    by (simp add: position_def index_key_def m Let_def tuple_key_def comp_def)
qed

section \<open>Order of positions\<close>

lemma key_compare:
  assumes "list_all2 alike_fields xs ys"
  shows "bytes_compare (tuple_key xs) (tuple_key ys) = lex_compare field_compare xs ys 0"
  using fields.tuple_compare [OF assms, of "[]" "[]"] by (simp add: tuple_key_def bytes_compare_def [of "[]" "[]"])

lemma lex_compare_filter:
  assumes "\<forall>o' \<in> set os. \<not> V o' \<longrightarrow> c (F o') (F' o') = 0"
  shows "lex_compare c (map F os @ xs) (map F' os @ ys) d = lex_compare c (map F (filter V os) @ xs) (map F' (filter V os) @ ys) d"
  using assms by (induction os) auto

lemma lex_compare_append:
  "length xs = length ys \<Longrightarrow> lex_compare c (xs @ us) (ys @ vs) d = lex_compare c xs ys (lex_compare c us vs d)"
  by (induction xs ys rule: list_induct2) auto

lemma lex_compare_repeat: "length xs = length ys \<Longrightarrow> lex_compare c (xs @ [x, x]) (ys @ [y, y]) d = lex_compare c (xs @ [x]) (ys @ [y]) d"
  by (simp add: lex_compare_append)

lemma lex_compare_zero: "length xs = length ys \<Longrightarrow> \<forall>j < length xs. c (xs ! j) (ys ! j) = 0 \<Longrightarrow> lex_compare c xs ys d = d"
proof (induction xs ys rule: list_induct2)
  case (Cons x xs y ys)
  have "c x y = 0" using spec [OF Cons.prems, of 0] by simp
  moreover have "c (xs ! j) (ys ! j) = 0" if "j < length xs" for j using spec [OF Cons.prems, of "Suc j"] that by simp
  ultimately show ?case using Cons.IH by simp
qed simp

text \<open>
  A metadata record as the compiler leaves it: every order component is found in the template, and the
  components it does not fix are the remaining dimensions in order.
\<close>

definition meta_ok :: "candidate_metadata \<Rightarrow> nat \<Rightarrow> bool" where
  "meta_ok m k \<longleftrightarrow> distinct (map FieldName (Fields (MetaTemplate m))) \<and> k \<le> length (Fields (MetaTemplate m)) \<and>
     order_served (MetaTemplate m) k (EffectiveOrder m)"

lemma meta_ok_found: "meta_ok m k \<Longrightarrow> list_all (order_found (MetaTemplate m)) (orderComponents (EffectiveOrder m))"
  by (simp add: meta_ok_def order_served_def)

lemma remaining_split:
  fixes t k
  defines "r \<equiv> remaining_fields t k"
  assumes "k \<le> length (Fields t)"
  shows "r = take (length r) (drop k (Fields t))"
    and "length r = length (Fields t) - k \<or>
      length r = length (Fields t) - k - 1 \<and> k < length (Fields t) \<and> FieldName (List.last (Fields t)) = ''id'' \<and>
        fieldDirection (List.last (Fields t)) = Asc"
  using assms by (auto simp: remaining_fields_def Let_def butlast_conv_take min_def)

text \<open>The free fields of a tuple are the components the order does not fix, then perhaps the id once more.\<close>

lemma free_fields:
  assumes ok: "meta_ok m k" and gs: "index_tuple (MetaTemplate m) gs i"
  defines "F \<equiv> component_field (MetaTemplate m) gs i"
  defines "vs \<equiv> variable_order (MetaTemplate m) k (EffectiveOrder m)"
  shows "length vs = length (remaining_fields (MetaTemplate m) k)"
    and "map F vs = take (length vs) (drop k gs)"
    and "drop k gs = map F vs \<or> drop k gs = map F vs @ [id_field i]"
proof -
  let ?t = "MetaTemplate m"
  let ?r = "remaining_fields ?t k"
  have t: "distinct (map FieldName (Fields ?t))" and k: "k \<le> length (Fields ?t)"
    and served: "map (\<lambda>o'. (OrdField o', OrdDirection o')) vs = map (\<lambda>f. (FieldName f, fieldDirection f)) ?r"
    using ok by (simp_all add: meta_ok_def order_served_def vs_def)
  note len = index_tuple_len [OF gs]
  show n: "length vs = length ?r" using arg_cong [OF served, of length] by simp
  note split = remaining_split [OF k]
  have "F (vs ! j) = gs ! (k + j)" if j: "j < length vs" for j
  proof -
    have "OrdField (vs ! j) = FieldName (?r ! j)" using arg_cong [OF served, of "\<lambda>l. fst (l ! j)"] j n by simp
    also have "?r ! j = take (length ?r) (drop k (Fields ?t)) ! j" by (rule arg_cong [OF split(1)])
    also have "\<dots> = Fields ?t ! (k + j)" using j n k by simp
    finally show ?thesis
      using component_at [OF t len] j n split(2) k unfolding F_def by auto
  qed
  then show m: "map F vs = take (length vs) (drop k gs)"
    using split(2) n len k by (intro nth_equalityI) auto
  show "drop k gs = map F vs \<or> drop k gs = map F vs @ [id_field i]"
  proof (cases "length vs = length gs - k")
    case True
    then show ?thesis using m by simp
  next
    case False
    then have last: "length vs = length gs - k - 1" "k < length gs" "FieldName (List.last (Fields ?t)) = ''id''"
      "fieldDirection (List.last (Fields ?t)) = Asc" using split(2) n len by auto
    have "List.last (Fields ?t) = Fields ?t ! (length gs - 1)" using last(2) len by (metis last_conv_nth length_0_conv not_less0)
    then have "gs ! (length gs - 1) = id_field i"
      using gs last len by (simp add: index_tuple_def id_field_value)
    moreover have "drop k gs = take (length vs) (drop k gs) @ [gs ! (length gs - 1)]"
      using last(1,2) by (intro nth_equalityI) (auto simp: nth_append min_def intro!: arg_cong [of _ _ "nth gs"])
    ultimately show ?thesis using m by simp
  qed
qed

text \<open>Two tuples with the same fixed fields compare as their positions do.\<close>

definition fixed_names :: "candidate_metadata \<Rightarrow> nat \<Rightarrow> string set" where
  "fixed_names m k = FieldName ` set (take k (Fields (MetaTemplate m)))"

definition order_fields :: "candidate_metadata \<Rightarrow> order_field list \<Rightarrow> string \<Rightarrow> order_field list" where
  "order_fields m gs i = map (component_field (MetaTemplate m) gs i) (orderComponents (EffectiveOrder m))"

lemma index_key_split: "index_key gs i = tuple_key gs @ field_code (id_field i)"
  by (simp add: index_key_def tuple_key_def)

lemma index_alike: "index_tuple t gs i \<Longrightarrow> index_tuple t gs' i' \<Longrightarrow> list_all2 alike_fields (gs @ [id_field i]) (gs' @ [id_field i'])"
  using tuple_for_alike by (auto simp: index_tuple_def list_all2_snoc alike_fields_def id_field_def)

lemma order_alike:
  assumes "meta_ok m k" and gs: "index_tuple (MetaTemplate m) gs i" "index_tuple (MetaTemplate m) gs' i'"
  shows "list_all2 alike_fields (order_fields m gs i @ [id_field i]) (order_fields m gs' i' @ [id_field i'])"
proof -
  have t: "distinct (map FieldName (Fields (MetaTemplate m)))" using assms(1) by (simp add: meta_ok_def)
  have "list_all2 alike_fields (map (component_field (MetaTemplate m) gs i) os) (map (component_field (MetaTemplate m) gs' i') os)"
    if "list_all (order_found (MetaTemplate m)) os" for os
    using that component_alike [OF t _ gs(1)] component_alike [OF t _ gs(2)]
    by (induction os) (simp_all add: alike_fields_def)
  then show ?thesis
    using meta_ok_found [OF assms(1)] gs by (simp add: order_fields_def list_all2_snoc alike_fields_def index_tuple_def) (simp add: id_field_def)
qed

lemma compare_free:
  assumes ok: "meta_ok m k" and gs: "index_tuple (MetaTemplate m) gs i" "index_tuple (MetaTemplate m) gs' i'"
    and same: "\<forall>o' \<in> set (orderComponents (EffectiveOrder m)). OrdField o' \<in> fixed_names m k \<longrightarrow>
      field_compare (component_field (MetaTemplate m) gs i o') (component_field (MetaTemplate m) gs' i' o') = 0"
  shows "lex_compare field_compare (order_fields m gs i @ [id_field i]) (order_fields m gs' i' @ [id_field i']) 0 =
    lex_compare field_compare (drop k gs @ [id_field i]) (drop k gs' @ [id_field i']) 0"
proof -
  let ?vs = "variable_order (MetaTemplate m) k (EffectiveOrder m)"
  let ?F = "component_field (MetaTemplate m) gs i" and ?G = "component_field (MetaTemplate m) gs' i'"
  have "lex_compare field_compare (order_fields m gs i @ [id_field i]) (order_fields m gs' i' @ [id_field i']) 0 =
      lex_compare field_compare (map ?F ?vs @ [id_field i]) (map ?G ?vs @ [id_field i']) 0"
    unfolding order_fields_def variable_order_def
    by (rule lex_compare_filter) (use same in \<open>auto simp: fixed_names_def\<close>)
  moreover have "length (drop k gs) = length (drop k gs')" using index_tuple_len gs by simp
  then have "(drop k gs = map ?F ?vs \<and> drop k gs' = map ?G ?vs) \<or>
      (drop k gs = map ?F ?vs @ [id_field i] \<and> drop k gs' = map ?G ?vs @ [id_field i'])"
    using free_fields(3) [OF ok gs(1)] free_fields(3) [OF ok gs(2)] by (metis length_append_singleton length_map n_not_Suc_n)
  ultimately show ?thesis using lex_compare_repeat [of "map ?F ?vs" "map ?G ?vs"] by auto
qed

lemma fixed_component:
  assumes ok: "meta_ok m k" and gs: "index_tuple (MetaTemplate m) gs i" and o': "OrdField o' \<in> fixed_names m k"
  obtains j where "j < k" "OrdField o' = FieldName (Fields (MetaTemplate m) ! j)"
    "component_field (MetaTemplate m) gs i o' = gs ! j"
proof -
  let ?d = "Fields (MetaTemplate m)"
  obtain j where j: "j < k" "j < length ?d" "OrdField o' = FieldName (?d ! j)"
    using o' by (auto simp: fixed_names_def in_set_conv_nth)
  moreover have "component_field (MetaTemplate m) gs i o' = gs ! j"
    using component_at [OF _ index_tuple_len [OF gs] j(2,3)] ok by (simp add: meta_ok_def)
  ultimately show thesis using that by blast
qed

lemma same_code_compare: "alike_fields x y \<Longrightarrow> field_code x = field_code y \<longleftrightarrow> field_compare x y = 0"
  using fields.code_compare [of x y] by (auto simp: bytes_compare_def split: if_splits)

lemma index_alike_nth:
  assumes "index_tuple t gs i" and "index_tuple t gs' i'" and "j < length (Fields t)"
  shows "alike_fields (gs ! j) (gs' ! j)"
  using assms by (simp add: index_tuple_def tuple_for_def list_all2_conv_all_nth alike_fields_def)

lemma positions_compare:
  assumes ok: "meta_ok m k" and gs: "index_tuple (MetaTemplate m) gs i" "index_tuple (MetaTemplate m) gs' i'"
    and fixed: "map field_code (take k gs) = map field_code (take k gs')"
  shows "bytes_compare (tuple_key (order_fields m gs i @ [id_field i])) (tuple_key (order_fields m gs' i' @ [id_field i'])) =
    bytes_compare (index_key gs i) (index_key gs' i')"
proof -
  let ?d = "Fields (MetaTemplate m)"
  note len = index_tuple_len [OF gs(1)] index_tuple_len [OF gs(2)]
  have k: "k \<le> length ?d" using ok by (simp add: meta_ok_def)
  have zero: "field_compare (gs ! j) (gs' ! j) = 0" if "j < k" for j
    using arg_cong [OF fixed, of "\<lambda>l. l ! j"] that k len same_code_compare [OF index_alike_nth [OF gs, of j]] by simp
  have "lex_compare field_compare (order_fields m gs i @ [id_field i]) (order_fields m gs' i' @ [id_field i']) 0 =
    lex_compare field_compare (drop k gs @ [id_field i]) (drop k gs' @ [id_field i']) 0"
  proof (rule compare_free [OF ok gs], intro ballI impI)
    fix o' :: plan_order assume "OrdField o' \<in> fixed_names m k"
    then obtain j where j: "j < k" "OrdField o' = FieldName (?d ! j)" "component_field (MetaTemplate m) gs i o' = gs ! j"
      using fixed_component [OF ok gs(1)] by blast
    then have "component_field (MetaTemplate m) gs' i' o' = gs' ! j"
      using component_at [OF _ len(2)] ok by (auto simp: meta_ok_def)
    then show "field_compare (component_field (MetaTemplate m) gs i o') (component_field (MetaTemplate m) gs' i' o') = 0"
      using zero j by simp
  qed
  also have "\<dots> = lex_compare field_compare (take k gs @ (drop k gs @ [id_field i])) (take k gs' @ (drop k gs' @ [id_field i'])) 0"
    using lex_compare_append [of "take k gs" "take k gs'"] lex_compare_zero [of "take k gs" "take k gs'"] zero len k by simp
  finally show ?thesis
    using key_compare [OF index_alike [OF gs]] key_compare [OF order_alike [OF ok gs]]
    by (simp add: index_key_def) (simp flip: append_assoc)
qed

section \<open>From a position back to a posting key\<close>

lemma distinct_orderComponents: "distinct (map OrdField order) \<Longrightarrow> distinct (map OrdField (orderComponents order))"
  by (simp add: orderComponents_def map_butlast distinct_butlast)

lemma distinct_effective:
  assumes "distinct (map FieldName (Fields t))" and "distinct (map OrdField requested)"
  shows "distinct (map OrdField (effective_order t requested))"
proof -
  have "distinct (map OrdField [\<lparr>OrdField = FieldName f, OrdDirection = fieldDirection f\<rparr>. f \<leftarrow> fs, FieldMode f \<noteq> Membership])"
    if "distinct (map FieldName fs)" for fs
    using that by (induction fs) (auto simp: image_iff split: if_splits)
  then show ?thesis
    using assms by (auto simp: effective_order_def Let_def list_ex_iff)
qed

lemma concat_parts_all:
  "list_all2 (\<lambda>name p. values name = Some p) names ps \<Longrightarrow> concat_parts values names key = Inr (key @ concat ps)"
  by (induction names ps arbitrary: key rule: list_all2_induct) simp_all

lemma in_last: "x \<in> set xs \<Longrightarrow> x \<notin> set (butlast xs) \<Longrightarrow> x = List.last xs"
  by (cases xs rule: rev_cases) auto

lemma posting_values:
  assumes ok: "meta_ok m k" and gs: "index_tuple (MetaTemplate m) gs i" and d: "distinct (map OrdField (EffectiveOrder m))"
    and j: "k \<le> j" "j < length (Fields (MetaTemplate m))"
  defines "filled \<equiv> fill_map (zip (map OrdField (orderComponents (EffectiveOrder m)))
      (map field_code (order_fields m gs i) @ [field_code (id_field i)]))"
  shows "(if filled ''id'' = None then filled(''id'' \<mapsto> field_code (id_field i)) else filled) (FieldName (Fields (MetaTemplate m) ! j)) =
    Some (field_code (gs ! j))"
proof -
  let ?os = "orderComponents (EffectiveOrder m)" and ?t = "MetaTemplate m"
  let ?F = "component_field ?t gs i" and ?name = "FieldName (Fields ?t ! j)"
  have t: "distinct (map FieldName (Fields ?t))" using ok by (simp add: meta_ok_def)
  have len: "length (order_fields m gs i) = length ?os" by (simp add: order_fields_def)
  have filled: "filled = map_of (zip (map OrdField ?os) (map field_code (order_fields m gs i)))"
    using fill_map_zip [OF distinct_orderComponents [OF d], of "map field_code (order_fields m gs i) @ [field_code (id_field i)]"] len
    by (simp add: filled_def zip_append2)
  have at: "filled (OrdField o') = Some (field_code (?F o'))" if o': "o' \<in> set ?os" for o'
  proof -
    obtain n where n: "n < length ?os" "?os ! n = o'" using o' by (auto simp: in_set_conv_nth)
    then show ?thesis
      using map_of_zip_nth [of "map OrdField ?os" "map field_code (order_fields m gs i)" n] distinct_orderComponents [OF d] len
      by (simp add: filled order_fields_def)
  qed
  have same: "?F o' = gs ! j" if "OrdField o' = ?name" for o'
    using component_at [OF t index_tuple_len [OF gs] j(2) that] .
  show ?thesis
  proof (cases "\<exists>o' \<in> set ?os. OrdField o' = ?name")
    case True
    then have "filled ?name = Some (field_code (gs ! j))" using at same by metis
    then show ?thesis by (auto split: if_splits)
  next
    case False
    then have absent: "?name \<notin> set (map OrdField ?os)" by auto
    then have none: "filled ?name = None" unfolding filled map_of_eq_None_iff by (metis imageE prod.collapse set_zip_leftD)
    have "Fields ?t ! j \<notin> set (remaining_fields ?t k)"
    proof
      assume "Fields ?t ! j \<in> set (remaining_fields ?t k)"
      then have "(?name, fieldDirection (Fields ?t ! j)) \<in> set (map (\<lambda>f. (FieldName f, fieldDirection f)) (remaining_fields ?t k))" by auto
      also have "\<dots> = set (map (\<lambda>o'. (OrdField o', OrdDirection o')) (variable_order ?t k (EffectiveOrder m)))"
        using ok by (simp add: meta_ok_def order_served_def)
      finally show False using absent by (auto simp: variable_order_def)
    qed
    moreover have "Fields ?t ! j \<in> set (drop k (Fields ?t))" using j by (auto simp: in_set_conv_nth intro!: exI [of _ "j - k"])
    ultimately have "?name = ''id'' \<and> fieldDirection (Fields ?t ! j) = Asc"
      using in_last [of "Fields ?t ! j" "drop k (Fields ?t)"]
      by (simp only: remaining_fields_def Let_def split: if_splits) force+
    then show ?thesis using none gs j by (simp add: index_tuple_def id_field_value)
  qed
qed

lemma length_order_fields: "length (order_fields m gs i) = length (orderComponents (EffectiveOrder m))"
  by (simp add: order_fields_def)

lemma PostingKey_eq:
  assumes ok: "meta_ok m k" and gs: "index_tuple (MetaTemplate m) gs i" and d: "distinct (map OrdField (EffectiveOrder m))"
    and b: "n < length (Branches m)" "FixedFields (Branches m ! n) = k"
    and p: "Position g = tuple_key (order_fields m gs i @ [id_field i])"
  shows "PostingKey m g (int n) = Inr (Prefix (Branches m ! n) @ concat (map field_code (drop k gs)) @ field_code (id_field i))"
proof -
  let ?t = "MetaTemplate m" and ?os = "orderComponents (EffectiveOrder m)"
  let ?parts = "map field_code (order_fields m gs i) @ [field_code (id_field i)]"
  have "list_all encodable (order_fields m gs i @ [id_field i])"
    using order_alike [OF ok gs gs] by (auto simp: list_all2_conv_all_nth list_all_length alike_fields_def)
  then have parts: "tupleParts (Position g) = Inr ?parts" unfolding p by (simp only: tupleParts_key map_append list.map)
  define filled where "filled = fill_map (zip (map OrdField ?os) ?parts)"
  have "list_all2 (\<lambda>name p. (if filled ''id'' = None then filled(''id'' \<mapsto> field_code (id_field i)) else filled) name = Some p)
      (map FieldName (drop k (Fields ?t))) (map field_code (drop k gs))"
    unfolding list_all2_conv_all_nth filled_def
  proof (intro conjI allI impI)
    fix j assume "j < length (map FieldName (drop k (Fields ?t)))"
    then show "(if fill_map (zip (map OrdField ?os) ?parts) ''id'' = None
        then (fill_map (zip (map OrdField ?os) ?parts))(''id'' \<mapsto> field_code (id_field i))
        else fill_map (zip (map OrdField ?os) ?parts)) (map FieldName (drop k (Fields ?t)) ! j) = Some (map field_code (drop k gs) ! j)"
      using posting_values [OF ok gs d, of "k + j"] index_tuple_len [OF gs] by simp
  qed (use index_tuple_len [OF gs] in simp)
  note all = concat_parts_all [OF this]
  show ?thesis
    using b all [of "Prefix (Branches m ! n)"]
    by (simp add: PostingKey_def parts Let_def filled_def [symmetric] length_order_fields split del: if_split)
qed

section \<open>Resuming a branch\<close>

text \<open>Where the walk of \<open>seek_branch\<close> stops, for the fixed components \<open>fx\<close> and the fields of two tuples.\<close>

lemma seek_branch_cases:
  assumes "\<forall>o' \<in> set os. fx (OrdField o') = (if V o' then None else Some (field_code (F o')))"
    and "\<forall>o' \<in> set os. alike_fields (F o') (G o')"
  shows "(seek_branch fx (zip os (map (\<lambda>o'. field_code (G o')) os @ rest)) seek = None \<and>
      (\<forall>o' \<in> set os. \<not> V o' \<longrightarrow> field_compare (F o') (G o') = 0)) \<or>
    (\<exists>os1 o' os2. os = os1 @ o' # os2 \<and> (\<forall>x \<in> set os1. \<not> V x \<longrightarrow> field_compare (F x) (G x) = 0) \<and>
      \<not> V o' \<and> field_compare (F o') (G o') \<noteq> 0 \<and>
      seek_branch fx (zip os (map (\<lambda>o'. field_code (G o')) os @ rest)) seek =
        Some (let s = seek @ concat (map (\<lambda>x. field_code (G x)) (filter V os1))
              in if field_compare (F o') (G o') < 0 then PrefixSuccessor s else Some s))"
  using assms
proof (induction os arbitrary: seek)
  case (Cons o' os)
  have fx': "fx (OrdField x) = (if V x then None else Some (field_code (F x)))" "alike_fields (F x) (G x)"
    if "x \<in> set os" for x using Cons.prems that by simp_all
  have head: "fx (OrdField o') = (if V o' then None else Some (field_code (F o')))"
    "bytes_compare (field_code (F o')) (field_code (G o')) = field_compare (F o') (G o')"
    using Cons.prems fields.code_compare by simp_all
  let ?stop = "\<lambda>os seek. \<exists>os1 o' os2. os = os1 @ o' # os2 \<and> (\<forall>x \<in> set os1. \<not> V x \<longrightarrow> field_compare (F x) (G x) = 0) \<and>
      \<not> V o' \<and> field_compare (F o') (G o') \<noteq> 0 \<and>
      seek_branch fx (zip os (map (\<lambda>o'. field_code (G o')) os @ rest)) seek =
        Some (let s = seek @ concat (map (\<lambda>x. field_code (G x)) (filter V os1))
              in if field_compare (F o') (G o') < 0 then PrefixSuccessor s else Some s)"
  show ?case
  proof (cases "\<not> V o' \<and> field_compare (F o') (G o') \<noteq> 0")
    case True
    then have "?stop (o' # os) seek" using head by (intro exI [of _ "[]"] exI [of _ o'] exI [of _ os]) (auto simp: Let_def)
    then show ?thesis by blast
  next
    case False
    define seek' where "seek' = (if V o' then seek @ field_code (G o') else seek)"
    have step: "seek_branch fx (zip (o' # os) (map (\<lambda>o'. field_code (G o')) (o' # os) @ rest)) seek =
        seek_branch fx (zip os (map (\<lambda>o'. field_code (G o')) os @ rest)) seek'"
      using False head by (auto simp: seek'_def)
    have "(seek_branch fx (zip os (map (\<lambda>o'. field_code (G o')) os @ rest)) seek' = None \<and>
        (\<forall>o' \<in> set os. \<not> V o' \<longrightarrow> field_compare (F o') (G o') = 0)) \<or> ?stop os seek'"
      by (rule Cons.IH) (simp_all add: fx')
    then show ?thesis
    proof (elim disjE conjE)
      assume "seek_branch fx (zip os (map (\<lambda>o'. field_code (G o')) os @ rest)) seek' = None"
        "\<forall>o' \<in> set os. \<not> V o' \<longrightarrow> field_compare (F o') (G o') = 0"
      then show ?thesis using step False by auto
    next
      assume "?stop os seek'"
      then obtain os1 p os2 where "os = os1 @ p # os2" "\<forall>x \<in> set os1. \<not> V x \<longrightarrow> field_compare (F x) (G x) = 0"
        "\<not> V p" "field_compare (F p) (G p) \<noteq> 0"
        "seek_branch fx (zip os (map (\<lambda>o'. field_code (G o')) os @ rest)) seek' =
          Some (let s = seek' @ concat (map (\<lambda>x. field_code (G x)) (filter V os1))
              in if field_compare (F p) (G p) < 0 then PrefixSuccessor s else Some s)" by blast
      then have "?stop (o' # os) seek"
        unfolding step using False by (intro exI [of _ "o' # os1"] exI [of _ p] exI [of _ os2]) (auto simp: seek'_def)
      then show ?thesis by blast
    qed
  qed
qed simp

definition scan_admits :: "search_options \<Rightarrow> bytes \<Rightarrow> bool" where
  "scan_admits opts key \<longleftrightarrow> (case Lower opts of None \<Rightarrow> True | Some lo \<Rightarrow> lo \<le> key) \<and>
     (case Upper opts of None \<Rightarrow> True | Some hi \<Rightarrow> key < hi) \<and>
     (case StartAfter opts of None \<Rightarrow> True | Some s \<Rightarrow> s < key)"

lemma lex_compare_pos:
  assumes "length xs = length ys"
  shows "d > 0 \<Longrightarrow> lex_compare c xs ys d > 0 \<longleftrightarrow> lex_compare c xs ys 0 \<ge> 0"
    and "d < 0 \<Longrightarrow> lex_compare c xs ys d > 0 \<longleftrightarrow> lex_compare c xs ys 0 > 0"
    and "d > 0 \<Longrightarrow> lex_compare c xs ys d < 0 \<longleftrightarrow> lex_compare c xs ys 0 < 0"
  using assms by (induction xs ys rule: list_induct2) auto

text \<open>A key against a bound made of another tuple's leading fields.\<close>

lemma key_against_seek:
  assumes alike: "list_all2 alike_fields xs ys" and tail: "tail \<noteq> []" and p: "key_prefix pfx"
    and s: "PrefixSuccessor (pfx @ concat (map field_code ys)) = Some s"
  shows "pfx @ concat (map field_code ys) \<le> pfx @ concat (map field_code xs) @ tail \<longleftrightarrow> lex_compare field_compare xs ys 0 \<ge> 0"
    and "s \<le> pfx @ concat (map field_code xs) @ tail \<longleftrightarrow> lex_compare field_compare xs ys 0 > 0"
proof -
  let ?seek = "pfx @ concat (map field_code ys)" and ?key = "pfx @ concat (map field_code xs) @ tail"
  note len = list_all2_lengthD [OF alike]
  have "bytes_compare tail [] = 1" using tail by (cases tail) (auto simp: bytes_compare_def)
  then have c: "bytes_compare ?key ?seek = lex_compare field_compare xs ys 1"
    using fields.tuple_compare [OF alike, of tail "[]"] by simp
  show le: "?seek \<le> ?key \<longleftrightarrow> lex_compare field_compare xs ys 0 \<ge> 0"
  proof -
    have "?key < ?seek \<longleftrightarrow> lex_compare field_compare xs ys 0 < 0"
      using compare_sign(1) [of ?key ?seek] lex_compare_pos(3) [OF len, of 1 field_compare] unfolding c by (simp only: zero_less_one)
    then show ?thesis by (simp only: not_less [symmetric])
  qed
  have z: "bytes_compare (concat (map field_code xs)) (concat (map field_code ys)) = lex_compare field_compare xs ys 0"
    using fields.tuple_compare [OF alike, of "[]" "[]"] by (simp add: bytes_compare_def [of "[]" "[]"])
  have "(\<exists>r. ?key = ?seek @ r) \<longleftrightarrow> map field_code xs = map field_code ys"
  proof
    assume "\<exists>r. ?key = ?seek @ r"
    then obtain r where "concat (map field_code xs) @ tail = concat (map field_code ys) @ r" by auto
    then show "map field_code xs = map field_code ys" unfolding codes_inject [OF alike] by simp
  qed simp
  also have "\<dots> \<longleftrightarrow> lex_compare field_compare xs ys 0 = 0"
    unfolding z [symmetric] using codes_inject [OF alike, of "[]" "[]"] by (simp add: bytes_compare_def)
  finally have ext: "(\<exists>r. ?key = ?seek @ r) \<longleftrightarrow> lex_compare field_compare xs ys 0 = 0" .
  have range: "?seek \<le> ?key \<and> ?key < s \<longleftrightarrow> (\<exists>r. ?key = ?seek @ r)" by (rule PrefixSuccessor_range [OF s])
  have "?seek < s" using PrefixSuccessor_range [OF s, of ?seek] by auto
  then have "s \<le> ?key \<Longrightarrow> ?seek \<le> ?key" by (meson less_le_trans less_imp_le)
  then have "s \<le> ?key \<longleftrightarrow> ?seek \<le> ?key \<and> \<not> ?key < s" unfolding not_less by blast
  also have "\<dots> \<longleftrightarrow> ?seek \<le> ?key \<and> \<not> (\<exists>r. ?key = ?seek @ r)" using range by blast
  also have "\<dots> \<longleftrightarrow> lex_compare field_compare xs ys 0 > 0" unfolding ext le by linarith
  finally show "s \<le> ?key \<longleftrightarrow> lex_compare field_compare xs ys 0 > 0" .
qed

lemma prefix_values:
  assumes ok: "meta_ok m k" and gs: "index_tuple (MetaTemplate m) gs i" and o': "o' \<in> set (orderComponents (EffectiveOrder m))"
  shows "fill_map (zip (map FieldName (Fields (MetaTemplate m))) (map field_code (take k gs))) (OrdField o') =
    (if OrdField o' \<notin> fixed_names m k then None else Some (field_code (component_field (MetaTemplate m) gs i o')))"
proof -
  let ?d = "Fields (MetaTemplate m)"
  have d: "distinct (map FieldName ?d)" and k: "k \<le> length ?d" using ok by (simp_all add: meta_ok_def)
  note len = index_tuple_len [OF gs]
  have zip: "zip (map FieldName ?d) (map field_code (take k gs)) = zip (map FieldName (take k ?d)) (map field_code (take k gs))"
    using zip_append1 [of "map FieldName (take k ?d)" "map FieldName (drop k ?d)" "map field_code (take k gs)"] k len
    by (simp flip: map_append)
  have dt: "distinct (map FieldName (take k ?d))" using d by (metis distinct_take take_map)
  have m: "fill_map (zip (map FieldName ?d) (map field_code (take k gs))) = map_of (zip (map FieldName (take k ?d)) (map field_code (take k gs)))"
    unfolding zip by (rule fill_map_zip [OF dt]) (use k len in simp)
  show ?thesis
  proof (cases "OrdField o' \<in> fixed_names m k")
    case True
    then obtain j where "j < k" "OrdField o' = FieldName (?d ! j)" "component_field (MetaTemplate m) gs i o' = gs ! j"
      using fixed_component [OF ok gs] by blast
    then show ?thesis
      using map_of_zip_nth [of "map FieldName (take k ?d)" "map field_code (take k gs)" j] dt k len True by (simp add: m)
  next
    case False
    then have "map_of (zip (map FieldName (take k ?d)) (map field_code (take k gs))) (OrdField o') = None"
      using k len by (subst map_of_zip_is_None) (simp_all add: fixed_names_def)
    then show ?thesis using False by (simp add: m)
  qed
qed

lemma lex_compare_stop:
  assumes "length xs = length ys" and "c x y \<noteq> 0"
  shows "lex_compare c (xs @ x # us) (ys @ y # vs) d > 0 \<longleftrightarrow>
    (if c x y < 0 then lex_compare c xs ys 0 > 0 else lex_compare c xs ys 0 \<ge> 0)"
  using lex_compare_append [OF assms(1), of c "x # us" "y # vs" d] lex_compare_pos(1,2) [OF assms(1), of "c x y" c] assms(2)
  by auto

lemma take_prefix: "xs @ ys = take n zs \<Longrightarrow> xs = take (length xs) zs"
proof -
  assume a: "xs @ ys = take n zs"
  have "length xs + length ys = min (length zs) n" using arg_cong [OF a, of length] by (simp only: length_append length_take)
  then have "length xs \<le> n" by simp
  then have "take (length xs) zs = take (length xs) (take n zs)" by (simp add: min_absorb1)
  then show ?thesis by (simp add: a [symmetric])
qed

lemma max_bound: "(if lo < low then low \<le> key else lo \<le> key) \<longleftrightarrow> lo \<le> key \<and> low \<le> (key :: bytes)"
  by (auto simp: not_less intro: order_trans less_imp_le)

lemma scan_resume:
  assumes ok: "meta_ok m k" and d: "distinct (map OrdField (EffectiveOrder m))"
    and n: "n < length (Branches m)" "FixedFields (Branches m ! n) = k" "Prefix (Branches m ! n) = tuple_key (take k gs)"
    and gs: "index_tuple (MetaTemplate m) gs i" "index_tuple (MetaTemplate m) gs' i'"
    and after: "after = tuple_key (order_fields m gs' i' @ [id_field i'])"
    and opts: "scanOptions m n after = Inr opts"
  shows "scan_admits opts (index_key gs i) \<longleftrightarrow> in_branch (index_key gs i) (Branches m ! n) \<and>
    after < tuple_key (order_fields m gs i @ [id_field i])"
proof -
  let ?t = "MetaTemplate m" and ?os = "orderComponents (EffectiveOrder m)" and ?b = "Branches m ! n"
  let ?F = "component_field ?t gs i" and ?G = "component_field ?t gs' i'" and ?V = "\<lambda>o'. OrdField o' \<notin> fixed_names m k"
  let ?fx = "fill_map (zip (map FieldName (Fields ?t)) (map field_code (take k gs)))"
  let ?key = "index_key gs i" and ?parts = "map (\<lambda>o'. field_code (?G o')) ?os @ [field_code (id_field i')]"
  have t: "distinct (map FieldName (Fields ?t))" using ok by (simp add: meta_ok_def)
  have alike: "\<forall>o' \<in> set ?os. alike_fields (?F o') (?G o')"
    using component_alike [OF t _ gs(1)] component_alike [OF t _ gs(2)] meta_ok_found [OF ok]
    by (simp add: list_all_iff alike_fields_def)
  have fx: "\<forall>o' \<in> set ?os. ?fx (OrdField o') = (if ?V o' then None else Some (field_code (?F o')))"
    using prefix_values [OF ok gs(1)] by blast
  have enc: "list_all encodable (order_fields m gs' i' @ [id_field i'])"
    using order_alike [OF ok gs(2) gs(2)] by (auto simp: list_all2_conv_all_nth list_all_length alike_fields_def)
  have parts: "tupleParts after = Inr ?parts"
    unfolding after tupleParts_key [OF enc] by (simp add: order_fields_def)
  have "list_all encodable (take k gs)"
    using index_tuple_encodable [OF gs(1)] by (auto simp: list_all_iff dest: in_set_takeD)
  note prefix_parts = tupleParts_key [OF this]
  have ne: "after \<noteq> []" by (simp add: after tuple_key_def)
  have cmp: "after < tuple_key (order_fields m gs i @ [id_field i]) \<longleftrightarrow>
      lex_compare field_compare (order_fields m gs i @ [id_field i]) (order_fields m gs' i' @ [id_field i']) 0 > 0"
    using compare_sign(2) [of "tuple_key (order_fields m gs i @ [id_field i])" after] key_compare [OF order_alike [OF ok gs]]
    by (simp add: after)
  have key: "?key = tuple_key (take k gs) @ concat (map field_code (drop k gs)) @ field_code (id_field i)"
    by (simp add: index_key_def tuple_key_def) (metis append_assoc append_take_drop_id concat_append map_append)
  have free_alike: "list_all2 alike_fields (drop k gs @ [id_field i]) (drop k gs' @ [id_field i'])"
    using index_alike [OF gs] index_tuple_len [OF gs(1)] index_tuple_len [OF gs(2)]
    by (simp add: list_all2_snoc)
  show ?thesis
    using seek_branch_cases [of ?os ?fx ?V ?F ?G "[field_code (id_field i')]" "Prefix ?b", OF fx alike]
  proof (elim disjE conjE exE)
    assume none: "seek_branch ?fx (zip ?os ?parts) (Prefix ?b) = None"
      and same: "\<forall>o' \<in> set ?os. \<not> ?V o' \<longrightarrow> field_compare (?F o') (?G o') = 0"
    let ?start = "Prefix ?b @ concat (map field_code (drop k gs')) @ field_code (id_field i')"
    have "PostingKey m \<lparr>GroupID = '''', Position = after, GroupBranches = []\<rparr> (int n) = Inr ?start"
      using PostingKey_eq [OF ok gs(2) d n(1,2)] by (simp add: after)
    then have o: "opts = \<lparr>Lower = (if BranchLower ?b = [] then None else Some (BranchLower ?b)), Upper = BranchUpper ?b,
        StartAfter = Some ?start, Limit = 0\<rparr>"
      using opts ne none by (simp add: scanOptions_def parts n(3) prefix_parts Let_def)
    have "?start < ?key \<longleftrightarrow> lex_compare field_compare (drop k gs @ [id_field i]) (drop k gs' @ [id_field i']) 0 > 0"
      using compare_sign(2) [of ?key ?start] fields.tuple_compare [OF free_alike, of "[]" "[]"]
      by (simp add: key n(3) bytes_compare_def [of "[]" "[]"])
    also have "\<dots> \<longleftrightarrow> after < tuple_key (order_fields m gs i @ [id_field i])"
      unfolding cmp using compare_free [OF ok gs] same by simp
    finally show ?thesis by (auto simp: scan_admits_def o in_branch_def within_def)
  next
    fix os1 o' os2
    assume os: "?os = os1 @ o' # os2" and same: "\<forall>x \<in> set os1. \<not> ?V x \<longrightarrow> field_compare (?F x) (?G x) = 0"
      and o': "\<not> ?V o'" "field_compare (?F o') (?G o') \<noteq> 0"
      and some: "seek_branch ?fx (zip ?os ?parts) (Prefix ?b) =
        Some (let s = Prefix ?b @ concat (map (\<lambda>x. field_code (?G x)) (filter ?V os1))
              in if field_compare (?F o') (?G o') < 0 then PrefixSuccessor s else Some s)"
    define vs where "vs = filter ?V os1"
    let ?L = "lex_compare field_compare (map ?F vs) (map ?G vs) 0"
    let ?seek = "tuple_key (take k gs) @ concat (map field_code (map ?G vs))"
    let ?tail = "concat (map field_code (drop (length vs) (drop k gs))) @ field_code (id_field i)"
    have "variable_order ?t k (EffectiveOrder m) = vs @ filter ?V (o' # os2)"
      unfolding variable_order_def os vs_def fixed_names_def by simp
    then have "map ?F vs = take (length vs) (drop k gs)"
      using free_fields(2) [OF ok gs(1)] take_prefix [of "map ?F vs"] by (simp only: map_append length_append length_map)
    then have key': "?key = tuple_key (take k gs) @ concat (map field_code (map ?F vs)) @ ?tail"
      unfolding key append_assoc [symmetric] concat_append [symmetric] map_append [symmetric]
      using append_take_drop_id [of "length vs" "drop k gs"] by (simp only:)
    have tail: "?tail \<noteq> []" using index_tuple_encodable [OF gs(1)] by (auto elim: scan_field_code)
    have alike': "list_all2 alike_fields (map ?F vs) (map ?G vs)"
      using alike by (auto simp: vs_def os list_all2_conv_all_nth dest!: nth_mem)
    have p: "key_prefix (tuple_key (take k gs))" by (rule tuple_key_prefix)
    obtain s where s: "PrefixSuccessor ?seek = Some s" by (rule key_prefix_successor [OF p])
    note against = key_against_seek [OF alike' tail p s, folded key']
    have "lex_compare field_compare (order_fields m gs i @ [id_field i]) (order_fields m gs' i' @ [id_field i']) 0 > 0 \<longleftrightarrow>
        (if field_compare (?F o') (?G o') < 0 then lex_compare field_compare (map ?F os1) (map ?G os1) 0 > 0
         else lex_compare field_compare (map ?F os1) (map ?G os1) 0 \<ge> 0)"
      using lex_compare_stop [of "map ?F os1" "map ?G os1" field_compare "?F o'" "?G o'"] o'(2) by (simp add: order_fields_def os)
    also have "lex_compare field_compare (map ?F os1) (map ?G os1) 0 = ?L"
      using lex_compare_filter [of os1 ?V field_compare ?F ?G "[]" "[]" 0] same by (simp add: vs_def)
    finally have pos: "after < tuple_key (order_fields m gs i @ [id_field i]) \<longleftrightarrow>
        (if field_compare (?F o') (?G o') < 0 then ?L > 0 else ?L \<ge> 0)" unfolding cmp .
    define low where "low = (if field_compare (?F o') (?G o') < 0 then s else ?seek)"
    have "seek_branch ?fx (zip ?os ?parts) (Prefix ?b) = Some (Some low)"
      using some s by (simp add: low_def n(3) vs_def Let_def comp_def)
    then have o: "opts = (if bytes_compare low (BranchLower ?b) > 0
        then \<lparr>Lower = Some low, Upper = BranchUpper ?b, StartAfter = None, Limit = 0\<rparr>
        else \<lparr>Lower = (if BranchLower ?b = [] then None else Some (BranchLower ?b)), Upper = BranchUpper ?b, StartAfter = None, Limit = 0\<rparr>)"
      using opts ne by (auto simp: scanOptions_def parts n(3) prefix_parts Let_def)
    have "low \<le> ?key \<longleftrightarrow> after < tuple_key (order_fields m gs i @ [id_field i])"
      unfolding pos low_def using against by simp
    moreover have "scan_admits opts ?key \<longleftrightarrow> in_branch ?key ?b \<and> low \<le> ?key"
      using max_bound [of "BranchLower ?b" low ?key] unfolding o compare_sign
      by (simp add: scan_admits_def in_branch_def within_def split del: if_split) auto
    ultimately show ?thesis by simp
  qed
qed

section \<open>Compiled plans\<close>

lemma ValidateTemplate_distinct: "ValidateTemplate t = Inr () \<Longrightarrow> distinct (map FieldName (Fields t))"
  by (auto simp: ValidateTemplate_def validate_fields_iff split: if_splits)

lemma branch_intervals_shape:
  "branch_intervals t k filters b = Inr (bs, marked) \<Longrightarrow> b' \<in> set bs \<Longrightarrow> Prefix b' = Prefix b \<and> FixedFields b' = FixedFields b"
  by (auto simp: branch_intervals_def result_simps)

lemma seek_branch_some: "key_prefix seek \<Longrightarrow> seek_branch fx zs seek \<noteq> Some None"
proof (induction zs arbitrary: seek)
  case (Cons z zs)
  obtain o' part where z: "z = (o', part)" by fastforce
  have "key_prefix (seek @ part)" using Cons.prems by (simp add: key_prefix_def)
  moreover have "PrefixSuccessor seek \<noteq> None" using key_prefix_successor [OF Cons.prems, of "[]"] by auto
  ultimately show ?case using Cons by (auto simp: z Let_def split: option.splits)
qed simp

lemma scan_narrows:
  assumes p: "key_prefix (Prefix (Branches m ! n))" and opts: "scanOptions m n after = Inr opts" and key: "scan_admits opts key"
  shows "in_branch key (Branches m ! n)"
proof (cases "after = []")
  case True
  then show ?thesis using opts key by (auto simp: scanOptions_def scan_admits_def in_branch_def within_def Let_def split: if_splits)
next
  case False
  let ?b = "Branches m ! n"
  let ?base = "\<lparr>Lower = (if BranchLower ?b = [] then None else Some (BranchLower ?b)), Upper = BranchUpper ?b, StartAfter = None, Limit = 0\<rparr>"
  from opts False obtain fx zs where
    o: "(case seek_branch fx zs (Prefix ?b) of Some None \<Rightarrow> Inr (?base\<lparr>Lower := BranchUpper ?b\<rparr>)
        | Some (Some seek) \<Rightarrow> Inr (if bytes_compare seek (BranchLower ?b) > 0 then ?base\<lparr>Lower := Some seek\<rparr> else ?base)
        | None \<Rightarrow> bind_result (PostingKey m \<lparr>GroupID = '''', Position = after, GroupBranches = []\<rparr> (int n))
            (\<lambda>key. Inr (?base\<lparr>StartAfter := Some key\<rparr>))) = Inr opts"
    by (auto simp: scanOptions_def Let_def split: sum.splits if_splits)
  have ne: "seek_branch fx zs (Prefix ?b) \<noteq> Some None" by (rule seek_branch_some [OF p])
  then have "Upper opts = BranchUpper ?b \<and> (Lower opts = Lower ?base \<or> (\<exists>s. Lower opts = Some s \<and> BranchLower ?b < s))"
    using o by (auto simp: result_simps compare_sign split: option.splits if_splits)
  then show ?thesis using key by (auto simp: scan_admits_def in_branch_def within_def split: if_splits option.splits)
qed

lemma compile_meta:
  assumes t: "ValidateTemplate t = Inr ()" and fs: "candidateFilters pfs = Inr filters"
    and c: "compileCandidate hash digest t filters requested = Inr (m, access)"
  obtains k where "meta_ok m k" "MetaTemplate m = t" "EffectiveOrder m = effective_order t requested"
    "\<forall>b \<in> set (Branches m). FixedFields b = k \<and> key_prefix (Prefix b)"
    "\<forall>b \<in> set (Branches m). \<forall>gs rest. tuple_for (Fields t) gs \<longrightarrow> in_branch (tuple_key gs @ rest) b \<longrightarrow>
       Prefix b = tuple_key (take k gs)"
proof -
  let ?dims = "Fields t"
  note normal = candidateFilters_normal [OF fs]
  from c obtain st parts where st: "compile_fields filters 0 ?dims (initial_state filters) = Inr st"
    and "CompExceeded st \<longrightarrow> CompEmpty st"
    and "\<forall>f \<in> set (drop (CompFixed st) ?dims). FieldMode f \<noteq> Membership"
    and served: "order_served t (CompFixed st) (effective_order t requested)"
    and parts: "map_result (branch_intervals t (CompFixed st) filters) (CompBranches st) = Inr parts"
    and m: "Branches m = (if CompEmpty st then [] else concat (map fst parts))"
    and "Assignments m = mark_access (concat (map snd parts)) (CompAssign st)"
    and meta: "EffectiveOrder m = effective_order t requested" "MetaTemplate m = t"
    and "length (Branches m) \<le> MaxCandidateBranches" by (rule compileCandidateE)
  obtain k where k: "k \<le> length ?dims" and b: "branches_ok filters (take k ?dims) st"
    using compile_fields_ok [OF normal, of "[]" ?dims "initial_state filters" st] st branches_ok_initial assign_ok_initial by auto
  then have fixed: "CompFixed st = k" by (simp add: branches_ok_def)
  have each: "FixedFields b' = k \<and> key_prefix (Prefix b') \<and>
      (\<forall>gs rest. tuple_for ?dims gs \<longrightarrow> in_branch (tuple_key gs @ rest) b' \<longrightarrow> Prefix b' = tuple_key (take k gs))"
    if b': "b' \<in> set (Branches m)" for b'
  proof -
    obtain j where j: "j < length parts" "b' \<in> set (fst (parts ! j))"
      using b' by (simp add: m split: if_splits) (metis in_set_conv_nth)
    let ?b = "CompBranches st ! j"
    have j': "j < length (CompBranches st)" using j(1) map_result_Inr_length [OF parts] by simp
    have "FixedFields ?b = length (take k ?dims) \<and> (\<exists>hs. tuple_for (take k ?dims) hs \<and> Prefix ?b = tuple_key hs)"
      using b nth_mem [OF j'] unfolding branches_ok_def by blast
    then obtain hs where hs: "FixedFields ?b = k" "tuple_for (take k ?dims) hs" "Prefix ?b = tuple_key hs"
      using k by auto
    obtain bs marked where out: "parts ! j = (bs, marked)" by fastforce
    then have bi: "branch_intervals t k filters ?b = Inr (bs, marked)" using map_result_Inr_nth [OF parts j'] fixed by simp
    have same: "Prefix b' = Prefix ?b" "FixedFields b' = k"
      using branch_intervals_shape [OF bi] j(2) out hs(1) by auto
    show ?thesis
    proof (intro conjI allI impI)
      show "key_prefix (Prefix b')" unfolding same hs(3) by (rule tuple_key_prefix)
      fix gs rest assume "tuple_for ?dims gs" "in_branch (tuple_key gs @ rest) b'"
      then show "Prefix b' = tuple_key (take k gs)"
        using branch_intervals_exact(1) [OF normal _ k hs(3,2) bi, of gs rest] j(2) out same(1) by auto
    qed (rule same(2))
  qed
  show thesis
  proof (rule that [of k])
    show "meta_ok m k" using ValidateTemplate_distinct [OF t] k served meta fixed by (simp add: meta_ok_def)
  qed (use each meta in blast)+
qed

text \<open>The tuple of a key that has a position.\<close>

lemma position_fields:
  assumes "meta_ok m k" and "index_tuple (MetaTemplate m) gs i" and "position m (index_key gs i) = Inr p"
  shows "p = tuple_key (order_fields m gs i @ [id_field i])"
  using position_eq [OF _ refl meta_ok_found [OF assms(1)] assms(2)] assms
  by (simp add: meta_ok_def Let_def order_fields_def split: if_splits)

section \<open>Positions of one branch\<close>

lemma positions_agree:
  assumes t: "ValidateTemplate t = Inr ()" and fs: "candidateFilters pfs = Inr filters"
    and c: "compileCandidate hash digest t filters requested = Inr (m, access)"
    and gs: "index_tuple t gs i" "index_tuple t gs' i'" and b: "b \<in> set (Branches m)"
    and at: "in_branch (index_key gs i) b" "in_branch (index_key gs' i') b"
    and p: "position m (index_key gs i) = Inr p" "position m (index_key gs' i') = Inr p'"
  shows "bytes_compare p p' = bytes_compare (index_key gs i) (index_key gs' i')"
proof -
  from t fs c obtain k where ok: "meta_ok m k" and m: "MetaTemplate m = t"
    and "EffectiveOrder m = effective_order t requested" and "\<forall>b \<in> set (Branches m). FixedFields b = k \<and> key_prefix (Prefix b)"
    and pre: "\<forall>b \<in> set (Branches m). \<forall>gs rest. tuple_for (Fields t) gs \<longrightarrow> in_branch (tuple_key gs @ rest) b \<longrightarrow>
       Prefix b = tuple_key (take k gs)" by (rule compile_meta)
  have tuple: "tuple_for (Fields t) gs" "tuple_for (Fields t) gs'" using gs by (simp_all add: index_tuple_def)
  then have "tuple_key (take k gs) = tuple_key (take k gs')"
    using bspec [OF pre b] tuple at unfolding index_key_split by metis
  moreover have "list_all2 alike_fields (take k gs) (take k gs')" using tuple_for_alike [OF tuple] by (rule list_all2_takeI)
  ultimately have "map field_code (take k gs) = map field_code (take k gs')"
    using codes_inject [of "take k gs" "take k gs'" "[]" "[]"] by (simp add: tuple_key_def)
  then show ?thesis
    using positions_compare [OF ok gs [folded m]] position_fields [OF ok gs(1) [folded m] p(1)]
      position_fields [OF ok gs(2) [folded m] p(2)] by simp
qed

lemma posting_recovered:
  assumes t: "ValidateTemplate t = Inr ()" and fs: "candidateFilters pfs = Inr filters"
    and d: "distinct (map OrdField requested)"
    and c: "compileCandidate hash digest t filters requested = Inr (m, access)"
    and gs: "index_tuple t gs i" and n: "n < length (Branches m)" and at: "in_branch (index_key gs i) (Branches m ! n)"
    and p: "position m (index_key gs i) = Inr (Position g)"
  shows "PostingKey m g (int n) = Inr (index_key gs i)"
proof -
  from t fs c obtain k where ok: "meta_ok m k" and m: "MetaTemplate m = t"
    and order: "EffectiveOrder m = effective_order t requested"
    and fixed: "\<forall>b \<in> set (Branches m). FixedFields b = k \<and> key_prefix (Prefix b)"
    and pre: "\<forall>b \<in> set (Branches m). \<forall>gs rest. tuple_for (Fields t) gs \<longrightarrow> in_branch (tuple_key gs @ rest) b \<longrightarrow>
       Prefix b = tuple_key (take k gs)" by (rule compile_meta)
  have "tuple_for (Fields t) gs" using gs by (simp add: index_tuple_def)
  then have prefix: "Prefix (Branches m ! n) = tuple_key (take k gs)"
    using bspec [OF pre nth_mem [OF n]] at unfolding index_key_split by blast
  have "distinct (map OrdField (EffectiveOrder m))"
    unfolding order by (rule distinct_effective [OF ValidateTemplate_distinct [OF t] d])
  from PostingKey_eq [OF ok gs [folded m] this n, of g] bspec [OF fixed nth_mem [OF n]] position_fields [OF ok gs [folded m] p]
  have "PostingKey m g (int n) = Inr (tuple_key (take k gs) @ concat (map field_code (drop k gs)) @ field_code (id_field i))"
    unfolding prefix by simp
  also have "tuple_key (take k gs) @ concat (map field_code (drop k gs)) @ field_code (id_field i) = index_key gs i"
    by (simp add: index_key_def tuple_key_def) (metis append_assoc append_take_drop_id concat_append map_append)
  finally show ?thesis .
qed

lemma scan_resumes:
  assumes t: "ValidateTemplate t = Inr ()" and fs: "candidateFilters pfs = Inr filters"
    and d: "distinct (map OrdField requested)"
    and c: "compileCandidate hash digest t filters requested = Inr (m, access)"
    and gs: "index_tuple t gs i" "index_tuple t gs' i'" and n: "n < length (Branches m)"
    and p: "position m (index_key gs i) = Inr p" "position m (index_key gs' i') = Inr after"
    and opts: "scanOptions m n after = Inr opts"
  shows "scan_admits opts (index_key gs i) \<longleftrightarrow> in_branch (index_key gs i) (Branches m ! n) \<and> after < p"
proof -
  from t fs c obtain k where ok: "meta_ok m k" and m: "MetaTemplate m = t"
    and order: "EffectiveOrder m = effective_order t requested"
    and fixed: "\<forall>b \<in> set (Branches m). FixedFields b = k \<and> key_prefix (Prefix b)"
    and pre: "\<forall>b \<in> set (Branches m). \<forall>gs rest. tuple_for (Fields t) gs \<longrightarrow> in_branch (tuple_key gs @ rest) b \<longrightarrow>
       Prefix b = tuple_key (take k gs)" by (rule compile_meta)
  note b = nth_mem [OF n]
  have dist: "distinct (map OrdField (EffectiveOrder m))"
    unfolding order by (rule distinct_effective [OF ValidateTemplate_distinct [OF t] d])
  have "tuple_for (Fields t) gs" using gs by (simp add: index_tuple_def)
  then have prefix: "Prefix (Branches m ! n) = tuple_key (take k gs)" if "in_branch (index_key gs i) (Branches m ! n)"
    using bspec [OF pre b] that unfolding index_key_split by blast
  have "scan_admits opts (index_key gs i) \<Longrightarrow> in_branch (index_key gs i) (Branches m ! n)"
    using scan_narrows [OF _ opts] bspec [OF fixed b] by blast
  then show ?thesis
    using scan_resume [OF ok dist n _ prefix gs [folded m] _ opts] bspec [OF fixed b]
      position_fields [OF ok gs(1) [folded m] p(1)] position_fields [OF ok gs(2) [folded m] p(2)] by blast
qed

section \<open>The requested order\<close>

text \<open>
  The order of a query's results, from the query and the indexed values alone: the requested components one
  after the other, each by the value the document has in that field and turned round when it is descending, a
  missing value before every other, and the document id, ascending, between documents that agree on all of
  them.  With no requested order it is the template's own, without its membership dimensions.
\<close>

definition tuple_slot :: "template \<Rightarrow> order_field list \<times> string \<Rightarrow> string \<Rightarrow> any option" where
  "tuple_slot t d name =
     (case map_of (zip (map FieldName (Fields t)) (fst d)) name of Some g \<Rightarrow> field_slot g
      | None \<Rightarrow> if name = ''id'' then Some (Str (snd d)) else None)"

fun requested_compare :: "template \<Rightarrow> plan_order list \<Rightarrow> order_field list \<times> string \<Rightarrow> order_field list \<times> string \<Rightarrow> int" where
  "requested_compare t [] d d' = slot_compare (Some (Str (snd d))) (Some (Str (snd d')))"
| "requested_compare t (o' # os) d d' =
     (let c = slot_compare (tuple_slot t d (OrdField o')) (tuple_slot t d' (OrdField o'))
      in if c = 0 then requested_compare t os d d' else if OrdDirection o' = Desc then - c else c)"

definition scan_order :: "template \<Rightarrow> plan_order list \<Rightarrow> plan_order list" where
  "scan_order t requested =
     (if requested = [] then [\<lparr>OrdField = FieldName f, OrdDirection = fieldDirection f\<rparr>. f \<leftarrow> Fields t, FieldMode f \<noteq> Membership]
      else requested)"

lemma component_slot:
  assumes t: "distinct (map FieldName (Fields t))" and o': "order_found t o'" and gs: "index_tuple t gs i"
  shows "field_slot (component_field t gs i o') = tuple_slot t (gs, i) (OrdField o')"
proof (cases "map_of (zip (map FieldName (Fields t)) gs) (OrdField o')")
  case None
  then have "OrdField o' \<notin> FieldName ` set (Fields t)" using index_tuple_len [OF gs] by (simp add: map_of_zip_is_None)
  moreover have "OrdField o' = ''id''" using o' t by (cases rule: order_foundE) (use calculation in auto)
  ultimately show ?thesis
    using None gs encodable_id_slot by (simp add: component_field_def tuple_slot_def index_tuple_def)
qed (simp add: component_field_def tuple_slot_def)

lemma tuple_slot_id:
  assumes t: "distinct (map FieldName (Fields t))" and gs: "index_tuple t gs i"
  shows "tuple_slot t (gs, i) ''id'' = Some (Str i)"
proof (cases "''id'' \<in> FieldName ` set (Fields t)")
  case True
  then obtain j where j: "j < length (Fields t)" "FieldName (Fields t ! j) = ''id''" by (auto simp: in_set_conv_nth)
  then have "map_of (zip (map FieldName (Fields t)) gs) ''id'' = Some (gs ! j)"
    using map_of_zip_nth [of "map FieldName (Fields t)" gs j] t index_tuple_len [OF gs] by simp
  moreover have "gs ! j = value_field (Str i) (fieldDirection (Fields t ! j))" using gs j by (simp add: index_tuple_def)
  then have "field_slot (gs ! j) = field_slot (id_field i)" by (simp add: field_slot_def id_field_value value_field_def)
  moreover have "field_slot (id_field i) = Some (Str i)" using gs encodable_id_slot by (simp add: index_tuple_def)
  ultimately show ?thesis by (simp add: tuple_slot_def)
next
  case False
  then show ?thesis using index_tuple_len [OF gs] by (simp add: tuple_slot_def map_of_zip_is_None [THEN iffD2])
qed

lemma components_compare:
  assumes t: "distinct (map FieldName (Fields t))" and gs: "index_tuple t gs i" "index_tuple t gs' i'"
    and "list_all (order_found t) os"
  shows "lex_compare field_compare (map (component_field t gs i) os @ [id_field i]) (map (component_field t gs' i') os @ [id_field i']) 0 =
    requested_compare t os (gs, i) (gs', i')"
  using assms(4)
proof (induction os)
  case Nil
  have "field_slot (id_field i) = Some (Str i)" "field_slot (id_field i') = Some (Str i')"
    using gs encodable_id_slot by (simp_all add: index_tuple_def)
  then show ?case by (simp add: field_compare_def) (simp add: id_field_def Asc_def Desc_def)
next
  case (Cons o' os)
  have f: "order_found t o'" using Cons.prems by simp
  have "FieldDirection (component_field t gs i o') = OrdDirection o'" using component_alike [OF t f gs(1)] by simp
  then show ?case
    using Cons.IH Cons.prems component_slot [OF t f gs(1)] component_slot [OF t f gs(2)]
    by (simp add: field_compare_def Let_def del: slot_compare.simps)
qed

text \<open>An ascending id at the end of the requested order is the tie-break the order ends with anyway.\<close>

lemma requested_compare_id:
  assumes "distinct (map FieldName (Fields t))" and "index_tuple t gs i" "index_tuple t gs' i'" and "OrdField o' = ''id''" "OrdDirection o' = Asc"
  shows "requested_compare t (os @ [o']) (gs, i) (gs', i') = requested_compare t os (gs, i) (gs', i')"
  using assms tuple_slot_id [OF assms(1,2)] tuple_slot_id [OF assms(1,3)]
  by (induction os) (simp_all add: Let_def Asc_def Desc_def del: slot_compare.simps)

lemma requested_components:
  assumes "distinct (map FieldName (Fields t))" and "index_tuple t gs i" "index_tuple t gs' i'"
  shows "requested_compare t (orderComponents (effective_order t requested)) (gs, i) (gs', i') =
    requested_compare t (scan_order t requested) (gs, i) (gs', i')"
proof -
  let ?base = "scan_order t requested"
  have "effective_order t requested =
      (if list_ex (\<lambda>o'. OrdField o' = ''id'') ?base then ?base else ?base @ [\<lparr>OrdField = ''id'', OrdDirection = Asc\<rparr>])"
    unfolding effective_order_def scan_order_def Let_def by (rule refl)
  then have "orderComponents (effective_order t requested) =
      (if list_ex (\<lambda>o'. OrdField o' = ''id'') ?base then orderComponents ?base else ?base)"
    by (simp add: orderComponents_def)
  moreover have "requested_compare t (orderComponents ?base) (gs, i) (gs', i') = requested_compare t ?base (gs, i) (gs', i')"
  proof (cases "?base \<noteq> [] \<and> OrdField (List.last ?base) = ''id'' \<and> OrdDirection (List.last ?base) = Asc")
    case True
    then have "?base = butlast ?base @ [List.last ?base]" by simp
    then show ?thesis
      using requested_compare_id [OF assms, of "List.last ?base" "butlast ?base"] True by (simp add: orderComponents_def)
  qed (auto simp: orderComponents_def)
  ultimately show ?thesis by simp
qed

lemma positions_requested:
  assumes t: "ValidateTemplate t = Inr ()" and fs: "candidateFilters pfs = Inr filters"
    and c: "compileCandidate hash digest t filters requested = Inr (m, access)"
    and gs: "index_tuple t gs i" "index_tuple t gs' i'"
    and p: "position m (index_key gs i) = Inr p" "position m (index_key gs' i') = Inr p'"
  shows "bytes_compare p p' = requested_compare t (scan_order t requested) (gs, i) (gs', i')"
proof -
  from t fs c obtain k where ok: "meta_ok m k" and m: "MetaTemplate m = t"
    and order: "EffectiveOrder m = effective_order t requested"
    and "\<forall>b \<in> set (Branches m). FixedFields b = k \<and> key_prefix (Prefix b)"
    and "\<forall>b \<in> set (Branches m). \<forall>gs rest. tuple_for (Fields t) gs \<longrightarrow> in_branch (tuple_key gs @ rest) b \<longrightarrow>
       Prefix b = tuple_key (take k gs)" by (rule compile_meta)
  note d = ValidateTemplate_distinct [OF t]
  have "bytes_compare p p' = lex_compare field_compare (order_fields m gs i @ [id_field i]) (order_fields m gs' i' @ [id_field i']) 0"
    using key_compare [OF order_alike [OF ok gs [folded m]]] position_fields [OF ok gs(1) [folded m] p(1)]
      position_fields [OF ok gs(2) [folded m] p(2)] by simp
  also have "\<dots> = requested_compare t (orderComponents (effective_order t requested)) (gs, i) (gs', i')"
    using components_compare [OF d gs] meta_ok_found [OF ok] by (simp add: order_fields_def m order)
  finally show ?thesis using requested_components [OF d gs] by simp
qed

section \<open>Properties\<close>

text \<open>
  C10: The scan order is the requested order.  The positions of two indexed tuples compare as the query's order
  compares their documents: by the requested components in turn, each in its own direction, then by the document
  id, and by the template's own order when none is requested.  Within a branch the posting keys compare in the same
  way, so the branch iterators, which run in key order, return documents in the requested order and can be merged
  by position.
\<close>

theorem position_order:
  assumes t: "ValidateTemplate t = Inr ()" and fs: "candidateFilters pfs = Inr filters"
    and c: "compileCandidate hash digest t filters requested = Inr (m, access)"
    and gs: "index_tuple t gs i" "index_tuple t gs' i'"
    and p: "position m (index_key gs i) = Inr p" "position m (index_key gs' i') = Inr p'"
  shows "bytes_compare p p' = requested_compare t (scan_order t requested) (gs, i) (gs', i') \<and>
    (\<forall>b \<in> set (Branches m). in_branch (index_key gs i) b \<longrightarrow> in_branch (index_key gs' i') b \<longrightarrow>
      bytes_compare (index_key gs i) (index_key gs' i') = requested_compare t (scan_order t requested) (gs, i) (gs', i'))"
  using positions_requested [OF assms] positions_agree [OF t fs c gs _ _ _ p] by simp

text \<open>
  C9: A posting key is recovered from its position.  For an indexed tuple of a branch, \<open>PostingKey\<close> applied
  to the position of the tuple and the branch returns the tuple's key.
\<close>

theorem PostingKey_position:
  assumes t: "ValidateTemplate t = Inr ()" and fs: "candidateFilters pfs = Inr filters"
    and d: "distinct (map OrdField requested)"
    and c: "compileCandidate hash digest t filters requested = Inr (m, access)"
    and gs: "index_tuple t gs i" and n: "n < length (Branches m)" and at: "in_branch (index_key gs i) (Branches m ! n)"
    and p: "position m (index_key gs i) = Inr (Position g)"
  shows "PostingKey m g (int n) = Inr (index_key gs i)"
  by (rule posting_recovered [OF assms])

text \<open>
  C8: Resuming after a position skips nothing and repeats nothing.  For the position of any tuple of the index
  as the cursor, the options \<open>scanOptions\<close> computes for a branch admit exactly the tuples of that branch whose
  position lies after the cursor, whether the cursor came from this branch or from another one.
\<close>

theorem scanOptions_resumes:
  assumes t: "ValidateTemplate t = Inr ()" and fs: "candidateFilters pfs = Inr filters"
    and d: "distinct (map OrdField requested)"
    and c: "compileCandidate hash digest t filters requested = Inr (m, access)"
    and gs: "index_tuple t gs i" "index_tuple t gs' i'" and n: "n < length (Branches m)"
    and p: "position m (index_key gs i) = Inr p" "position m (index_key gs' i') = Inr after"
    and opts: "scanOptions m n after = Inr opts"
  shows "scan_admits opts (index_key gs i) \<longleftrightarrow> in_branch (index_key gs i) (Branches m ! n) \<and> after < p"
  by (rule scan_resumes [OF assms])

section \<open>Sample plan\<close>

definition name_tuple :: "order_field list" where
  "name_tuple = [value_field (Str ''a'') Asc]"

lemma name_id_codes: "bytes_of ''d1'' = [0x64, 0x31]" "bytes_of ''d2'' = [0x64, 0x32]"
  by (simp_all add: bytes_of_def)

lemma name_index_tuple: "index_tuple name_template name_tuple ''d1''" "index_tuple name_template name_tuple ''d2''"
  using name_direction
  by (simp_all add: index_tuple_def name_template_def name_tuple_def encodable_def encodeField_def field_raw_def value_field_def
      id_field_def ScalarKey_def name_codes name_id_codes Asc_def Desc_def)

lemma name_keys:
  "index_key name_tuple ''d1'' = [Version, 0x50, 0x61, 0, 0, 0x50, 0x64, 0x31, 0, 0]"
  "index_key name_tuple ''d2'' = [Version, 0x50, 0x61, 0, 0, 0x50, 0x64, 0x32, 0, 0]"
  by (simp_all add: index_key_def tuple_key_def name_tuple_def field_code_def encodeField_def field_raw_def value_field_def
      id_field_def ScalarKey_def name_codes name_id_codes Asc_def Desc_def)

lemma name_in_branch: "in_branch (index_key name_tuple ''d1'') (Branches name_meta ! 0)"
  "in_branch (index_key name_tuple ''d2'') (Branches name_meta ! 0)"
  by (simp_all add: in_branch_def within_def name_keys name_meta_def)

lemma name_positions:
  "position name_meta (index_key name_tuple ''d1'') = Inr (index_key name_tuple ''d1'')"
  "position name_meta (index_key name_tuple ''d2'') = Inr (index_key name_tuple ''d2'')"
proof -
  have m: "MetaTemplate name_meta = name_template" by (simp add: name_meta_def)
  have found: "list_all (order_found name_template) (orderComponents (EffectiveOrder name_meta))"
    using name_direction by (simp add: name_meta_def orderComponents_def order_found_def name_template_def)
  have "map (component_field name_template name_tuple i) (orderComponents (EffectiveOrder name_meta)) = name_tuple" for i
    by (simp add: name_meta_def orderComponents_def component_field_def name_template_def name_tuple_def)
  then show "position name_meta (index_key name_tuple ''d1'') = Inr (index_key name_tuple ''d1'')"
    "position name_meta (index_key name_tuple ''d2'') = Inr (index_key name_tuple ''d2'')"
    using position_eq [OF ValidateTemplate_distinct [OF name_valid] m found name_index_tuple(1)]
      position_eq [OF ValidateTemplate_distinct [OF name_valid] m found name_index_tuple(2)]
      arg_cong [OF name_keys(1), of length] arg_cong [OF name_keys(2), of length]
    by (simp_all add: index_key_def Let_def MaxCandidatePositionBytes_def)
qed

theorem position_order_witness:
  "requested_compare name_template (scan_order name_template []) (name_tuple, ''d1'') (name_tuple, ''d2'') = -1 \<and>
   bytes_compare (index_key name_tuple ''d1'') (index_key name_tuple ''d2'') = -1 \<and>
   position name_meta (index_key name_tuple ''d1'') = Inr (index_key name_tuple ''d1'')"
proof -
  have "Branches name_meta ! 0 \<in> set (Branches name_meta)" by (simp add: name_meta_def)
  then show ?thesis
    using position_order [OF name_valid name_filters name_compile name_index_tuple name_positions] name_in_branch name_positions
    by (simp add: name_keys bytes_compare_def)
qed

theorem PostingKey_position_witness:
  "PostingKey name_meta \<lparr>GroupID = ''d1'', Position = index_key name_tuple ''d1'', GroupBranches = [0]\<rparr> 0 =
     Inr (index_key name_tuple ''d1'')"
proof -
  have n: "0 < length (Branches name_meta)" by (simp add: name_meta_def)
  show ?thesis
    using PostingKey_position [OF name_valid name_filters _ name_compile name_index_tuple(1) n name_in_branch(1),
        of "\<lparr>GroupID = ''d1'', Position = index_key name_tuple ''d1'', GroupBranches = [0]\<rparr>"] name_positions by simp
qed

theorem scanOptions_resumes_witness:
  "\<exists>opts. scanOptions name_meta 0 (index_key name_tuple ''d1'') = Inr opts \<and>
     scan_admits opts (index_key name_tuple ''d2'') \<and> \<not> scan_admits opts (index_key name_tuple ''d1'')"
proof -
  have n: "0 < length (Branches name_meta)" by (simp add: name_meta_def)
  have tp: "tupleParts (index_key name_tuple ''d1'') = Inr [[0x50, 0x61, 0, 0], [0x50, 0x64, 0x31, 0, 0]]"
    "tupleParts [Version, 0x50, 0x61, 0, 0] = Inr [[0x50, 0x61, 0, 0]]"
    by (simp_all add: tupleParts_def name_keys)
  have "\<exists>opts. scanOptions name_meta 0 (index_key name_tuple ''d1'') = Inr opts"
    using tp name_keys(1)
    by (simp add: scanOptions_def name_meta_def orderComponents_def fill_map_def name_template_def bytes_compare_def PostingKey_def
        Let_def)
  then obtain opts where o: "scanOptions name_meta 0 (index_key name_tuple ''d1'') = Inr opts" by blast
  note resumes = scanOptions_resumes [OF name_valid name_filters _ name_compile _ name_index_tuple(1) n _ name_positions(1) o]
  show ?thesis
    using resumes [OF _ name_index_tuple(2) name_positions(2)] resumes [OF _ name_index_tuple(1) name_positions(1)]
      name_in_branch o by (simp add: name_keys)
qed

end
