(* ===== verification/MemStore.thy ===== *)
theory MemStore
  imports Stores "HOL-Library.FSet" "HOL-Library.Product_Lexorder"
begin

text \<open>
  The in-memory index store (\<^verbatim>\<open>internal/indexer/mem_store\<close>): ordered indexes with a lookup by document
  ID, the partitions of the query indexes with their snapshots and iterators, and the life cycle of
  generations and bootstrap catalogs.  The ordered tree of \<^verbatim>\<open>github.com/google/btree\<close> is a parameter:
  the record \<open>btree\<close> of its operations, with the documented laws in the locale \<open>ordered_tree\<close>.  The
  mutexes make every operation one step, so the operations are functions on the state.
\<close>

section \<open>The ordered tree\<close>

type_synonym btree_item = "bytes \<times> string"

definition lessFunc :: "btree_item \<Rightarrow> btree_item \<Rightarrow> bool" where
  "lessFunc a b =
     (let c = bytes_compare (fst a) (fst b) in if c \<noteq> 0 then c < 0 else snd a < snd b)"

text \<open>
  \<^verbatim>\<open>NewG\<close>, \<^verbatim>\<open>ReplaceOrInsert\<close>, \<^verbatim>\<open>Delete\<close> and \<^verbatim>\<open>AscendGreaterOrEqual\<close>; the last is the list of items it
  passes to its callback until the callback stops it.  \<^verbatim>\<open>Clone\<close> is the identity on values.
\<close>

record 't btree =
  tree_new :: 't
  tree_insert :: "btree_item \<Rightarrow> 't \<Rightarrow> 't"
  tree_delete :: "btree_item \<Rightarrow> 't \<Rightarrow> 't"
  tree_ascend :: "btree_item \<Rightarrow> 't \<Rightarrow> btree_item list"

definition least_item :: btree_item where
  "least_item = ([], [])"

definition tree_items :: "'t btree \<Rightarrow> 't \<Rightarrow> btree_item set" where
  "tree_items ops t = set (tree_ascend ops least_item t)"

section \<open>Index\<close>

datatype state = StateHealthy | StateRebuilding | StateFailed

record 't index =
  Pattern :: string
  TemplateID :: string
  RawPattern :: string
  idx_state :: state
  idx_tree :: 't
  byID :: "string \<Rightarrow> bytes option"

definition NewIndex :: "'t btree \<Rightarrow> string \<Rightarrow> string \<Rightarrow> string \<Rightarrow> 't index" where
  "NewIndex ops pattern templateID rawPattern =
     \<lparr>Pattern = pattern, TemplateID = templateID, RawPattern = rawPattern, idx_state = StateHealthy,
      idx_tree = tree_new ops, byID = (\<lambda>_. None)\<rparr>"

definition idx_Upsert :: "'t btree \<Rightarrow> string \<Rightarrow> bytes \<Rightarrow> 't index \<Rightarrow> 't index" where
  "idx_Upsert ops docid orderKey idx =
     (let t = (case byID idx docid of Some oldKey \<Rightarrow> tree_delete ops (oldKey, docid) (idx_tree idx)
               | None \<Rightarrow> idx_tree idx)
      in idx\<lparr>idx_tree := tree_insert ops (orderKey, docid) t, byID := (byID idx)(docid \<mapsto> orderKey)\<rparr>)"

definition idx_Delete :: "'t btree \<Rightarrow> string \<Rightarrow> 't index \<Rightarrow> 't index" where
  "idx_Delete ops docid idx =
     (case byID idx docid of
        Some oldKey \<Rightarrow> idx\<lparr>idx_tree := tree_delete ops (oldKey, docid) (idx_tree idx),
          byID := (byID idx)(docid := None)\<rparr>
      | None \<Rightarrow> idx)"

text \<open>The callback of \<^verbatim>\<open>Search\<close> over the items the tree offers, and \<^verbatim>\<open>Search\<close>.\<close>

fun search_loop ::
  "bytes option \<Rightarrow> bool \<Rightarrow> bytes option \<Rightarrow> nat \<Rightarrow> btree_item list \<Rightarrow> doc_ref list \<Rightarrow> doc_ref list" where
  "search_loop startAfter isStartAfter upper limit [] results = results"
| "search_loop startAfter isStartAfter upper limit (item # items) results =
     (if isStartAfter \<and> startAfter = Some (fst item)
      then search_loop startAfter isStartAfter upper limit items results
      else if (case upper of Some u \<Rightarrow> bytes_compare (fst item) u \<ge> 0 | None \<Rightarrow> False) then results
      else
        let results' = results @ [\<lparr>RefID = snd item, OrderKey = fst item\<rparr>] in
        if length results' < limit
        then search_loop startAfter isStartAfter upper limit items results' else results')"

definition idx_Search :: "'t btree \<Rightarrow> search_options \<Rightarrow> 't index \<Rightarrow> doc_ref list" where
  "idx_Search ops opts idx =
     (let limit = (if Limit opts \<le> 0 then 1000 else nat (Limit opts));
          lower = (case Lower opts of Some l \<Rightarrow> l | None \<Rightarrow> []);
          isStartAfter = (case StartAfter opts of Some s \<Rightarrow> bytes_compare s lower \<ge> 0 | None \<Rightarrow> False);
          startKey = (if isStartAfter then the (StartAfter opts) else lower)
      in search_loop (StartAfter opts) isStartAfter (Upper opts) limit
           (tree_ascend ops (startKey, []) (idx_tree idx)) [])"

definition idx_Get :: "string \<Rightarrow> 't index \<Rightarrow> bytes option" where
  "idx_Get docid idx = byID idx docid"

definition idx_Len :: "'t index \<Rightarrow> nat" where
  "idx_Len idx = card (dom (byID idx))"

definition idx_Clear :: "'t btree \<Rightarrow> 't index \<Rightarrow> 't index" where
  "idx_Clear ops idx = idx\<lparr>idx_tree := tree_new ops, byID := (\<lambda>_. None)\<rparr>"

fun state_String :: "state \<Rightarrow> string" where
  "state_String StateHealthy = ''healthy''"
| "state_String StateRebuilding = ''rebuilding''"
| "state_String StateFailed = ''failed''"

definition idx_SetState :: "state \<Rightarrow> 't index \<Rightarrow> 't index" where
  "idx_SetState st idx = idx\<lparr>idx_state := st\<rparr>"

definition idx_IsHealthy :: "'t index \<Rightarrow> bool" where
  "idx_IsHealthy idx \<longleftrightarrow> idx_state idx = StateHealthy"

section \<open>Database\<close>

record 't database =
  DbName :: string
  indexes :: "string \<Rightarrow> 't index option"

definition NewDatabase :: "string \<Rightarrow> 't database" where
  "NewDatabase name = \<lparr>DbName = name, indexes = (\<lambda>_. None)\<rparr>"

definition IndexKey :: "string \<Rightarrow> string \<Rightarrow> string" where
  "IndexKey pattern templateID = pattern @ ''|'' @ templateID"

definition GetIndex :: "string \<Rightarrow> string \<Rightarrow> 't database \<Rightarrow> 't index option" where
  "GetIndex pattern templateID d = indexes d (IndexKey pattern templateID)"

text \<open>\<^verbatim>\<open>GetOrCreateIndex\<close> returns a pointer the caller updates; the model applies the update.\<close>

definition WithIndex ::
  "'t btree \<Rightarrow> string \<Rightarrow> string \<Rightarrow> string \<Rightarrow> ('t index \<Rightarrow> 't index) \<Rightarrow> 't database \<Rightarrow> 't database" where
  "WithIndex ops pattern templateID rawPattern f d =
     (let key = IndexKey pattern templateID;
          idx = (case indexes d key of Some idx \<Rightarrow> idx | None \<Rightarrow> NewIndex ops pattern templateID rawPattern)
      in d\<lparr>indexes := (indexes d)(key \<mapsto> f idx)\<rparr>)"

definition db_DeleteIndex :: "string \<Rightarrow> string \<Rightarrow> 't database \<Rightarrow> 't database" where
  "db_DeleteIndex pattern templateID d = d\<lparr>indexes := (indexes d)(IndexKey pattern templateID := None)\<rparr>"

fun store_state :: "state \<Rightarrow> index_state" where
  "store_state StateRebuilding = IndexStateRebuilding"
| "store_state StateFailed = IndexStateFailed"
| "store_state _ = IndexStateHealthy"

text \<open>\<^verbatim>\<open>ListIndexes\<close> iterates a Go map, whose order is unspecified: the model returns the set.\<close>

definition db_ListIndexes :: "'t database \<Rightarrow> index_info set" where
  "db_ListIndexes d = {\<lparr>InfoPattern = Pattern idx, InfoTemplateID = TemplateID idx,
      InfoRawPattern = RawPattern idx, InfoState = store_state (idx_state idx), InfoDocCount = idx_Len idx\<rparr>
      | idx. idx \<in> ran (indexes d)}"

definition IndexCount :: "'t database \<Rightarrow> nat" where
  "IndexCount d = card (dom (indexes d))"

definition db_Clear :: "'t database \<Rightarrow> 't database" where
  "db_Clear d = d\<lparr>indexes := (\<lambda>_. None)\<rparr>"

section \<open>Store\<close>

text \<open>A partition of a query index, keyed by the complete reference.\<close>

record 't projection_index =
  pi_tree :: 't
  pi_byID :: "string \<Rightarrow> bytes list option"

type_synonym generation_key = "string \<times> string \<times> string"

record 't mem_store =
  databases :: "string \<Rightarrow> 't database option"
  progress :: string
  partitions :: "query_index_ref \<Rightarrow> 't projection_index option"
  generations :: "generation_key \<Rightarrow> generation option"
  catalogs :: "string \<Rightarrow> bootstrap_catalog option"
  catalogInventoryPublished :: bool
  retiredDatabases :: "string set"

definition New :: "'t mem_store" where
  "New = \<lparr>databases = (\<lambda>_. None), progress = '''', partitions = (\<lambda>_. None), generations = (\<lambda>_. None),
     catalogs = (\<lambda>_. None), catalogInventoryPublished = False, retiredDatabases = {}\<rparr>"

definition set_progress :: "string \<Rightarrow> 't mem_store \<Rightarrow> 't mem_store" where
  "set_progress p s = (if p \<noteq> '''' then s\<lparr>progress := p\<rparr> else s)"

definition getOrCreateDB :: "string \<Rightarrow> 't mem_store \<Rightarrow> 't database" where
  "getOrCreateDB db s = (case databases s db of Some d \<Rightarrow> d | None \<Rightarrow> NewDatabase db)"

definition Upsert ::
  "'t btree \<Rightarrow> string \<Rightarrow> string \<Rightarrow> string \<Rightarrow> string \<Rightarrow> bytes \<Rightarrow> string \<Rightarrow> 't mem_store \<Rightarrow> 't mem_store" where
  "Upsert ops db pattern tmplID docID orderKey p s =
     (let d = WithIndex ops pattern tmplID pattern (idx_Upsert ops docID orderKey) (getOrCreateDB db s)
      in set_progress p (s\<lparr>databases := (databases s)(db \<mapsto> d)\<rparr>))"

definition Delete ::
  "'t btree \<Rightarrow> string \<Rightarrow> string \<Rightarrow> string \<Rightarrow> string \<Rightarrow> string \<Rightarrow> 't mem_store \<Rightarrow> 't mem_store" where
  "Delete ops db pattern tmplID docID p s =
     (case databases s db of None \<Rightarrow> set_progress p s
      | Some d \<Rightarrow>
          (case GetIndex pattern tmplID d of None \<Rightarrow> set_progress p s
           | Some idx \<Rightarrow>
               let d' = d\<lparr>indexes := (indexes d)(IndexKey pattern tmplID \<mapsto> idx_Delete ops docID idx)\<rparr>
               in set_progress p (s\<lparr>databases := (databases s)(db \<mapsto> d')\<rparr>)))"

text \<open>
  The order key of a document.  Go's \<^verbatim>\<open>Get\<close> takes a nil key for a missing one; keys in the model are never nil,
  as the keys the encoder makes are not.
\<close>

definition Get :: "string \<Rightarrow> string \<Rightarrow> string \<Rightarrow> string \<Rightarrow> 't mem_store \<Rightarrow> bytes option" where
  "Get db pattern tmplID docID s =
     (case databases s db of None \<Rightarrow> None
      | Some d \<Rightarrow> (case GetIndex pattern tmplID d of None \<Rightarrow> None | Some idx \<Rightarrow> idx_Get docID idx))"

definition Search ::
  "'t btree \<Rightarrow> string \<Rightarrow> string \<Rightarrow> string \<Rightarrow> search_options \<Rightarrow> 't mem_store \<Rightarrow> doc_ref list" where
  "Search ops db pattern tmplID opts s =
     (case databases s db of None \<Rightarrow> []
      | Some d \<Rightarrow> (case GetIndex pattern tmplID d of None \<Rightarrow> [] | Some idx \<Rightarrow> idx_Search ops opts idx))"

definition DeleteIndex :: "string \<Rightarrow> string \<Rightarrow> string \<Rightarrow> 't mem_store \<Rightarrow> 't mem_store" where
  "DeleteIndex db pattern tmplID s =
     (case databases s db of None \<Rightarrow> s
      | Some d \<Rightarrow> s\<lparr>databases := (databases s)(db \<mapsto> db_DeleteIndex pattern tmplID d)\<rparr>)"

definition DeleteDatabase :: "string \<Rightarrow> 't mem_store \<Rightarrow> 't mem_store" where
  "DeleteDatabase db s =
     s\<lparr>retiredDatabases := insert db (retiredDatabases s), databases := (databases s)(db := None),
       catalogs := (catalogs s)(db := None),
       partitions := (\<lambda>ref. if RefDatabase ref = db then None else partitions s ref),
       generations := (\<lambda>key. if fst key = db then None else generations s key)\<rparr>"

definition IsDatabaseRetired :: "string \<Rightarrow> 't mem_store \<Rightarrow> bool" where
  "IsDatabaseRetired db s \<longleftrightarrow> db \<in> retiredDatabases s"

definition SetState ::
  "'t btree \<Rightarrow> string \<Rightarrow> string \<Rightarrow> string \<Rightarrow> index_state \<Rightarrow> 't mem_store \<Rightarrow> 't mem_store" where
  "SetState ops db pattern tmplID st s =
     (let idxState = (case st of IndexStateRebuilding \<Rightarrow> StateRebuilding | IndexStateFailed \<Rightarrow> StateFailed
        | _ \<Rightarrow> StateHealthy);
          d = WithIndex ops pattern tmplID pattern (idx_SetState idxState) (getOrCreateDB db s)
      in s\<lparr>databases := (databases s)(db \<mapsto> d)\<rparr>)"

definition GetState :: "string \<Rightarrow> string \<Rightarrow> string \<Rightarrow> 't mem_store \<Rightarrow> index_state" where
  "GetState db pattern tmplID s =
     (case databases s db of None \<Rightarrow> IndexStateHealthy
      | Some d \<Rightarrow> (case GetIndex pattern tmplID d of None \<Rightarrow> IndexStateHealthy
          | Some idx \<Rightarrow> store_state (idx_state idx)))"

definition LoadProgress :: "'t mem_store \<Rightarrow> string" where
  "LoadProgress s = progress s"

definition ListDatabases :: "'t mem_store \<Rightarrow> string set" where
  "ListDatabases s = dom (databases s)"

definition ListIndexes :: "string \<Rightarrow> 't mem_store \<Rightarrow> store_error + index_info set" where
  "ListIndexes db s =
     (case databases s db of None \<Rightarrow> Inl DatabaseNotFound | Some d \<Rightarrow> Inr (db_ListIndexes d))"

section \<open>Projections\<close>

definition generationIdentity :: "query_index_ref \<Rightarrow> generation_key" where
  "generationIdentity ref = (RefDatabase ref, RefCollection ref, TemplateFingerprint ref)"

definition partition_of :: "'t btree \<Rightarrow> query_index_ref \<Rightarrow> 't mem_store \<Rightarrow> 't projection_index" where
  "partition_of ops ref s =
     (case partitions s ref of Some idx \<Rightarrow> idx | None \<Rightarrow> \<lparr>pi_tree = tree_new ops, pi_byID = (\<lambda>_. None)\<rparr>)"

text \<open>The body of the loop of \<^verbatim>\<open>ApplyDocumentProjection\<close> on one partition.\<close>

definition replace_projection :: "'t btree \<Rightarrow> string \<Rightarrow> bytes list \<Rightarrow> 't projection_index \<Rightarrow> 't projection_index" where
  "replace_projection ops docID keys idx =
     (let old = (case pi_byID idx docID of Some ks \<Rightarrow> ks | None \<Rightarrow> []);
          removed = fold (\<lambda>key t. tree_delete ops (key, docID) t) old (pi_tree idx);
          inserted = fold (\<lambda>key t. tree_insert ops (key, docID) t) keys removed
      in \<lparr>pi_tree = inserted,
          pi_byID = (pi_byID idx)(docID := (if keys \<noteq> [] then Some keys else None))\<rparr>)"

definition apply_projection :: "'t btree \<Rightarrow> projection \<Rightarrow> 't mem_store \<Rightarrow> 't mem_store" where
  "apply_projection ops p s =
     s\<lparr>partitions := (partitions s)(Index p \<mapsto>
         replace_projection ops (DocumentID p) (PostingKeys p) (partition_of ops (Index p) s))\<rparr>"

definition ApplyDocumentProjection ::
  "'t btree \<Rightarrow> projection list \<Rightarrow> string \<Rightarrow> 't mem_store \<Rightarrow> store_error + 't mem_store" where
  "ApplyDocumentProjection ops replacements p s =
     bind_result (OwnProjections replacements) (\<lambda>owned.
       Inr (set_progress p (fold (apply_projection ops) owned s)))"

section \<open>Generations and catalogs\<close>

definition ReadGeneration :: "string \<Rightarrow> string \<Rightarrow> string \<Rightarrow> 't mem_store \<Rightarrow> generation option" where
  "ReadGeneration db collection fingerprint s =
     (if db \<in> retiredDatabases s then None
      else if catalogs s db = None \<and> catalogInventoryPublished s then None
      else ResolveGeneration (catalogs s db) fingerprint (generations s (db, collection, fingerprint)))"

definition PublishBootstrapCatalog ::
  "bootstrap_catalog \<Rightarrow> 't mem_store \<Rightarrow> store_error + 't mem_store" where
  "PublishBootstrapCatalog catalog s =
     bind_result (OwnBootstrapCatalog catalog) (\<lambda>owned.
       if catalogInventoryPublished s then Inl PluralPublicationRequired
       else Inr (set_progress (CatProgress catalog)
         (s\<lparr>catalogs := (catalogs s)(CatDatabase catalog \<mapsto> owned)\<rparr>)))"

definition PublishBootstrapCatalogs ::
  "bootstrap_catalog list \<Rightarrow> string \<Rightarrow> 't mem_store \<Rightarrow> store_error + 't mem_store" where
  "PublishBootstrapCatalogs cs p s =
     bind_result (OwnBootstrapCatalogs cs p) (\<lambda>owned.
       let replacement = fold (\<lambda>c m. m(CatDatabase c \<mapsto> c)) owned (\<lambda>_. None) in
       Inr (s\<lparr>catalogs := replacement, retiredDatabases := retiredDatabases s - dom replacement,
         catalogInventoryPublished := True, progress := p\<rparr>))"

definition ReadBootstrapCatalog :: "string \<Rightarrow> 't mem_store \<Rightarrow> bootstrap_catalog option" where
  "ReadBootstrapCatalog db s = catalogs s db"

definition ListBootstrapCatalogs :: "'t mem_store \<Rightarrow> bootstrap_catalog list" where
  "ListBootstrapCatalogs s =
     map (\<lambda>db. the (catalogs s db)) (sorted_list_of_set (dom (catalogs s)))"

definition ref_order :: "query_index_ref \<Rightarrow> string \<times> string \<times> string \<times> string" where
  "ref_order ref = (RefDatabase ref, RefCollection ref, TemplateFingerprint ref, RefGeneration ref)"

definition ref_of :: "string \<times> string \<times> string \<times> string \<Rightarrow> query_index_ref" where
  "ref_of k = (case k of (d, c, f, g) \<Rightarrow>
     \<lparr>RefDatabase = d, RefCollection = c, TemplateFingerprint = f, RefGeneration = g\<rparr>)"

definition ListQueryIndexes :: "'t mem_store \<Rightarrow> query_index_ref list" where
  "ListQueryIndexes s =
     (let refs = dom (partitions s) \<union>
        {ref_of (d, c, f, GenID g) | d c f g. generations s (d, c, f) = Some g}
      in map ref_of (sorted_list_of_set (ref_order ` refs)))"

definition catalog_covers :: "query_index_ref \<Rightarrow> 't mem_store \<Rightarrow> bootstrap_catalog option" where
  "catalog_covers ref s =
     (case catalogs s (RefDatabase ref) of
        Some c \<Rightarrow> if TemplateFingerprint ref \<in> set (TemplateFingerprints c) then Some c else None
      | None \<Rightarrow> None)"

definition DeleteQueryIndex :: "query_index_ref \<Rightarrow> 't mem_store \<Rightarrow> store_error + 't mem_store" where
  "DeleteQueryIndex ref s =
     (if \<not> complete_ref ref then Inl IncompleteGeneration
      else
        let key = generationIdentity ref;
            g1 = (case generations s key of
                Some g \<Rightarrow> if GenID g = RefGeneration ref then (generations s)(key := None) else generations s
              | None \<Rightarrow> generations s);
            g2 = (case catalog_covers ref s of
                Some c \<Rightarrow> if CatGeneration c = RefGeneration ref
                  then g1(key \<mapsto> \<lparr>GenID = RefGeneration ref, Ready = False,
                    BootstrapProgress = CatProgress c, Failure = ''index partition deleted''\<rparr>) else g1
              | None \<Rightarrow> g1)
        in Inr (s\<lparr>partitions := (partitions s)(ref := None), generations := g2\<rparr>))"

definition PublishGeneration ::
  "'t btree \<Rightarrow> query_index_ref \<Rightarrow> string \<Rightarrow> 't mem_store \<Rightarrow> store_error + 't mem_store" where
  "PublishGeneration ops ref p s =
     (if \<not> complete_ref ref then Inl IncompleteGeneration
      else if (case catalog_covers ref s of Some c \<Rightarrow> CatGeneration c \<noteq> RefGeneration ref | None \<Rightarrow> False)
      then Inl GenerationMismatch
      else Inr (set_progress p (s\<lparr>
        generations := (generations s)(generationIdentity ref \<mapsto>
          \<lparr>GenID = RefGeneration ref, Ready = True, BootstrapProgress = p, Failure = ''''\<rparr>),
        partitions := (partitions s)(ref \<mapsto> partition_of ops ref s)\<rparr>)))"

definition SetFailure ::
  "'t btree \<Rightarrow> query_index_ref \<Rightarrow> string \<Rightarrow> 't mem_store \<Rightarrow> store_error + 't mem_store" where
  "SetFailure ops ref failure s =
     (if \<not> complete_ref ref \<or> failure = '''' then Inl IncompleteFailure
      else if (case catalog_covers ref s of Some c \<Rightarrow> CatGeneration c \<noteq> RefGeneration ref | None \<Rightarrow> False)
      then Inr s
      else
        let key = generationIdentity ref;
            fresh = \<lparr>GenID = RefGeneration ref, Ready = False, BootstrapProgress = '''', Failure = ''''\<rparr>;
            g = (case generations s key of
                Some g \<Rightarrow> if GenID g \<noteq> RefGeneration ref then fresh else g | None \<Rightarrow> fresh)
        in Inr (s\<lparr>generations := (generations s)(key \<mapsto> g\<lparr>Ready := False, Failure := failure\<rparr>),
            partitions := (partitions s)(ref \<mapsto> partition_of ops ref s)\<rparr>))"

section \<open>Read views and iterators\<close>

text \<open>
  A view pins the tree it was opened on; its examined counter is shared by all its iterators, so an
  iterator step returns the view as well.  \<open>cancelled\<close> is the state of the request context, which
  holds still during a call.
\<close>

record 't projection_view =
  view_tree :: 't
  view_closed :: bool
  view_maxExamined :: int
  view_examined :: int

record projection_iterator =
  it_opts :: search_options
  it_last :: "btree_item option"
  it_closed :: bool
  it_count :: int
  it_examined :: int

definition ReadView ::
  "'t btree \<Rightarrow> bool \<Rightarrow> query_index_ref \<Rightarrow> read_budget \<Rightarrow> 't mem_store \<Rightarrow> store_error + 't projection_view" where
  "ReadView ops cancelled ref budget s =
     bind_result (NormalizeReadBudget budget) (\<lambda>b.
       if cancelled then Inl ContextDone
       else Inr \<lparr>view_tree = pi_tree (partition_of ops ref s), view_closed = False,
         view_maxExamined = MaxExamined b, view_examined = 0\<rparr>)"

definition Scan :: "bool \<Rightarrow> search_options \<Rightarrow> 't projection_view \<Rightarrow> store_error + projection_iterator" where
  "Scan cancelled opts v =
     (if cancelled then Inl ContextDone
      else if view_closed v then Inl ViewClosed
      else Inr \<lparr>it_opts = opts, it_last = None, it_closed = False, it_count = 0, it_examined = 0\<rparr>)"

definition view_Close :: "'t projection_view \<Rightarrow> 't projection_view" where
  "view_Close v = v\<lparr>view_closed := True\<rparr>"

definition it_Close :: "projection_iterator \<Rightarrow> projection_iterator" where
  "it_Close it = it\<lparr>it_closed := True\<rparr>"

text \<open>
  The callback of \<^verbatim>\<open>Next\<close>: the item found if any, whether the work limit stopped it, and how many
  items the view and the iterator have examined.
\<close>

fun next_loop ::
  "search_options \<Rightarrow> btree_item option \<Rightarrow> int \<Rightarrow> btree_item list \<Rightarrow> int \<times> int \<Rightarrow>
   btree_item option \<times> bool \<times> int \<times> int" where
  "next_loop opts lst maxExamined [] (viewEx, ex) = (None, False, viewEx, ex)"
| "next_loop opts lst maxExamined (item # items) (viewEx, ex) =
     (if (case lst of Some l \<Rightarrow> \<not> lessFunc l item | None \<Rightarrow> False)
      then next_loop opts lst maxExamined items (viewEx, ex)
      else if (case Upper opts of Some u \<Rightarrow> bytes_compare (fst item) u \<ge> 0 | None \<Rightarrow> False)
      then (None, False, viewEx, ex)
      else if viewEx + 1 > maxExamined then (None, True, viewEx + 1, ex)
      else if (case StartAfter opts of Some a \<Rightarrow> bytes_compare (fst item) a \<le> 0 | None \<Rightarrow> False)
      then next_loop opts lst maxExamined items (viewEx + 1, ex + 1)
      else (Some item, False, viewEx + 1, ex + 1))"

definition start_item :: "search_options \<Rightarrow> btree_item option \<Rightarrow> btree_item" where
  "start_item opts lst =
     (case lst of Some l \<Rightarrow> l
      | None \<Rightarrow>
          let lower = (case Lower opts of Some l \<Rightarrow> l | None \<Rightarrow> []) in
          case StartAfter opts of
            Some a \<Rightarrow> if bytes_compare a lower > 0 then (a, []) else (lower, [])
          | None \<Rightarrow> (lower, []))"

definition it_Next ::
  "'t btree \<Rightarrow> bool \<Rightarrow> 't projection_view \<Rightarrow> projection_iterator \<Rightarrow>
   't projection_view \<times> projection_iterator \<times> (store_error + doc_ref option)" where
  "it_Next ops cancelled v it =
     (if cancelled then (v, it, Inl ContextDone)
      else if it_closed it \<or> (Limit (it_opts it) > 0 \<and> it_count it \<ge> Limit (it_opts it))
      then (v, it, Inr None)
      else if view_closed v then (v, it, Inl ViewClosed)
      else
        let (found, limited, viewEx, ex) =
          next_loop (it_opts it) (it_last it) (view_maxExamined v)
            (tree_ascend ops (start_item (it_opts it) (it_last it)) (view_tree v))
            (view_examined v, it_examined it);
          v' = v\<lparr>view_examined := viewEx\<rparr>; it' = it\<lparr>it_examined := ex\<rparr>
        in if limited then (v', it', Inl ErrWorkLimit)
           else (case found of
               None \<Rightarrow> (v', it'\<lparr>it_closed := True\<rparr>, Inr None)
             | Some item \<Rightarrow> (v', it'\<lparr>it_last := Some item, it_count := it_count it + 1\<rparr>,
                 Inr (Some \<lparr>RefID = snd item, OrderKey = fst item\<rparr>))))"

definition Examined :: "projection_iterator \<Rightarrow> int" where
  "Examined it = it_examined it"

section \<open>The laws of the tree\<close>

text \<open>
  What the documentation of the tree package promises: items in strictly ascending order of the
  comparison, from the pivot on, and insertion and deletion of one item.
\<close>

locale ordered_tree =
  fixes ops :: "'t btree"
  assumes new_items: "tree_items ops (tree_new ops) = {}"
    and insert_items: "tree_items ops (tree_insert ops i t) = insert i (tree_items ops t)"
    and delete_items: "tree_items ops (tree_delete ops i t) = tree_items ops t - {i}"
    and ascend_items: "set (tree_ascend ops p t) = {i \<in> tree_items ops t. \<not> lessFunc i p}"
    and ascend_sorted: "sorted_wrt lessFunc (tree_ascend ops p t)"

lemma bytes_compare_sign:
  "bytes_compare a b < 0 \<longleftrightarrow> a < b" "bytes_compare a b > 0 \<longleftrightarrow> b < a"
  "bytes_compare a b \<le> 0 \<longleftrightarrow> a \<le> b" "bytes_compare a b \<ge> 0 \<longleftrightarrow> b \<le> a"
  by (auto simp: bytes_compare_def)

lemma lessFunc_iff: "lessFunc a b \<longleftrightarrow> a < b"
  by (cases a; cases b) (auto simp: lessFunc_def Let_def bytes_compare_def less_le)

lemma least_item_le [simp]: "least_item \<le> i"
  by (cases i) (auto simp: least_item_def)

text \<open>The reference tree: a finite set of items, read in order.\<close>

definition fset_tree :: "btree_item fset btree" where
  "fset_tree = \<lparr>tree_new = {||}, tree_insert = finsert, tree_delete = (\<lambda>i t. t |-| {|i|}),
     tree_ascend = (\<lambda>p t. sorted_list_of_fset (ffilter (\<lambda>i. \<not> lessFunc i p) t))\<rparr>"

interpretation fset_tree: ordered_tree fset_tree
proof
  have a: "set (tree_ascend fset_tree p t) = {i \<in> fset t. \<not> lessFunc i p}" for p t
    by (auto simp: fset_tree_def)
  have i: "tree_items fset_tree t = fset t" for t
    unfolding tree_items_def a by (auto simp: lessFunc_iff not_less)
  show "tree_items fset_tree (tree_new fset_tree) = {}" by (simp add: i) (simp add: fset_tree_def)
  show "tree_items fset_tree (tree_insert fset_tree x t) = insert x (tree_items fset_tree t)" for x t
    unfolding i by (simp add: fset_tree_def)
  show "tree_items fset_tree (tree_delete fset_tree x t) = tree_items fset_tree t - {x}" for x t
    unfolding i by (simp add: fset_tree_def)
  show "set (tree_ascend fset_tree p t) = {x \<in> tree_items fset_tree t. \<not> lessFunc x p}" for p t
    unfolding i a ..
  show "sorted_wrt lessFunc (tree_ascend fset_tree p t)" for p t
    using strict_sorted_list_of_set [of "fset (ffilter (\<lambda>i. \<not> lessFunc i p) t)"]
    by (simp add: fset_tree_def lessFunc_iff [abs_def] sorted_list_of_fset.rep_eq)
qed

section \<open>Indexes over any tree that keeps the laws\<close>

text \<open>The invariant of an index: the tree holds exactly the current key of every document.\<close>

definition idx_ok :: "'t btree \<Rightarrow> 't index \<Rightarrow> bool" where
  "idx_ok ops idx \<longleftrightarrow> tree_items ops (idx_tree idx) = {(k, d). byID idx d = Some k}"

definition pi_ok :: "'t btree \<Rightarrow> 't projection_index \<Rightarrow> bool" where
  "pi_ok ops idx \<longleftrightarrow>
     tree_items ops (pi_tree idx) = {(k, d). \<exists>ks. pi_byID idx d = Some ks \<and> k \<in> set ks}"

text \<open>The items within the bounds and after the cursor of a search.\<close>

definition in_bounds :: "search_options \<Rightarrow> btree_item \<Rightarrow> bool" where
  "in_bounds opts i \<longleftrightarrow>
     (case Lower opts of None \<Rightarrow> True | Some l \<Rightarrow> l \<le> fst i) \<and>
     (case Upper opts of None \<Rightarrow> True | Some u \<Rightarrow> fst i < u) \<and>
     (case StartAfter opts of None \<Rightarrow> True | Some a \<Rightarrow> a < fst i)"

definition ref_of_item :: "btree_item \<Rightarrow> doc_ref" where
  "ref_of_item i = \<lparr>RefID = snd i, OrderKey = fst i\<rparr>"

lemma pivot_le: "\<not> lessFunc i (k, []) \<longleftrightarrow> k \<le> fst i"
  by (cases i) (auto simp: lessFunc_iff not_less)

lemma sorted_wrt_lessFunc: "sorted_wrt lessFunc xs \<longleftrightarrow> sorted_wrt (<) xs"
  by (simp add: lessFunc_iff [abs_def])

lemma filter_prefix:
  "sorted_wrt (<) (xs :: ('a :: linorder) list) \<Longrightarrow> (\<And>x y. x < y \<Longrightarrow> P y \<Longrightarrow> P x) \<Longrightarrow>
     takeWhile P xs = filter P xs"
proof (induction xs)
  case (Cons x xs)
  show ?case
  proof (cases "P x")
    case False
    then have "\<not> P y" if "y \<in> set xs" for y using Cons.prems that by auto
    then show ?thesis using False by (simp add: filter_empty_conv)
  qed (use Cons in auto)
qed simp

lemma search_loop_take:
  "length results < limit \<Longrightarrow>
   search_loop sa isSA upper limit items results =
     results @ take (limit - length results) (map ref_of_item
       (takeWhile (\<lambda>i. case upper of Some u \<Rightarrow> fst i < u | None \<Rightarrow> True)
         (filter (\<lambda>i. \<not> (isSA \<and> sa = Some (fst i))) items)))"
proof (induction items arbitrary: results)
  case (Cons item items)
  obtain n where n: "limit - length results = Suc n" using Cons.prems by (cases "limit - length results") auto
  show ?case
  proof (cases "length results + 1 < limit")
    case True
    then have "limit - Suc (length results) = n" using n by linarith
    then show ?thesis using Cons.IH [of results] Cons.IH [of "results @ [ref_of_item item]"] Cons.prems n True
      by (auto simp: Let_def ref_of_item_def bytes_compare_sign not_le split: option.splits)
  next
    case False
    then have "n = 0" "limit = Suc (length results)" using n Cons.prems by linarith+
    then show ?thesis using Cons.IH [of results] Cons.prems
      by (auto simp: Let_def ref_of_item_def bytes_compare_sign not_le split: option.splits)
  qed
qed simp

context ordered_tree
begin

lemma ascend_filter:
  "tree_ascend ops p t = filter (\<lambda>i. \<not> lessFunc i p) (tree_ascend ops least_item t)"
proof (rule strict_sorted_equal)
  show "sorted_wrt (<) (filter (\<lambda>i. \<not> lessFunc i p) (tree_ascend ops least_item t))"
    using ascend_sorted [of least_item t] by (simp add: sorted_wrt_lessFunc sorted_wrt_filter)
  show "sorted_wrt (<) (tree_ascend ops p t)"
    using ascend_sorted [of p t] by (simp add: sorted_wrt_lessFunc)
  show "set (tree_ascend ops p t) = set (filter (\<lambda>i. \<not> lessFunc i p) (tree_ascend ops least_item t))"
    unfolding ascend_items [of p] by (auto simp: tree_items_def)
qed

lemma new_ok: "idx_ok ops (NewIndex ops p tid raw)"
  by (simp add: idx_ok_def NewIndex_def new_items)

lemma upsert_ok: "idx_ok ops idx \<Longrightarrow> idx_ok ops (idx_Upsert ops d k idx)"
  by (auto simp: idx_ok_def idx_Upsert_def Let_def insert_items delete_items split: option.splits if_splits)

lemma delete_ok: "idx_ok ops idx \<Longrightarrow> idx_ok ops (idx_Delete ops d idx)"
  by (auto simp: idx_ok_def idx_Delete_def delete_items split: option.splits if_splits)

lemma clear_ok: "idx_ok ops (idx_Clear ops idx)"
  by (simp add: idx_ok_def idx_Clear_def new_items)

lemma search_correct:
  "idx_Search ops opts idx =
     take (if Limit opts \<le> 0 then 1000 else nat (Limit opts))
       (map ref_of_item (filter (in_bounds opts) (tree_ascend ops least_item (idx_tree idx))))"
proof -
  let ?L = "tree_ascend ops least_item (idx_tree idx)"
  let ?n = "if Limit opts \<le> 0 then 1000 else nat (Limit opts)"
  let ?lower = "case Lower opts of Some l \<Rightarrow> l | None \<Rightarrow> []"
  let ?sa = "case StartAfter opts of Some s \<Rightarrow> bytes_compare s ?lower \<ge> 0 | None \<Rightarrow> False"
  let ?start = "if ?sa then the (StartAfter opts) else ?lower"
  let ?below = "\<lambda>i. case Upper opts of Some u \<Rightarrow> fst i < u | None \<Rightarrow> True"
  let ?F = "filter (\<lambda>i. \<not> (?sa \<and> StartAfter opts = Some (fst i))) (filter (\<lambda>i. ?start \<le> fst i) ?L)"
  have "sorted_wrt (<) ?F"
    using ascend_sorted [of least_item "idx_tree idx"] by (simp add: sorted_wrt_lessFunc sorted_wrt_filter)
  then have "takeWhile ?below ?F = filter ?below ?F"
    by (rule filter_prefix) (auto simp: less_prod_def' split: option.splits prod.splits)
  also have "\<dots> = filter (in_bounds opts) ?L"
    unfolding filter_filter
    by (rule filter_cong) (auto simp: in_bounds_def bytes_compare_sign split: option.splits)
  finally have "map ref_of_item (takeWhile ?below ?F) = map ref_of_item (filter (in_bounds opts) ?L)"
    by (rule arg_cong)
  moreover have "0 < ?n" by simp
  ultimately show ?thesis
    unfolding idx_Search_def Let_def ascend_filter [of "(_, [])"] pivot_le
    by (subst search_loop_take) simp_all
qed

end

section \<open>Iterators\<close>

text \<open>
  The items a step may examine, and the items an iterator has still to return, when the last item it
  returned is \<open>lst\<close>.
\<close>

definition below :: "search_options \<Rightarrow> btree_item \<Rightarrow> bool" where
  "below opts i \<longleftrightarrow> (case Upper opts of Some u \<Rightarrow> fst i < u | None \<Rightarrow> True)"

definition after :: "search_options \<Rightarrow> btree_item \<Rightarrow> bool" where
  "after opts i \<longleftrightarrow> (case StartAfter opts of Some a \<Rightarrow> a < fst i | None \<Rightarrow> True)"

definition beyond :: "btree_item option \<Rightarrow> btree_item \<Rightarrow> bool" where
  "beyond lst i \<longleftrightarrow> (case lst of Some l \<Rightarrow> l < i | None \<Rightarrow> True)"

definition to_examine :: "search_options \<Rightarrow> btree_item option \<Rightarrow> btree_item list \<Rightarrow> btree_item list" where
  "to_examine opts lst items = takeWhile (below opts) (filter (beyond lst) items)"

lemma next_loop_within:
  "viewEx + int (length (to_examine opts lst items)) \<le> maxEx \<Longrightarrow>
   next_loop opts lst maxEx items (viewEx, ex) =
     (let E = to_examine opts lst items;
          n = int (length (takeWhile (\<lambda>i. \<not> after opts i) E));
          R = dropWhile (\<lambda>i. \<not> after opts i) E
      in case R of [] \<Rightarrow> (None, False, viewEx + n, ex + n)
         | i # _ \<Rightarrow> (Some i, False, viewEx + n + 1, ex + n + 1))"
proof (induction items arbitrary: viewEx ex)
  case (Cons item items)
  have IH: "next_loop opts lst maxEx items (v, e) =
     (let E = to_examine opts lst items;
          n = int (length (takeWhile (\<lambda>i. \<not> after opts i) E));
          R = dropWhile (\<lambda>i. \<not> after opts i) E
      in case R of [] \<Rightarrow> (None, False, v + n, e + n)
         | i # _ \<Rightarrow> (Some i, False, v + n + 1, e + n + 1))"
    if "v + int (length (to_examine opts lst items)) \<le> maxEx" for v e
    using Cons.IH that by blast
  have lst: "(case lst of Some l \<Rightarrow> \<not> lessFunc l item | None \<Rightarrow> False) \<longleftrightarrow> \<not> beyond lst item"
    by (simp add: beyond_def lessFunc_iff split: option.splits)
  have upper: "(case Upper opts of Some u \<Rightarrow> bytes_compare (fst item) u \<ge> 0 | None \<Rightarrow> False) \<longleftrightarrow> \<not> below opts item"
    by (simp add: below_def bytes_compare_sign not_less split: option.splits)
  have sa: "(case StartAfter opts of Some a \<Rightarrow> bytes_compare (fst item) a \<le> 0 | None \<Rightarrow> False) \<longleftrightarrow> \<not> after opts item"
    by (simp add: after_def bytes_compare_sign not_less split: option.splits)
  show ?case
  proof (cases "beyond lst item")
    case False
    then show ?thesis
      using IH [of viewEx ex] Cons.prems by (simp add: lst to_examine_def)
  next
    case True
    show ?thesis
    proof (cases "below opts item \<and> \<not> after opts item")
      case T: True
      then have e: "to_examine opts lst (item # items) = item # to_examine opts lst items"
        using True by (simp add: to_examine_def)
      then show ?thesis
        using T True IH [of "viewEx + 1" "ex + 1"] Cons.prems
        by (cases "dropWhile (\<lambda>i. \<not> after opts i) (to_examine opts lst items)")
          (simp_all add: lst upper sa Let_def ac_simps del: dropWhile_eq_Nil_conv)
    qed (use True Cons.prems in \<open>auto simp: lst upper sa to_examine_def Let_def\<close>)
  qed
qed (simp add: to_examine_def)

fun drain :: "'t btree \<Rightarrow> nat \<Rightarrow> 't projection_view \<Rightarrow> projection_iterator \<Rightarrow> store_error + doc_ref list" where
  "drain ops 0 v it = Inr []"
| "drain ops (Suc n) v it =
     (case it_Next ops False v it of
        (v', it', Inl e) \<Rightarrow> Inl e
      | (v', it', Inr None) \<Rightarrow> Inr []
      | (v', it', Inr (Some r)) \<Rightarrow> bind_result (drain ops n v' it') (\<lambda>rs. Inr (r # rs)))"

lemma dropWhile_filter_sorted:
  "sorted_wrt (<) (xs :: ('a :: linorder) list) \<Longrightarrow> (\<And>x y. x < y \<Longrightarrow> P x \<Longrightarrow> P y) \<Longrightarrow>
     dropWhile (\<lambda>x. \<not> P x) xs = filter P xs"
proof (induction xs)
  case (Cons x xs)
  show ?case
  proof (cases "P x")
    case True
    then have "\<And>y. y \<in> set xs \<Longrightarrow> P y" using Cons.prems by auto
    then show ?thesis using True by (simp add: filter_id_conv)
  qed (use Cons in auto)
qed simp

lemma after_mono: "x < y \<Longrightarrow> after opts x \<Longrightarrow> after opts y"
  and below_anti: "x < y \<Longrightarrow> below opts y \<Longrightarrow> below opts x"
  by (auto simp: after_def below_def less_prod_def' split: option.splits prod.splits)

context ordered_tree
begin

text \<open>What is left to return lies among what is left to examine, and a step takes the first of it.\<close>

lemma to_examine_first:
  assumes L: "L = tree_ascend ops least_item t"
    and lst: "\<And>l. lst = Some l \<Longrightarrow> in_bounds opts l"
  shows "dropWhile (\<lambda>i. \<not> after opts i) (to_examine opts lst (tree_ascend ops (start_item opts lst) t)) =
    filter (\<lambda>i. in_bounds opts i \<and> beyond lst i) L" (is "dropWhile _ ?E = _")
proof -
  let ?s = "start_item opts lst"
  have sorted: "sorted_wrt (<) L" using ascend_sorted [of least_item t] by (simp add: sorted_wrt_lessFunc L)
  then have f: "sorted_wrt (<) (filter P L)" for P by (rule sorted_wrt_filter)
  have "?E = filter (\<lambda>i. \<not> lessFunc i ?s \<and> beyond lst i \<and> below opts i) L"
    unfolding to_examine_def ascend_filter [of ?s] L [symmetric] filter_filter
    using filter_prefix [OF f below_anti] by (simp add: filter_filter conj_ac)
  then have "dropWhile (\<lambda>i. \<not> after opts i) ?E =
      filter (\<lambda>i. \<not> lessFunc i ?s \<and> beyond lst i \<and> below opts i \<and> after opts i) L"
    using dropWhile_filter_sorted [OF f after_mono] by (simp add: filter_filter conj_ac)
  also have "\<dots> = filter (\<lambda>i. in_bounds opts i \<and> beyond lst i) L"
  proof (rule filter_cong [OF refl])
    fix i
    show "(\<not> lessFunc i ?s \<and> beyond lst i \<and> below opts i \<and> after opts i) = (in_bounds opts i \<and> beyond lst i)"
    proof (cases lst)
      case None
      then show ?thesis
        by (auto simp: start_item_def pivot_le below_def after_def in_bounds_def beyond_def bytes_compare_sign
            split: option.splits if_splits)
    next
      case (Some l)
      then have "in_bounds opts l" by (rule lst)
      then have "l < i \<Longrightarrow> below opts i \<Longrightarrow> in_bounds opts i"
        using after_mono [of l i opts]
        by (auto simp: in_bounds_def below_def after_def less_prod_def' split: option.splits prod.splits)
      then show ?thesis
        by (auto simp: Some start_item_def beyond_def lessFunc_iff in_bounds_def below_def after_def
            split: option.splits)
    qed
  qed
  finally show ?thesis .
qed

end

lemma in_bounds_later: "in_bounds opts i \<Longrightarrow> i < x \<Longrightarrow> in_bounds opts x \<longleftrightarrow> below opts x"
  using after_mono [of i x opts]
  by (auto simp: in_bounds_def below_def after_def less_prod_def' split: option.splits prod.splits)

lemma sorted_tail: "sorted_wrt (<) (i # xs) \<Longrightarrow> filter (\<lambda>x. (i :: 'a :: linorder) < x) (i # xs) = xs"
  by (auto simp: filter_id_conv)

context ordered_tree
begin

lemma rest_to_examine:
  assumes L: "L = tree_ascend ops least_item t"
    and R: "filter (\<lambda>x. in_bounds opts x \<and> beyond lst x) L = i # rest"
  shows "to_examine opts (Some i) (tree_ascend ops (start_item opts (Some i)) t) = rest"
    and "filter (\<lambda>x. in_bounds opts x \<and> beyond (Some i) x) L = rest"
    and "in_bounds opts i"
proof -
  have "sorted_wrt (<) L" using ascend_sorted [of least_item t] by (simp add: sorted_wrt_lessFunc L)
  then have f: "sorted_wrt (<) (filter P L)" for P by (rule sorted_wrt_filter)
  have "i \<in> set (filter (\<lambda>x. in_bounds opts x \<and> beyond lst x) L)" by (simp add: R)
  then have i: "in_bounds opts i" "beyond lst i" by auto
  then have later: "i < x \<Longrightarrow> beyond lst x" for x by (auto simp: beyond_def split: option.splits)
  have "rest = filter (\<lambda>x. i < x) (filter (\<lambda>x. in_bounds opts x \<and> beyond lst x) L)"
    using sorted_tail f R by metis
  also have "\<dots> = filter (\<lambda>x. in_bounds opts x \<and> beyond (Some i) x) L"
    unfolding filter_filter by (rule filter_cong) (auto simp: beyond_def [of "Some i"] later)
  finally show r: "filter (\<lambda>x. in_bounds opts x \<and> beyond (Some i) x) L = rest" ..
  have "to_examine opts (Some i) (tree_ascend ops (start_item opts (Some i)) t) =
      filter (\<lambda>x. \<not> lessFunc x i \<and> beyond (Some i) x \<and> below opts x) L"
    unfolding to_examine_def start_item_def option.case ascend_filter [of i] L [symmetric] filter_filter
    using filter_prefix [OF f below_anti] by (simp add: filter_filter conj_ac)
  also have "\<dots> = filter (\<lambda>x. in_bounds opts x \<and> beyond (Some i) x) L"
    by (rule filter_cong) (auto simp: beyond_def lessFunc_iff in_bounds_later [OF i(1)])
  finally show "to_examine opts (Some i) (tree_ascend ops (start_item opts (Some i)) t) = rest"
    unfolding r .
  show "in_bounds opts i" by (rule i)
qed

lemma drain_all:
  assumes "\<not> view_closed v" and "\<not> it_closed it" and "Limit (it_opts it) \<le> 0"
    and "view_examined v + int (length (to_examine (it_opts it) (it_last it)
      (tree_ascend ops (start_item (it_opts it) (it_last it)) (view_tree v)))) \<le> view_maxExamined v"
    and "\<And>l. it_last it = Some l \<Longrightarrow> in_bounds (it_opts it) l"
    and "length (filter (\<lambda>i. in_bounds (it_opts it) i \<and> beyond (it_last it) i)
      (tree_ascend ops least_item (view_tree v))) < n"
  shows "drain ops n v it = Inr (map ref_of_item
    (filter (\<lambda>i. in_bounds (it_opts it) i \<and> beyond (it_last it) i) (tree_ascend ops least_item (view_tree v))))"
  using assms
proof (induction n arbitrary: v it)
  case (Suc n)
  let ?E = "to_examine (it_opts it) (it_last it)
    (tree_ascend ops (start_item (it_opts it) (it_last it)) (view_tree v))"
  let ?R = "filter (\<lambda>i. in_bounds (it_opts it) i \<and> beyond (it_last it) i) (tree_ascend ops least_item (view_tree v))"
  let ?k = "int (length (takeWhile (\<lambda>i. \<not> after (it_opts it) i) ?E))"
  have R: "dropWhile (\<lambda>i. \<not> after (it_opts it) i) ?E = ?R"
    using to_examine_first [OF refl Suc.prems(5)] .
  note loop = next_loop_within [OF Suc.prems(4), of "it_examined it", unfolded Let_def R]
  show ?case
  proof (cases ?R)
    case Nil
    then show ?thesis using Suc.prems(1-3) loop by (simp add: it_Next_def)
  next
    case (Cons i rest)
    let ?v = "v\<lparr>view_examined := view_examined v + ?k + 1\<rparr>"
    let ?it = "it\<lparr>it_examined := it_examined it + ?k + 1, it_last := Some i, it_count := it_count it + 1\<rparr>"
    have step: "it_Next ops False v it = (?v, ?it, Inr (Some (ref_of_item i)))"
      using Suc.prems(1-3) loop Cons by (simp add: it_Next_def ref_of_item_def)
    have "length ?E = length (takeWhile (\<lambda>i. \<not> after (it_opts it) i) ?E) + Suc (length rest)"
      using R Cons by (metis length_Cons length_append takeWhile_dropWhile_id)
    then have "view_examined ?v + int (length rest) \<le> view_maxExamined ?v"
      using Suc.prems(4) by simp
    moreover have "length rest < n" using Suc.prems(6) Cons by simp
    ultimately have "drain ops n ?v ?it = Inr (map ref_of_item rest)"
      using Suc.IH [of ?v ?it] Suc.prems(1-3) rest_to_examine [OF refl Cons] by simp
    then show ?thesis using step Cons by simp
  qed
qed simp

end

section \<open>Reachable stores\<close>

text \<open>The states the operations of a store reach from a new one.\<close>

inductive reachable_store :: "'t btree \<Rightarrow> 't mem_store \<Rightarrow> bool" for ops where
  reach_New: "reachable_store ops New"
| reach_Upsert: "reachable_store ops s \<Longrightarrow> reachable_store ops (Upsert ops db pattern tmplID docID key p s)"
| reach_Delete: "reachable_store ops s \<Longrightarrow> reachable_store ops (Delete ops db pattern tmplID docID p s)"
| reach_DeleteIndex: "reachable_store ops s \<Longrightarrow> reachable_store ops (DeleteIndex db pattern tmplID s)"
| reach_DeleteDatabase: "reachable_store ops s \<Longrightarrow> reachable_store ops (DeleteDatabase db s)"
| reach_SetState: "reachable_store ops s \<Longrightarrow> reachable_store ops (SetState ops db pattern tmplID st s)"
| reach_Apply: "reachable_store ops s \<Longrightarrow> ApplyDocumentProjection ops ps p s = Inr s' \<Longrightarrow> reachable_store ops s'"
| reach_Catalog: "reachable_store ops s \<Longrightarrow> PublishBootstrapCatalog c s = Inr s' \<Longrightarrow> reachable_store ops s'"
| reach_Catalogs: "reachable_store ops s \<Longrightarrow> PublishBootstrapCatalogs cs p s = Inr s' \<Longrightarrow> reachable_store ops s'"
| reach_DeleteQueryIndex: "reachable_store ops s \<Longrightarrow> DeleteQueryIndex ref s = Inr s' \<Longrightarrow> reachable_store ops s'"
| reach_Publish: "reachable_store ops s \<Longrightarrow> PublishGeneration ops ref p s = Inr s' \<Longrightarrow> reachable_store ops s'"
| reach_Failure: "reachable_store ops s \<Longrightarrow> SetFailure ops ref failure s = Inr s' \<Longrightarrow> reachable_store ops s'"

definition indexes_ok :: "'t btree \<Rightarrow> 't mem_store \<Rightarrow> bool" where
  "indexes_ok ops s \<longleftrightarrow>
     (\<forall>db d key idx. databases s db = Some d \<longrightarrow> indexes d key = Some idx \<longrightarrow> idx_ok ops idx)"

definition partitions_ok :: "'t btree \<Rightarrow> 't mem_store \<Rightarrow> bool" where
  "partitions_ok ops s \<longleftrightarrow> (\<forall>ref idx. partitions s ref = Some idx \<longrightarrow> pi_ok ops idx)"

definition generations_ok :: "'t mem_store \<Rightarrow> bool" where
  "generations_ok s \<longleftrightarrow> (\<forall>key g. generations s key = Some g \<longrightarrow> (Ready g \<longleftrightarrow> Failure g = ''''))"

definition store_ok :: "'t btree \<Rightarrow> 't mem_store \<Rightarrow> bool" where
  "store_ok ops s \<longleftrightarrow> indexes_ok ops s \<and> partitions_ok ops s \<and> generations_ok s"

lemma set_progress_fields [simp]:
  "databases (set_progress p s) = databases s" "partitions (set_progress p s) = partitions s"
  "generations (set_progress p s) = generations s" "catalogs (set_progress p s) = catalogs s"
  "retiredDatabases (set_progress p s) = retiredDatabases s"
  "progress (set_progress p s) = (if p \<noteq> '''' then p else progress s)"
  by (simp_all add: set_progress_def)

lemma store_ok_progress [simp]: "store_ok ops (set_progress p s) = store_ok ops s"
  by (simp add: store_ok_def indexes_ok_def partitions_ok_def generations_ok_def)

lemma idx_ok_SetState [simp]: "idx_ok ops (idx_SetState st idx) = idx_ok ops idx"
  by (simp add: idx_ok_def idx_SetState_def)

context ordered_tree
begin

lemma fold_insert_items:
  "tree_items ops (fold (\<lambda>k t. tree_insert ops (k, d) t) keys t) = tree_items ops t \<union> {(k, d) | k. k \<in> set keys}"
  by (induction keys arbitrary: t) (auto simp: insert_items)

lemma fold_delete_items:
  "tree_items ops (fold (\<lambda>k t. tree_delete ops (k, d) t) keys t) = tree_items ops t - {(k, d) | k. k \<in> set keys}"
  by (induction keys arbitrary: t) (auto simp: delete_items)

lemma replace_items:
  assumes "pi_ok ops idx"
  shows "tree_items ops (pi_tree (replace_projection ops d keys idx)) =
    {i \<in> tree_items ops (pi_tree idx). snd i \<noteq> d} \<union> {(k, d) | k. k \<in> set keys}"
  using assms
  by (auto simp: replace_projection_def Let_def fold_insert_items fold_delete_items pi_ok_def split: option.splits)

lemma replace_ok: "pi_ok ops idx \<Longrightarrow> pi_ok ops (replace_projection ops d keys idx)"
  unfolding pi_ok_def [of _ "replace_projection ops d keys idx"] replace_items
  by (auto simp: replace_projection_def Let_def pi_ok_def split: if_splits)

lemma partition_ok: "partitions_ok ops s \<Longrightarrow> pi_ok ops (partition_of ops ref s)"
  by (auto simp: partitions_ok_def partition_of_def pi_ok_def new_items split: option.splits)

lemma WithIndex_ok:
  assumes "indexes_ok ops s" and "\<And>idx. idx_ok ops idx \<Longrightarrow> idx_ok ops (f idx)"
  shows "indexes_ok ops (s\<lparr>databases := (databases s)(db \<mapsto> WithIndex ops p tid raw f (getOrCreateDB db s))\<rparr>)"
  unfolding indexes_ok_def
proof (intro allI impI)
  fix db' d key idx
  assume "databases (s\<lparr>databases := (databases s)(db \<mapsto> WithIndex ops p tid raw f (getOrCreateDB db s))\<rparr>) db' = Some d"
    and "indexes d key = Some idx"
  then show "idx_ok ops idx"
    using assms new_ok [of p tid raw]
    by (fastforce simp: indexes_ok_def WithIndex_def getOrCreateDB_def NewDatabase_def Let_def
        split: if_splits option.splits)
qed

lemma apply_fold_ok:
  "store_ok ops s \<Longrightarrow> store_ok ops (fold (apply_projection ops) ps s)"
proof (induction ps arbitrary: s)
  case (Cons p ps)
  have "store_ok ops (apply_projection ops p s)"
    using Cons.prems replace_ok [OF partition_ok, of s]
    by (auto simp: store_ok_def apply_projection_def indexes_ok_def generations_ok_def partitions_ok_def)
  then show ?case using Cons.IH by simp
qed simp

end

context ordered_tree
begin

lemma reachable_ok: "reachable_store ops s \<Longrightarrow> store_ok ops s"
proof (induction rule: reachable_store.induct)
  case reach_New
  then show ?case
    by (simp add: store_ok_def indexes_ok_def partitions_ok_def generations_ok_def New_def)
next
  case (reach_Upsert s db pattern tmplID docID key p)
  then show ?case
    using WithIndex_ok [of s "idx_Upsert ops docID key"] upsert_ok
    by (simp add: Upsert_def store_ok_def Let_def)
      (simp add: partitions_ok_def generations_ok_def indexes_ok_def)
next
  case (reach_Delete s db pattern tmplID docID p)
  then show ?case
    using delete_ok
    by (auto simp: Delete_def store_ok_def Let_def indexes_ok_def partitions_ok_def generations_ok_def
        GetIndex_def split: option.splits if_splits)
next
  case (reach_DeleteIndex s db pattern tmplID)
  then show ?case
    by (auto simp: DeleteIndex_def db_DeleteIndex_def store_ok_def indexes_ok_def partitions_ok_def
        generations_ok_def split: option.splits if_splits)
next
  case (reach_DeleteDatabase s db)
  then show ?case
    by (auto simp: DeleteDatabase_def store_ok_def indexes_ok_def partitions_ok_def generations_ok_def
        split: if_splits)
next
  case (reach_SetState s db pattern tmplID st)
  then show ?case
    using WithIndex_ok [of s "idx_SetState (case st of IndexStateRebuilding \<Rightarrow> StateRebuilding
      | IndexStateFailed \<Rightarrow> StateFailed | _ \<Rightarrow> StateHealthy)"]
    by (simp add: SetState_def store_ok_def Let_def)
      (simp add: partitions_ok_def generations_ok_def)
next
  case (reach_Apply s ps p s')
  then show ?case using apply_fold_ok by (auto simp: ApplyDocumentProjection_def result_simps)
next
  case (reach_Catalog s c s')
  then show ?case
    by (auto simp: PublishBootstrapCatalog_def result_simps store_ok_def indexes_ok_def partitions_ok_def
        generations_ok_def split: if_splits)
next
  case (reach_Catalogs s cs p s')
  then show ?case
    by (auto simp: PublishBootstrapCatalogs_def result_simps Let_def store_ok_def indexes_ok_def
        partitions_ok_def generations_ok_def)
next
  case (reach_DeleteQueryIndex s ref s')
  then show ?case
    by (auto simp: DeleteQueryIndex_def Let_def store_ok_def indexes_ok_def partitions_ok_def
        generations_ok_def split: if_splits option.splits)
next
  case (reach_Publish s ref p s')
  then show ?case
    using partition_ok [of s ref]
    by (auto simp: PublishGeneration_def store_ok_def indexes_ok_def partitions_ok_def generations_ok_def
        split: if_splits)
next
  case (reach_Failure s ref failure s')
  then show ?case
    using partition_ok [of s ref]
    by (auto simp: SetFailure_def Let_def store_ok_def indexes_ok_def partitions_ok_def generations_ok_def
        split: if_splits option.splits)
qed

end

section \<open>What the operations do to the contents\<close>

definition posting_set :: "'t btree \<Rightarrow> query_index_ref \<Rightarrow> 't mem_store \<Rightarrow> btree_item set" where
  "posting_set ops ref s = tree_items ops (pi_tree (partition_of ops ref s))"

text \<open>The documents a list of replacements names in a partition, and the keys it gives them.\<close>

definition replaces :: "projection list \<Rightarrow> query_index_ref \<Rightarrow> string \<Rightarrow> bool" where
  "replaces rs ref d \<longleftrightarrow> (ref, d) \<in> (\<lambda>r. (Index r, DocumentID r)) ` set rs"

definition replaced_keys :: "projection list \<Rightarrow> query_index_ref \<Rightarrow> string \<Rightarrow> bytes set" where
  "replaced_keys rs ref d = \<Union> {ks. (ref, d, ks) \<in> (\<lambda>r. (Index r, DocumentID r, set (PostingKeys r))) ` set rs}"

definition search_limit :: "search_options \<Rightarrow> nat" where
  "search_limit opts = (if Limit opts \<le> 0 then 1000 else nat (Limit opts))"

lemma map_eq_set: "map f xs = map f ys \<Longrightarrow> f ` set xs = f ` set ys"
  by (metis list.set_map)

context ordered_tree
begin

lemma list_of_items:
  "sorted_wrt (<) (tree_ascend ops least_item t) \<and> set (tree_ascend ops least_item t) = tree_items ops t"
  using ascend_sorted [of least_item t] by (simp add: sorted_wrt_lessFunc tree_items_def)

lemma Search_sorted:
  assumes "reachable_store ops s"
  shows "\<exists>L. sorted_wrt (<) L \<and> set L = {(k, d). Get db p t d s = Some k} \<and>
    Search ops db p t opts s = take (search_limit opts) (map ref_of_item (filter (in_bounds opts) L))"
proof (cases "\<exists>d idx. databases s db = Some d \<and> GetIndex p t d = Some idx")
  case True
  then obtain d idx where d: "databases s db = Some d" "GetIndex p t d = Some idx" by blast
  then have "idx_ok ops idx"
    using reachable_ok [OF assms] by (auto simp: store_ok_def indexes_ok_def GetIndex_def)
  then show ?thesis
    using d list_of_items [of "idx_tree idx"]
    by (intro exI [of _ "tree_ascend ops least_item (idx_tree idx)"])
      (simp add: Get_def Search_def search_correct search_limit_def idx_Get_def idx_ok_def)
next
  case False
  then show ?thesis
    by (intro exI [of _ "[]"]) (auto simp: Get_def Search_def split: option.splits)
qed

lemma apply_fold_postings:
  assumes "partitions_ok ops s" and "distinct (map (\<lambda>p. (Index p, DocumentID p)) ps)"
  shows "posting_set ops ref (fold (apply_projection ops) ps s) =
    {i \<in> posting_set ops ref s. \<not> replaces ps ref (snd i)} \<union> {(k, d). k \<in> replaced_keys ps ref d}"
  using assms
proof (induction ps arbitrary: s)
  case (Cons p ps)
  have ok: "partitions_ok ops (apply_projection ops p s)"
    using Cons.prems(1) replace_ok [OF partition_ok, of s]
    by (auto simp: apply_projection_def partitions_ok_def)
  have one: "posting_set ops ref (apply_projection ops p s) =
    (if Index p = ref
     then {i \<in> posting_set ops ref s. snd i \<noteq> DocumentID p} \<union> {(k, DocumentID p) | k. k \<in> set (PostingKeys p)}
     else posting_set ops ref s)"
    using replace_items [OF partition_ok [OF Cons.prems(1)]]
    by (auto simp: posting_set_def apply_projection_def partition_of_def)
  have new: "\<not> replaces ps (Index p) (DocumentID p)" using Cons.prems(2) by (auto simp: replaces_def)
  have reps: "replaces (p # ps) ref d \<longleftrightarrow> (ref = Index p \<and> d = DocumentID p) \<or> replaces ps ref d" for d
    by (auto simp: replaces_def)
  have keys: "replaced_keys (p # ps) ref d =
      (if ref = Index p \<and> d = DocumentID p then set (PostingKeys p) else {}) \<union> replaced_keys ps ref d" for d
    by (auto simp: replaced_keys_def)
  show ?case
    using Cons.IH [OF ok] Cons.prems(2) new unfolding fold_Cons comp_apply one reps keys
    by (auto split: if_splits)
qed (simp add: replaces_def replaced_keys_def)

lemma Apply_postings:
  assumes r: "reachable_store ops s" and a: "ApplyDocumentProjection ops rs p s = Inr s'"
  shows "posting_set ops ref s' =
    {i \<in> posting_set ops ref s. \<not> replaces rs ref (snd i)} \<union> {(k, d). k \<in> replaced_keys rs ref d}"
proof -
  obtain qs where q: "own_projections [] rs = Inr qs" "s' = set_progress p (fold (apply_projection ops) qs s)"
    using a by (auto simp: ApplyDocumentProjection_def OwnProjections_def result_simps)
  let ?f = "\<lambda>r. (Index r, DocumentID r, set (PostingKeys r))"
  have me: "map ?f qs = map ?f rs" and o: "distinct (map (\<lambda>p. (Index p, DocumentID p)) qs)"
    using own_projections_Inr [OF q(1)] by blast+
  have m: "?f ` set qs = ?f ` set rs" using map_eq_set [OF me] .
  have proj: "(\<lambda>r. (Index r, DocumentID r)) ` set X = (\<lambda>(i, d, ks). (i, d)) ` ?f ` set X" for X
    by (simp add: image_image)
  have keep: "replaces qs = replaces rs"
    by (intro ext) (simp only: replaces_def proj m)
  have keys: "replaced_keys qs = replaced_keys rs"
    by (intro ext) (simp only: replaced_keys_def m)
  have "partitions_ok ops s" using reachable_ok [OF r] by (simp add: store_ok_def)
  from apply_fold_postings [OF this o, of ref]
  have "posting_set ops ref s' =
      {i \<in> posting_set ops ref s. \<not> replaces qs ref (snd i)} \<union> {(k, d). k \<in> replaced_keys qs ref d}"
    by (simp only: q(2) posting_set_def partition_of_def set_progress_fields)
  then show ?thesis by (simp only: keep keys)
qed

end

definition index_at :: "string \<Rightarrow> string \<Rightarrow> 't mem_store \<Rightarrow> 't index option" where
  "index_at db key s = (case databases s db of None \<Rightarrow> None | Some d \<Rightarrow> indexes d key)"

lemma Get_index_at: "Get db p t d s = (case index_at db (IndexKey p t) s of None \<Rightarrow> None | Some idx \<Rightarrow> byID idx d)"
  by (simp add: Get_def index_at_def GetIndex_def idx_Get_def split: option.splits)

lemma index_at_Upsert:
  "index_at db' key (Upsert ops db p t d k pr s) =
     (if db' = db \<and> key = IndexKey p t
      then Some (idx_Upsert ops d k (case index_at db key s of Some i \<Rightarrow> i | None \<Rightarrow> NewIndex ops p t p))
      else index_at db' key s)"
  by (cases "databases s db")
    (simp_all add: index_at_def Upsert_def WithIndex_def getOrCreateDB_def NewDatabase_def Let_def)

lemma index_at_Delete:
  "index_at db' key (Delete ops db p t d pr s) =
     (if db' = db \<and> key = IndexKey p t then map_option (idx_Delete ops d) (index_at db key s)
      else index_at db' key s)"
  by (cases "databases s db"; cases "GetIndex p t (the (databases s db))")
    (auto simp: index_at_def Delete_def GetIndex_def Let_def)

lemma byID_idx_Upsert: "byID (idx_Upsert ops d k idx) = (byID idx)(d \<mapsto> k)"
  by (simp add: idx_Upsert_def Let_def)

lemma byID_idx_Delete: "byID (idx_Delete ops d idx) = (byID idx)(d := None)"
  by (cases "byID idx d") (auto simp: idx_Delete_def fun_upd_idem)

text \<open>When a generation reads as ready.\<close>

definition read_ref :: "query_index_ref \<Rightarrow> 't mem_store \<Rightarrow> generation option" where
  "read_ref ref s = ReadGeneration (RefDatabase ref) (RefCollection ref) (TemplateFingerprint ref) s"

lemma read_ref_ready:
  assumes "read_ref ref s = Some g" and "GenID g = RefGeneration ref" and "Ready g"
  shows "(\<exists>c. catalog_covers ref s = Some c \<and> CatGeneration c = RefGeneration ref \<and>
      (\<forall>l. generations s (generationIdentity ref) = Some l \<longrightarrow> GenID l = RefGeneration ref \<longrightarrow> Failure l = [])) \<or>
    (catalogs s (RefDatabase ref) = None \<and> generations s (generationIdentity ref) = Some g)"
proof (cases "catalogs s (RefDatabase ref)")
  case None
  then show ?thesis
    using assms by (simp add: read_ref_def ReadGeneration_def ResolveGeneration_def generationIdentity_def split: if_splits)
next
  case (Some c)
  then have r: "ResolveGeneration (Some c) (TemplateFingerprint ref) (generations s (generationIdentity ref)) = Some g"
    using assms(1) by (simp add: read_ref_def ReadGeneration_def generationIdentity_def split: if_splits)
  then have f: "TemplateFingerprint ref \<in> set (TemplateFingerprints c)"
    by (simp add: ResolveGeneration_def split: if_splits)
  have "CatGeneration c = GenID g"
    using r f by (auto simp: ResolveGeneration_def Let_def split: option.splits if_splits)
  moreover have "Failure l = []"
    if "generations s (generationIdentity ref) = Some l" "GenID l = CatGeneration c" for l
    using r f that assms(3) by (auto simp: ResolveGeneration_def Let_def split: if_splits)
  ultimately show ?thesis using Some f assms(2) by (simp add: catalog_covers_def)
qed

lemma SetFailure_recorded:
  assumes "SetFailure ops ref failure s = Inr s'"
  shows "(\<exists>c. catalog_covers ref s' = Some c \<and> CatGeneration c \<noteq> RefGeneration ref) \<or>
    (\<exists>l. generations s' (generationIdentity ref) = Some l \<and> GenID l = RefGeneration ref \<and>
       \<not> Ready l \<and> Failure l \<noteq> [])"
proof (cases "\<exists>c. catalog_covers ref s = Some c \<and> CatGeneration c \<noteq> RefGeneration ref")
  case True
  then show ?thesis using assms by (auto simp: SetFailure_def split: if_splits)
next
  case False
  then have c: "\<not> (case catalog_covers ref s of Some c \<Rightarrow> CatGeneration c \<noteq> RefGeneration ref | None \<Rightarrow> False)"
    by (auto split: option.splits)
  show ?thesis
    using assms c
    by (cases "generations s (generationIdentity ref)") (auto simp: SetFailure_def Let_def split: if_splits)
qed

lemma DeleteQueryIndex_recorded:
  assumes "DeleteQueryIndex ref s = Inr s'"
  shows "(\<exists>l. generations s' (generationIdentity ref) = Some l \<and> GenID l = RefGeneration ref \<and>
        \<not> Ready l \<and> Failure l \<noteq> []) \<or>
    ((\<forall>c. catalog_covers ref s' = Some c \<longrightarrow> CatGeneration c \<noteq> RefGeneration ref) \<and>
     (\<forall>l. generations s' (generationIdentity ref) = Some l \<longrightarrow> GenID l \<noteq> RefGeneration ref))"
proof -
  let ?key = "generationIdentity ref"
  define g1 where "g1 = (case generations s ?key of
      Some g \<Rightarrow> if GenID g = RefGeneration ref then (generations s)(?key := None) else generations s
    | None \<Rightarrow> generations s)"
  have g1: "\<And>l. g1 ?key = Some l \<Longrightarrow> GenID l \<noteq> RefGeneration ref"
    by (auto simp: g1_def split: option.splits if_splits)
  have s': "s' = s\<lparr>partitions := (partitions s)(ref := None), generations :=
      (case catalog_covers ref s of
         Some c \<Rightarrow> if CatGeneration c = RefGeneration ref
           then g1(?key \<mapsto> \<lparr>GenID = RefGeneration ref, Ready = False,
             BootstrapProgress = CatProgress c, Failure = ''index partition deleted''\<rparr>) else g1
       | None \<Rightarrow> g1)\<rparr>"
    using assms unfolding g1_def DeleteQueryIndex_def Let_def by (simp split: if_splits)
  have "catalog_covers ref s' = catalog_covers ref s" by (simp add: s' catalog_covers_def)
  then show ?thesis using g1 by (cases "catalog_covers ref s") (auto simp: s')
qed

section \<open>Withdrawn generations\<close>

text \<open>
  A catalog names the generation of a partition when a read through it resolves to that generation.  The
  operations that may follow a failure without publishing the generation again are all of the store's, except
  \<open>PublishGeneration\<close> of the same partition and bootstrap catalogs that name it.
\<close>

definition catalog_names :: "query_index_ref \<Rightarrow> bootstrap_catalog \<Rightarrow> bool" where
  "catalog_names ref c \<longleftrightarrow> CatDatabase c = RefDatabase ref \<and> CatGeneration c = RefGeneration ref \<and>
     TemplateFingerprint ref \<in> set (TemplateFingerprints c)"

inductive unpublished_after :: "'t btree \<Rightarrow> query_index_ref \<Rightarrow> 't mem_store \<Rightarrow> 't mem_store \<Rightarrow> bool" for ops ref where
  after_none: "unpublished_after ops ref s s"
| after_Upsert: "unpublished_after ops ref s0 s \<Longrightarrow> unpublished_after ops ref s0 (Upsert ops db pattern tmplID docID key p s)"
| after_Delete: "unpublished_after ops ref s0 s \<Longrightarrow> unpublished_after ops ref s0 (Delete ops db pattern tmplID docID p s)"
| after_DeleteIndex: "unpublished_after ops ref s0 s \<Longrightarrow> unpublished_after ops ref s0 (DeleteIndex db pattern tmplID s)"
| after_DeleteDatabase: "unpublished_after ops ref s0 s \<Longrightarrow> unpublished_after ops ref s0 (DeleteDatabase db s)"
| after_SetState: "unpublished_after ops ref s0 s \<Longrightarrow> unpublished_after ops ref s0 (SetState ops db pattern tmplID st s)"
| after_Apply: "unpublished_after ops ref s0 s \<Longrightarrow> ApplyDocumentProjection ops ps p s = Inr s' \<Longrightarrow> unpublished_after ops ref s0 s'"
| after_Catalog: "unpublished_after ops ref s0 s \<Longrightarrow> PublishBootstrapCatalog c s = Inr s' \<Longrightarrow> \<not> catalog_names ref c \<Longrightarrow>
    unpublished_after ops ref s0 s'"
| after_Catalogs: "unpublished_after ops ref s0 s \<Longrightarrow> PublishBootstrapCatalogs cs p s = Inr s' \<Longrightarrow>
    \<forall>c \<in> set cs. \<not> catalog_names ref c \<Longrightarrow> unpublished_after ops ref s0 s'"
| after_DeleteQueryIndex: "unpublished_after ops ref s0 s \<Longrightarrow> DeleteQueryIndex ref' s = Inr s' \<Longrightarrow> unpublished_after ops ref s0 s'"
| after_Publish: "unpublished_after ops ref s0 s \<Longrightarrow> PublishGeneration ops ref' p s = Inr s' \<Longrightarrow> ref' \<noteq> ref \<Longrightarrow>
    unpublished_after ops ref s0 s'"
| after_Failure: "unpublished_after ops ref s0 s \<Longrightarrow> SetFailure ops ref' failure s = Inr s' \<Longrightarrow> unpublished_after ops ref s0 s'"

definition withdrawn :: "query_index_ref \<Rightarrow> 't mem_store \<Rightarrow> bool" where
  "withdrawn ref s \<longleftrightarrow>
     (\<forall>c. catalog_covers ref s = Some c \<longrightarrow> CatGeneration c = RefGeneration ref \<longrightarrow>
        (\<exists>l. generations s (generationIdentity ref) = Some l \<and> GenID l = RefGeneration ref \<and> Failure l \<noteq> '''')) \<and>
     (catalogs s (RefDatabase ref) = None \<longrightarrow> catalogInventoryPublished s \<or> RefDatabase ref \<in> retiredDatabases s \<or>
        (\<forall>l. generations s (generationIdentity ref) = Some l \<longrightarrow> GenID l = RefGeneration ref \<longrightarrow> \<not> Ready l))"

lemma withdrawn_not_ready:
  assumes "withdrawn ref s" and "read_ref ref s = Some g" and "GenID g = RefGeneration ref"
  shows "\<not> Ready g"
proof
  assume "Ready g"
  from read_ref_ready [OF assms(2,3) this] assms(1,3) \<open>Ready g\<close> assms(2) show False
    by (fastforce simp: withdrawn_def read_ref_def ReadGeneration_def split: if_splits)
qed

lemma same_identity: "generationIdentity ref' = generationIdentity ref \<Longrightarrow> RefGeneration ref' = RefGeneration ref \<Longrightarrow> ref' = ref"
  by (simp add: generationIdentity_def)

lemma covers_same: "generationIdentity ref' = generationIdentity ref \<Longrightarrow> catalog_covers ref' s = catalog_covers ref s"
  by (auto simp: generationIdentity_def catalog_covers_def split: option.splits)



lemma own_catalog_names: "OwnBootstrapCatalog c = Inr d \<Longrightarrow> catalog_names ref d = catalog_names ref c \<and> CatDatabase d = CatDatabase c"
  by (auto simp: OwnBootstrapCatalog_def catalog_names_def split: if_splits)

lemma own_catalogs_names:
  "own_catalogs g p dbs cs = Inr ds \<Longrightarrow> \<forall>c \<in> set cs. \<not> catalog_names ref c \<Longrightarrow> \<forall>d \<in> set ds. \<not> catalog_names ref d"
  by (induction g p dbs cs arbitrary: ds rule: own_catalogs.induct)
    (auto simp: result_simps own_catalog_names split: if_splits)

lemma fold_catalogs: "fold (\<lambda>c m. m(CatDatabase c \<mapsto> c)) cs m db = Some d \<Longrightarrow> d \<in> set cs \<and> CatDatabase d = db \<or> m db = Some d"
  by (induction cs arbitrary: m) (fastforce split: if_splits)+

text \<open>The operations that leave generations and catalogs alone.\<close>

definition same_generations :: "'t mem_store \<Rightarrow> 't mem_store \<Rightarrow> bool" where
  "same_generations s s' \<longleftrightarrow> generations s' = generations s \<and> catalogs s' = catalogs s \<and>
     retiredDatabases s' = retiredDatabases s \<and> catalogInventoryPublished s' = catalogInventoryPublished s"

lemma same_withdrawn: "same_generations s s' \<Longrightarrow> withdrawn ref s' = withdrawn ref s"
  by (simp add: same_generations_def withdrawn_def catalog_covers_def)

lemma same_read: "same_generations s s' \<Longrightarrow> ReadGeneration db collection fingerprint s' = ReadGeneration db collection fingerprint s"
  by (simp add: same_generations_def ReadGeneration_def)

lemma same_apply: "same_generations s (fold (apply_projection ops) ps s)"
proof (induction ps arbitrary: s)
  case (Cons p ps)
  have "same_generations s (apply_projection ops p s)" by (simp add: same_generations_def apply_projection_def)
  then show ?case using Cons.IH [of "apply_projection ops p s"] by (simp add: same_generations_def)
qed (simp add: same_generations_def)

lemma same_updates:
  "same_generations s (set_progress p s)"
  "same_generations s (Upsert ops db pattern tmplID docID key p s)"
  "same_generations s (Delete ops db pattern tmplID docID p s)"
  "same_generations s (DeleteIndex db pattern tmplID s)"
  "same_generations s (SetState ops db pattern tmplID st s)"
  "ApplyDocumentProjection ops ps p s = Inr s' \<Longrightarrow> same_generations s s'"
  using same_apply [of s ops]
  by (auto simp: same_generations_def Upsert_def Delete_def DeleteIndex_def SetState_def set_progress_def
      ApplyDocumentProjection_def result_simps Let_def split: option.splits if_splits)

lemma failure_withdrawn:
  assumes "SetFailure ops ref failure s = Inr s' \<or> DeleteQueryIndex ref s = Inr s'"
  shows "withdrawn ref s'"
  using assms
proof
  assume "SetFailure ops ref failure s = Inr s'"
  from SetFailure_recorded [OF this] show ?thesis
    by (auto simp: withdrawn_def catalog_covers_def split: option.splits if_splits)
next
  assume "DeleteQueryIndex ref s = Inr s'"
  from DeleteQueryIndex_recorded [OF this] show ?thesis by (auto simp: withdrawn_def)
qed

lemma after_DeleteQueryIndex_withdrawn:
  assumes w: "withdrawn ref s" and d: "DeleteQueryIndex ref' s = Inr s'"
  shows "withdrawn ref s'"
proof (cases "generationIdentity ref' = generationIdentity ref")
  case True
  show ?thesis
  proof (cases "ref' = ref")
    case True
    then show ?thesis using failure_withdrawn d by blast
  next
    case False
    then have g: "RefGeneration ref' \<noteq> RefGeneration ref" using same_identity True by blast
    have db: "RefDatabase ref' = RefDatabase ref" "TemplateFingerprint ref' = TemplateFingerprint ref"
      using True by (simp_all add: generationIdentity_def)
    show ?thesis using w d g True db
      by (auto simp: DeleteQueryIndex_def withdrawn_def catalog_covers_def Let_def split: option.splits if_splits)
  qed
next
  case False
  then have "generations s' (generationIdentity ref) = generations s (generationIdentity ref)"
    "catalogs s' = catalogs s" "retiredDatabases s' = retiredDatabases s" "catalogInventoryPublished s' = catalogInventoryPublished s"
    using d by (auto simp: DeleteQueryIndex_def Let_def split: option.splits if_splits)
  then show ?thesis using w by (simp add: withdrawn_def catalog_covers_def)
qed


lemma after_SetFailure_withdrawn:
  assumes w: "withdrawn ref s" and f: "SetFailure ops ref' failure s = Inr s'"
  shows "withdrawn ref s'"
proof (cases "generationIdentity ref' = generationIdentity ref")
  case True
  show ?thesis
  proof (cases "ref' = ref")
    case True
    then show ?thesis using failure_withdrawn f by blast
  next
    case False
    then have g: "RefGeneration ref' \<noteq> RefGeneration ref" using same_identity True by blast
    have db: "RefDatabase ref' = RefDatabase ref" "TemplateFingerprint ref' = TemplateFingerprint ref"
      using True by (simp_all add: generationIdentity_def)
    show ?thesis using w f g True db
      by (auto simp: SetFailure_def withdrawn_def catalog_covers_def Let_def split: option.splits if_splits)
  qed
next
  case False
  then have "generations s' (generationIdentity ref) = generations s (generationIdentity ref)"
    "catalogs s' = catalogs s" "retiredDatabases s' = retiredDatabases s" "catalogInventoryPublished s' = catalogInventoryPublished s"
    using f by (auto simp: SetFailure_def Let_def split: option.splits if_splits)
  then show ?thesis using w by (simp add: withdrawn_def catalog_covers_def)
qed

lemma after_Publish_withdrawn:
  assumes w: "withdrawn ref s" and p: "PublishGeneration ops ref' p s = Inr s'" and ref: "ref' \<noteq> ref"
  shows "withdrawn ref s'"
proof (cases "generationIdentity ref' = generationIdentity ref")
  case True
  then have g: "RefGeneration ref' \<noteq> RefGeneration ref" using same_identity ref by blast
  have db: "RefDatabase ref' = RefDatabase ref" "TemplateFingerprint ref' = TemplateFingerprint ref"
    using True by (simp_all add: generationIdentity_def)
  show ?thesis using w p g True db
    by (auto simp: PublishGeneration_def withdrawn_def catalog_covers_def set_progress_def split: option.splits if_splits)
next
  case False
  then have "generations s' (generationIdentity ref) = generations s (generationIdentity ref)"
    "catalogs s' = catalogs s" "retiredDatabases s' = retiredDatabases s" "catalogInventoryPublished s' = catalogInventoryPublished s"
    using p by (auto simp: PublishGeneration_def set_progress_def split: option.splits if_splits)
  then show ?thesis using w by (simp add: withdrawn_def catalog_covers_def)
qed

lemma after_catalogs_withdrawn:
  assumes w: "withdrawn ref s"
  shows "PublishBootstrapCatalog c s = Inr s' \<Longrightarrow> \<not> catalog_names ref c \<Longrightarrow> withdrawn ref s'"
    and "PublishBootstrapCatalogs cs p s = Inr s' \<Longrightarrow> \<forall>c \<in> set cs. \<not> catalog_names ref c \<Longrightarrow> withdrawn ref s'"
proof -
  assume c: "PublishBootstrapCatalog c s = Inr s'" "\<not> catalog_names ref c"
  then obtain d where d: "OwnBootstrapCatalog c = Inr d"
    "s' = set_progress (CatProgress c) (s\<lparr>catalogs := (catalogs s)(CatDatabase c \<mapsto> d)\<rparr>)"
    by (auto simp: PublishBootstrapCatalog_def result_simps split: if_splits)
  have "\<not> catalog_names ref d" "CatDatabase d = CatDatabase c" using own_catalog_names [OF d(1)] c(2) by simp_all
  note cd = this
  show "withdrawn ref s'"
  proof (cases "CatDatabase c = RefDatabase ref")
    case True
    then have "catalogs s' (RefDatabase ref) = Some d" by (simp add: d(2))
    then show ?thesis using cd True by (auto simp: withdrawn_def catalog_covers_def catalog_names_def split: if_splits)
  next
    case False
    then have "catalogs s' (RefDatabase ref) = catalogs s (RefDatabase ref)" by (simp add: d(2))
    then show ?thesis using w by (simp add: withdrawn_def catalog_covers_def d(2)) (simp add: set_progress_def)
  qed
next
  assume c: "PublishBootstrapCatalogs cs p s = Inr s'" "\<forall>c \<in> set cs. \<not> catalog_names ref c"
  then obtain ds where ds: "OwnBootstrapCatalogs cs p = Inr ds" "catalogInventoryPublished s'"
    "catalogs s' = fold (\<lambda>c m. m(CatDatabase c \<mapsto> c)) ds (\<lambda>_. None)"
    by (auto simp: PublishBootstrapCatalogs_def result_simps Let_def)
  obtain g where "own_catalogs g p [] cs = Inr ds"
    using ds(1) by (auto simp: OwnBootstrapCatalogs_def result_simps simp del: own_catalogs.simps split: list.splits if_splits)
  from own_catalogs_names [OF this c(2)] have names: "\<forall>d \<in> set ds. \<not> catalog_names ref d" .
  have "CatGeneration d \<noteq> RefGeneration ref" if "catalog_covers ref s' = Some d" for d
  proof -
    have d: "catalogs s' (RefDatabase ref) = Some d" "TemplateFingerprint ref \<in> set (TemplateFingerprints d)"
      using that by (auto simp: catalog_covers_def split: option.splits if_splits)
    have "d \<in> set ds \<and> CatDatabase d = RefDatabase ref" using fold_catalogs [OF d(1) [unfolded ds(3)]] by simp
    then show ?thesis using names d(2) by (auto simp: catalog_names_def)
  qed
  then show "withdrawn ref s'" using ds(2) unfolding withdrawn_def by blast
qed

lemma after_withdrawn: "unpublished_after ops ref s s' \<Longrightarrow> withdrawn ref s \<Longrightarrow> withdrawn ref s'"
proof (induction rule: unpublished_after.induct)
  case (after_DeleteDatabase s0 s db)
  then show ?case
    by (auto simp: DeleteDatabase_def withdrawn_def catalog_covers_def generationIdentity_def split: option.splits if_splits)
qed (auto simp: same_withdrawn [OF same_updates(2)] same_withdrawn [OF same_updates(3)] same_withdrawn [OF same_updates(4)]
    same_withdrawn [OF same_updates(5)] same_withdrawn [OF same_updates(6)]
    intro: after_DeleteQueryIndex_withdrawn after_SetFailure_withdrawn after_Publish_withdrawn after_catalogs_withdrawn)

section \<open>Properties\<close>

text \<open>
  C33: in every reachable store the ordered trees and the lookup tables agree: a tree holds exactly the
  current key of every document of its index and exactly the postings of its partition, and a
  generation is ready exactly when it has recorded no failure.
\<close>

theorem mem_store_invariant:
  assumes "ordered_tree ops" and "reachable_store ops s"
  shows "store_ok ops s"
  using ordered_tree.reachable_ok [OF assms] .

text \<open>
  C30: a search on a reachable store returns the first documents, up to the limit, of all indexed
  documents whose current key lies within the bounds and after the cursor, in ascending order of key
  and then of document ID; none is skipped and none is stale.
\<close>

theorem Search_refines:
  assumes "ordered_tree ops" and "reachable_store ops s"
  shows "\<exists>L. sorted_wrt (<) L \<and> set L = {(k, d). Get db p t d s = Some k} \<and>
    Search ops db p t opts s = take (search_limit opts) (map ref_of_item (filter (in_bounds opts) L))"
  using ordered_tree.Search_sorted [OF assms] .

text \<open>
  C35: \<open>Get\<close> sees \<open>Upsert\<close> and \<open>Delete\<close> as updates of one map, keyed by database, index key and
  document ID.
\<close>

theorem Get_updates:
  "Get db' p' t' d' (Upsert ops db p t d k pr s) =
     (if db' = db \<and> IndexKey p' t' = IndexKey p t \<and> d' = d then Some k else Get db' p' t' d' s) \<and>
   Get db' p' t' d' (Delete ops db p t d pr s) =
     (if db' = db \<and> IndexKey p' t' = IndexKey p t \<and> d' = d then None else Get db' p' t' d' s)"
  by (cases "index_at db (IndexKey p t) s")
    (simp_all add: Get_index_at index_at_Upsert index_at_Delete byID_idx_Upsert byID_idx_Delete NewIndex_def)

text \<open>
  C32: applying document projections to a reachable store replaces, in every partition, all postings
  of the documents named there by their new keys and leaves every other posting alone.
\<close>

theorem ApplyDocumentProjection_replaces:
  assumes "ordered_tree ops" and "reachable_store ops s" and "ApplyDocumentProjection ops rs p s = Inr s'"
  shows "posting_set ops ref s' =
    {i \<in> posting_set ops ref s. \<not> replaces rs ref (snd i)} \<union> {(k, d). k \<in> replaced_keys rs ref d}"
  using ordered_tree.Apply_postings [OF assms] .

text \<open>
  C31: an iterator without limit over a fresh view, stepped until it ends, returns within the work
  budget every posting of the partition that lies within the bounds and after the cursor, each once
  and in ascending order, and it does end.
\<close>

theorem iterator_returns_all:
  assumes "ordered_tree ops" and "ReadView ops False ref budget s = Inr v" and "Scan False opts v = Inr it"
    and "Limit opts \<le> 0" and "int (card (posting_set ops ref s)) \<le> view_maxExamined v"
    and "card (posting_set ops ref s) < n"
  shows "\<exists>L. sorted_wrt (<) L \<and> set L = {i \<in> posting_set ops ref s. in_bounds opts i} \<and>
    drain ops n v it = Inr (map ref_of_item L)"
proof -
  let ?T = "tree_ascend ops least_item (view_tree v)"
  have v: "\<not> view_closed v" "view_examined v = 0" "view_tree v = pi_tree (partition_of ops ref s)"
    using assms(2) by (auto simp: ReadView_def result_simps)
  have it: "it_opts it = opts" "it_last it = None" "\<not> it_closed it"
    using assms(3) v by (auto simp: Scan_def)
  have T: "sorted_wrt (<) ?T" "set ?T = posting_set ops ref s"
    using ordered_tree.list_of_items [OF assms(1), of "view_tree v"] by (simp_all add: v(3) posting_set_def)
  have card: "length ?T = card (posting_set ops ref s)"
    using T distinct_card strict_sorted_iff by metis
  have "length (to_examine opts None (tree_ascend ops p (view_tree v))) \<le> length ?T" for p
    unfolding to_examine_def ordered_tree.ascend_filter [OF assms(1), of p]
    by (metis le_trans length_filter_le length_takeWhile_le)
  then have "view_examined v + int (length (to_examine (it_opts it) (it_last it)
      (tree_ascend ops (start_item (it_opts it) (it_last it)) (view_tree v)))) \<le> view_maxExamined v"
    using assms(5) v(2) card it by (metis (no_types, lifting) add_0 of_nat_le_iff order_trans)
  moreover have "length (filter P ?T) < n" for P
    using assms(6) card length_filter_le [of P ?T] by simp
  ultimately have "drain ops n v it = Inr (map ref_of_item (filter (in_bounds opts) ?T))"
    using ordered_tree.drain_all [OF assms(1) v(1) it(3)] assms(4) it by (simp add: beyond_def)
  then show ?thesis using T by (intro exI [of _ "filter (in_bounds opts) ?T"]) (simp add: sorted_wrt_filter)
qed

text \<open>
  C34: a failed index stays unavailable.  After a generation has been marked failed, or its partition deleted,
  no later read of its collection and template returns that generation as ready, whatever operations the store
  runs in between, until the generation is published again: by \<open>PublishGeneration\<close> of the same partition or by a
  bootstrap catalog of its database that names the generation and the template.
\<close>

theorem failed_generation_not_ready:
  assumes "SetFailure ops ref failure s = Inr s1 \<or> DeleteQueryIndex ref s = Inr s1"
    and "unpublished_after ops ref s1 s'"
    and "ReadGeneration (RefDatabase ref) (RefCollection ref) (TemplateFingerprint ref) s' = Some g"
    and "GenID g = RefGeneration ref"
  shows "\<not> Ready g"
  using withdrawn_not_ready [OF after_withdrawn [OF assms(2) failure_withdrawn [OF assms(1)]]] assms(3,4)
  by (simp add: read_ref_def)

text \<open>Concrete stores over the reference tree.\<close>

definition sample_store :: "btree_item fset mem_store" where
  "sample_store = Upsert fset_tree ''db'' ''users'' ''t'' ''u1'' [1] ''p1'' New"

definition sample_ref :: query_index_ref where
  "sample_ref = \<lparr>RefDatabase = ''db'', RefCollection = ''users'', TemplateFingerprint = ''f'', RefGeneration = ''g''\<rparr>"

definition sample_projection :: projection where
  "sample_projection = \<lparr>Index = sample_ref, DocumentID = ''u1'', PostingKeys = [[2], [3]]\<rparr>"

definition sample_projected :: "btree_item fset mem_store" where
  "sample_projected = set_progress ''p1'' (apply_projection fset_tree sample_projection New)"

definition sample_partition :: "btree_item fset mem_store" where
  "sample_partition = New\<lparr>partitions := [sample_ref \<mapsto>
     \<lparr>pi_tree = {|([2], ''u1''), ([3], ''u1''), ([4], ''u2'')|}, pi_byID = [''u1'' \<mapsto> [[2], [3]], ''u2'' \<mapsto> [[4]]]\<rparr>]\<rparr>"

lemma sample_postings: "posting_set fset_tree sample_ref sample_partition = {([2], ''u1''), ([3], ''u1''), ([4], ''u2'')}"
proof -
  have "\<not> lessFunc i least_item" for i by (simp add: lessFunc_iff not_less)
  then show ?thesis
    by (auto simp: posting_set_def partition_of_def sample_partition_def tree_items_def fset_tree_def sorted_list_of_fset.rep_eq)
qed

lemma sample_store_reachable: "reachable_store fset_tree sample_store"
  unfolding sample_store_def by (intro reachable_store.intros)

lemma sample_apply: "ApplyDocumentProjection fset_tree [sample_projection] ''p1'' New = Inr sample_projected"
  by (simp add: ApplyDocumentProjection_def OwnProjections_def sample_projected_def sample_projection_def
      sample_ref_def complete_ref_def)

theorem mem_store_invariant_witness: "store_ok fset_tree sample_store"
  using mem_store_invariant [OF fset_tree.ordered_tree_axioms sample_store_reachable] .

theorem Search_refines_witness:
  "\<exists>L. sorted_wrt (<) L \<and> set L = {(k, d). Get ''db'' ''users'' ''t'' d sample_store = Some k} \<and>
    Search fset_tree ''db'' ''users'' ''t'' \<lparr>Lower = None, Upper = None, StartAfter = None, Limit = 1\<rparr> sample_store =
    take 1 (map ref_of_item (filter (in_bounds \<lparr>Lower = None, Upper = None, StartAfter = None, Limit = 1\<rparr>) L))"
  using Search_refines [OF fset_tree.ordered_tree_axioms sample_store_reachable, of "''db''" "''users''" "''t''"
      "\<lparr>Lower = None, Upper = None, StartAfter = None, Limit = 1\<rparr>"]
  by (simp add: search_limit_def)

theorem ApplyDocumentProjection_replaces_witness:
  "posting_set fset_tree sample_ref sample_projected = {([2], ''u1''), ([3], ''u1'')}"
proof -
  have "posting_set fset_tree sample_ref New = {}"
    using fset_tree.new_items by (simp add: posting_set_def partition_of_def New_def)
  moreover have "{(k, d). k \<in> replaced_keys [sample_projection] sample_ref d} = {([2], ''u1''), ([3], ''u1'')}"
    by (auto simp: replaced_keys_def sample_projection_def)
  ultimately show ?thesis
    using ApplyDocumentProjection_replaces [OF fset_tree.ordered_tree_axioms reach_New sample_apply, of sample_ref]
    by simp
qed

theorem iterator_returns_all_witness:
  "\<exists>v it. ReadView fset_tree False sample_ref \<lparr>MaxOverlayReplacements = 0, MaxOverlayBytes = 0, MaxExamined = 3\<rparr> sample_partition = Inr v \<and>
    Scan False \<lparr>Lower = None, Upper = None, StartAfter = Some [2], Limit = 0\<rparr> v = Inr it \<and>
    drain fset_tree 4 v it = Inr (map ref_of_item [([3], ''u1''), ([4], ''u2'')])"
proof -
  let ?b = "\<lparr>MaxOverlayReplacements = 0, MaxOverlayBytes = 0, MaxExamined = 3\<rparr>"
  let ?o = "\<lparr>Lower = None, Upper = None, StartAfter = Some [2], Limit = 0\<rparr>"
  obtain v where v: "ReadView fset_tree False sample_ref ?b sample_partition = Inr v" "\<not> view_closed v" "view_maxExamined v = 3"
    by (simp add: ReadView_def NormalizeReadBudget_def)
  obtain it where it: "Scan False ?o v = Inr it" using v(2) by (simp add: Scan_def)
  from iterator_returns_all [OF fset_tree.ordered_tree_axioms v(1) it, of 4] v(3) obtain L where
    L: "sorted_wrt (<) L" "set L = {i \<in> {([2], ''u1''), ([3], ''u1''), ([4], ''u2'')}. in_bounds ?o i}"
      "drain fset_tree 4 v it = Inr (map ref_of_item L)"
    by (auto simp: sample_postings)
  have "{i \<in> {([2], ''u1''), ([3], ''u1''), ([4], ''u2'')}. in_bounds ?o i} = set [([3], ''u1''), ([4], ''u2'')]"
    by (auto simp: in_bounds_def)
  then have "L = [([3], ''u1''), ([4], ''u2'')]"
    using strict_sorted_equal [of L "[([3], ''u1''), ([4], ''u2'')]"] L(1,2) by simp
  then show ?thesis using v(1) it L(3) by blast
qed

theorem failed_generation_not_ready_witness:
  "\<exists>s1 g. SetFailure fset_tree sample_ref ''boom'' New = Inr s1 \<and>
    ReadGeneration ''db'' ''users'' ''f'' (Upsert fset_tree ''db'' ''users'' ''t'' ''u1'' [1] ''p1'' s1) = Some g \<and>
    GenID g = ''g'' \<and> \<not> Ready g"
proof -
  obtain s1 g where s: "SetFailure fset_tree sample_ref ''boom'' New = Inr s1"
    "ReadGeneration ''db'' ''users'' ''f'' s1 = Some g" "GenID g = ''g''"
    by (simp add: SetFailure_def sample_ref_def complete_ref_def catalog_covers_def New_def
        ReadGeneration_def ResolveGeneration_def generationIdentity_def)
  let ?s = "Upsert fset_tree ''db'' ''users'' ''t'' ''u1'' [1] ''p1'' s1"
  have r: "ReadGeneration ''db'' ''users'' ''f'' ?s = Some g"
    using s(2) by (simp add: same_read [OF same_updates(2)])
  have "unpublished_after fset_tree sample_ref s1 ?s" by (rule after_Upsert [OF after_none])
  from failed_generation_not_ready [of fset_tree sample_ref "''boom''" New s1 ?s g] s this r
  have "\<not> Ready g" by (simp add: sample_ref_def)
  then show ?thesis using s(1,3) r by blast
qed

end
