(* ===== verification/Streams.thy ===== *)
theory Streams
  imports Positions MemStore
begin

text \<open>
  Opening and reading a candidate scan (\<^verbatim>\<open>OpenCandidates\<close> and \<^verbatim>\<open>candidateStream\<close> of
  \<^verbatim>\<open>internal/indexer/manager/candidates.go\<close>).  One iterator per branch runs in key order; the stream keeps
  their heads in a heap ordered by position and returns, at each step, the least position with every
  branch that holds it.
\<close>

section \<open>The stream\<close>

text \<open>
  The iterators of a stream share a read view, so they are one source: \<open>nxt\<close> advances the iterator of a
  branch, \<open>examined\<close> is the sum of their counters.  \<open>cancelled\<close> is the state of the request context.
\<close>

record 's candidate_stream =
  StreamMeta :: candidate_metadata
  StreamSource :: 's
  StreamHeads :: "candidate_group option list"
  StreamQueue :: "candidate_group list"
  StreamStarted :: bool
  StreamClosed :: bool
  StreamMaxExamined :: int

type_synonym 's source_next = "'s \<Rightarrow> nat \<Rightarrow> 's \<times> (store_error + doc_ref option)"

definition heap_Less :: "candidate_group \<Rightarrow> candidate_group \<Rightarrow> bool" where
  "heap_Less a b \<longleftrightarrow> bytes_compare (Position a) (Position b) < 0"

definition stream_advance ::
  "'s source_next \<Rightarrow> ('s \<Rightarrow> int) \<Rightarrow> bool \<Rightarrow> nat \<Rightarrow> 's candidate_stream \<Rightarrow> 's candidate_stream \<times> (plan_error + unit)" where
  "stream_advance nxt examined cancelled branch s =
     (if cancelled then (s, Inl (PlanStoreError ContextDone))
      else case nxt (StreamSource s) branch of
        (src, Inl e) \<Rightarrow> (s\<lparr>StreamSource := src\<rparr>, Inl (PlanStoreError e))
      | (src, Inr ref) \<Rightarrow>
          let s1 = s\<lparr>StreamSource := src\<rparr> in
          if examined src > StreamMaxExamined s then (s1, Inl (PlanStoreError ErrWorkLimit))
          else
            let s2 = s1\<lparr>StreamHeads := (StreamHeads s)[branch := None]\<rparr> in
            case ref of None \<Rightarrow> (s2, Inr ())
            | Some r \<Rightarrow>
                (case position (StreamMeta s) (OrderKey r) of
                   Inl e \<Rightarrow> (s2, Inl e)
                 | Inr p \<Rightarrow>
                     (s2\<lparr>StreamHeads := (StreamHeads s)[branch :=
                        Some \<lparr>GroupID = RefID r, Position = p, GroupBranches = [branch]\<rparr>]\<rparr>, Inr ())))"

definition push_head :: "nat \<Rightarrow> 's candidate_stream \<Rightarrow> 's candidate_stream" where
  "push_head branch s =
     (case StreamHeads s ! branch of None \<Rightarrow> s
      | Some g \<Rightarrow> s\<lparr>StreamQueue := heap_push heap_Less (StreamQueue s) g\<rparr>)"

fun start_loop ::
  "'s source_next \<Rightarrow> ('s \<Rightarrow> int) \<Rightarrow> bool \<Rightarrow> nat list \<Rightarrow> 's candidate_stream \<Rightarrow> 's candidate_stream \<times> (plan_error + unit)" where
  "start_loop nxt examined cancelled [] s = (s, Inr ())"
| "start_loop nxt examined cancelled (i # is) s =
     (case stream_advance nxt examined cancelled i s of
        (s', Inl e) \<Rightarrow> (s', Inl e)
      | (s', Inr _) \<Rightarrow> start_loop nxt examined cancelled is (push_head i s'))"

text \<open>
  The loop of \<^verbatim>\<open>Next\<close> that collects the branches of one position.  It ends because the positions of a branch
  increase; \<open>fuel\<close> bounds it, and running out is its own error.
\<close>

fun collect_loop ::
  "'s source_next \<Rightarrow> ('s \<Rightarrow> int) \<Rightarrow> bool \<Rightarrow> nat \<Rightarrow> candidate_group \<Rightarrow> 's candidate_stream \<Rightarrow>
     's candidate_stream \<times> (plan_error option + candidate_group)" where
  "collect_loop nxt examined cancelled 0 g s = (s, Inl None)"
| "collect_loop nxt examined cancelled (Suc n) g s =
     (if StreamQueue s = [] \<or> Position (hd (StreamQueue s)) \<noteq> Position g then (s, Inr g)
      else
        let (head, queue) = heap_pop heap_Less (StreamQueue s); s1 = s\<lparr>StreamQueue := queue\<rparr> in
        if GroupID head \<noteq> GroupID g then (s1, Inl (Some InconsistentIdentity))
        else
          let branch = hd (GroupBranches head); g1 = g\<lparr>GroupBranches := GroupBranches g @ [branch]\<rparr> in
          (case stream_advance nxt examined cancelled branch s1 of
             (s2, Inl e) \<Rightarrow> (s2, Inl (Some e))
           | (s2, Inr _) \<Rightarrow> collect_loop nxt examined cancelled n g1 (push_head branch s2)))"

definition stream_Next ::
  "'s source_next \<Rightarrow> ('s \<Rightarrow> int) \<Rightarrow> bool \<Rightarrow> nat \<Rightarrow> 's candidate_stream \<Rightarrow>
     's candidate_stream \<times> (plan_error option + candidate_group option)" where
  "stream_Next nxt examined cancelled fuel s =
     (if cancelled then (s, Inl (Some (PlanStoreError ContextDone)))
      else if StreamClosed s then (s, Inr None)
      else
        let (s1, started) =
          (if StreamStarted s then (s, Inr ())
           else start_loop nxt examined cancelled [0..<length (StreamHeads s)] (s\<lparr>StreamStarted := True\<rparr>))
        in case started of Inl e \<Rightarrow> (s1, Inl (Some e))
        | Inr _ \<Rightarrow>
            (case StreamQueue s1 of [] \<Rightarrow> (s1, Inr None)
             | lead # _ \<Rightarrow>
                 (case collect_loop nxt examined cancelled fuel
                     \<lparr>GroupID = GroupID lead, Position = Position lead, GroupBranches = []\<rparr> s1 of
                    (s2, Inl e) \<Rightarrow> (s2, Inl e)
                  | (s2, Inr g) \<Rightarrow> (s2, Inr (Some (g\<lparr>GroupBranches := sort (GroupBranches g)\<rparr>))))))"

definition stream_Close :: "('s \<Rightarrow> 's) \<Rightarrow> 's candidate_stream \<Rightarrow> 's candidate_stream" where
  "stream_Close close s =
     (if StreamClosed s then s else s\<lparr>StreamClosed := True, StreamSource := close (StreamSource s)\<rparr>)"

section \<open>Opening a scan\<close>

record 't manager =
  MgrStore :: "'t mem_store"
  MgrTemplates :: "template list"
  DbTemplates :: database_templates

definition TemplatesForDatabase :: "string \<Rightarrow> 't manager \<Rightarrow> template list" where
  "TemplatesForDatabase database m = (case map_of (DbTemplates m) database of None \<Rightarrow> [] | Some ts \<Rightarrow> ts)"

record candidate_choice =
  ChoiceMeta :: candidate_metadata
  ChoiceScore :: nat
  ChoicePattern :: pattern_score

definition better_choice :: "candidate_choice \<Rightarrow> candidate_choice \<Rightarrow> bool" where
  "better_choice choice best \<longleftrightarrow>
     ScoreLess (ChoicePattern best) (ChoicePattern choice) \<or>
     ScoreEqual (ChoicePattern best) (ChoicePattern choice) \<and>
       (ChoiceScore choice > ChoiceScore best \<or>
        ChoiceScore choice = ChoiceScore best \<and>
          Name (MetaTemplate (ChoiceMeta choice)) < Name (MetaTemplate (ChoiceMeta best)))"

text \<open>The loop over the matching templates: the best compiled plan so far, and the last planning error.\<close>

definition choose_step ::
  "(fingerprint_payload \<Rightarrow> string) \<Rightarrow> digest \<Rightarrow> plan \<Rightarrow> filters \<Rightarrow> match_result \<Rightarrow>
     candidate_choice option \<times> plan_error option \<Rightarrow> candidate_choice option \<times> plan_error option" where
  "choose_step hash digest plan filters match acc =
     (let t = MatchTemplate match in
      if PlanShowDeleted plan \<and> \<not> IncludeDeleted t then acc
      else if PlanFingerprint plan \<noteq> '''' \<and> PlanFingerprint plan \<noteq> Fingerprint hash t then acc
      else case compileCandidate hash digest t filters (OrderBy plan) of
        Inl e \<Rightarrow> (if e = ErrNoMatchingIndex then acc else (fst acc, Some e))
      | Inr (metadata, score) \<Rightarrow>
          let choice = \<lparr>ChoiceMeta = metadata, ChoiceScore = score, ChoicePattern = Score match\<rparr> in
          (case fst acc of None \<Rightarrow> (Some choice, snd acc)
           | Some best \<Rightarrow> (if better_choice choice best then Some choice else Some best, snd acc)))"

definition choose_template ::
  "(fingerprint_payload \<Rightarrow> string) \<Rightarrow> digest \<Rightarrow> plan \<Rightarrow> filters \<Rightarrow> match_result list \<Rightarrow>
     candidate_choice option \<times> plan_error option" where
  "choose_template hash digest plan filters matches =
     fold (choose_step hash digest plan filters) matches (None, None)"

fun check_order :: "string list \<Rightarrow> plan_order list \<Rightarrow> bool" where
  "check_order seen [] = True"
| "check_order seen (o' # os) =
     (ValidateQueryField (OrdField o') \<and> OrdField o' \<notin> set seen \<and> (OrdDirection o' = Asc \<or> OrdDirection o' = Desc) \<and>
      check_order (OrdField o' # seen) os)"

definition check_position :: "candidate_metadata \<Rightarrow> bytes \<Rightarrow> bool" where
  "check_position m pos =
     (case tupleParts pos of Inl _ \<Rightarrow> False
      | Inr parts \<Rightarrow> length parts = length (orderComponents (EffectiveOrder m)) + 1 \<and>
          (case ExtractDocID pos of Inl _ \<Rightarrow> False | Inr _ \<Rightarrow> True))"

text \<open>The source of a stream over the in-memory store: the read view, if any, and an iterator per branch.\<close>

type_synonym 't mem_source = "'t projection_view option \<times> projection_iterator list"

definition mem_next :: "'t btree \<Rightarrow> bool \<Rightarrow> 't mem_source source_next" where
  "mem_next ops cancelled src branch =
     (case fst src of None \<Rightarrow> (src, Inr None)
      | Some v \<Rightarrow>
          (case it_Next ops cancelled v (snd src ! branch) of
             (v', it', r) \<Rightarrow> ((Some v', (snd src)[branch := it']), r)))"

definition mem_examined :: "'t mem_source \<Rightarrow> int" where
  "mem_examined src = sum_list (map Examined (snd src))"

definition mem_close :: "'t mem_source \<Rightarrow> 't mem_source" where
  "mem_close src = (map_option view_Close (fst src), map it_Close (snd src))"

fun open_scans ::
  "bool \<Rightarrow> candidate_metadata \<Rightarrow> bytes \<Rightarrow> 't projection_view \<Rightarrow> nat list \<Rightarrow> plan_error + projection_iterator list" where
  "open_scans cancelled m pos v [] = Inr []"
| "open_scans cancelled m pos v (i # is) =
     (case scanOptions m i pos of Inl _ \<Rightarrow> Inl ErrInvalidPlan
      | Inr opts \<Rightarrow>
          (case Scan cancelled opts v of Inl e \<Rightarrow> Inl (PlanStoreError e)
           | Inr it \<Rightarrow> bind_result (open_scans cancelled m pos v is) (\<lambda>its. Inr (it # its))))"

definition OpenCandidates ::
  "'t btree \<Rightarrow> (fingerprint_payload \<Rightarrow> string) \<Rightarrow> digest \<Rightarrow> bool \<Rightarrow> string \<Rightarrow> plan \<Rightarrow> 't manager \<Rightarrow>
     plan_error + 't mem_source candidate_stream" where
  "OpenCandidates ops hash digest cancelled database plan m =
     (if cancelled then Inl (PlanStoreError ContextDone)
      else if database = '''' \<or> PlanCollection plan = '''' \<or> PlanMaxExamined plan < 0 then Inl ErrInvalidPlan
      else bind_result (candidateFilters (PlanFilters plan)) (\<lambda>filters.
        if \<not> check_order [] (OrderBy plan) then Inl ErrInvalidPlan
        else if length (AfterPosition plan) > MaxCandidatePositionBytes then Inl ErrInvalidPlan
        else
          let templates = (if DbTemplates m \<noteq> [] then TemplatesForDatabase database m else MgrTemplates m) in
          case choose_template hash digest plan filters (MatchTemplates (PlanCollection plan) templates) of
            (None, planningErr) \<Rightarrow>
              (if PlanFingerprint plan \<noteq> '''' then Inl ErrStaleCursor
               else Inl (case planningErr of Some e \<Rightarrow> e | None \<Rightarrow> ErrNoMatchingIndex))
          | (Some best, _) \<Rightarrow>
              let metadata = ChoiceMeta best in
              if AfterPosition plan \<noteq> [] \<and> \<not> check_position metadata (AfterPosition plan) then Inl ErrInvalidPlan
              else case ReadGeneration database (PlanCollection plan) (MetaFingerprint metadata) (MgrStore m) of
                None \<Rightarrow> Inl ErrIndexNotReady
              | Some gen \<Rightarrow>
                  if \<not> Ready gen \<or> Failure gen \<noteq> '''' then Inl ErrIndexNotReady
                  else
                    let md = metadata\<lparr>MetaGeneration := GenID gen\<rparr> in
                    if (PlanGeneration plan \<noteq> '''' \<and> PlanGeneration plan \<noteq> GenID gen) \<or>
                       (PlanBranchHash plan \<noteq> '''' \<and> PlanBranchHash plan \<noteq> BranchHash md)
                    then Inl ErrStaleCursor
                    else
                      let limit = (if PlanMaxExamined plan = 0 then 100000 else PlanMaxExamined plan);
                          stream = \<lparr>StreamMeta = md, StreamSource = (None, []), StreamHeads = [], StreamQueue = [],
                            StreamStarted = False, StreamClosed = False, StreamMaxExamined = limit\<rparr>
                      in if Branches md = [] then Inr stream
                         else case ReadView ops cancelled
                             \<lparr>RefDatabase = database, RefCollection = PlanCollection plan,
                              TemplateFingerprint = MetaFingerprint md, RefGeneration = GenID gen\<rparr>
                             \<lparr>MaxOverlayReplacements = 0, MaxOverlayBytes = 0, MaxExamined = limit\<rparr> (MgrStore m) of
                           Inl e \<Rightarrow> Inl (PlanStoreError e)
                         | Inr v \<Rightarrow>
                             bind_result (open_scans cancelled md (AfterPosition plan) v [0..<length (Branches md)]) (\<lambda>its.
                               Inr (stream\<lparr>StreamSource := (Some v, its),
                                 StreamHeads := replicate (length (Branches md)) None\<rparr>))))"

end
