(* ===== verification/Base64.thy ===== *)
theory Base64
  imports Prelude
begin

text \<open>
  The cursor text of an order key (\<^verbatim>\<open>EncodeBase64\<close> and \<^verbatim>\<open>DecodeBase64\<close> of
  \<^verbatim>\<open>internal/indexer/encoding/orderkey.go\<close>): the unpadded URL alphabet of the standard library, with
  the library's decoder, which skips line breaks and ignores the unused bits of the last character.
\<close>

unbundle bit_operations_syntax

section \<open>The alphabet\<close>

definition alphabet :: string where
  "alphabet = ''ABCDEFGHIJKLMNOPQRSTUVWXYZabcdefghijklmnopqrstuvwxyz0123456789-_''"

definition sextet_char :: "nat \<Rightarrow> char" where
  "sextet_char n = alphabet ! n"

fun find_index :: "'a list \<Rightarrow> 'a \<Rightarrow> nat option" where
  "find_index [] c = None"
| "find_index (x # xs) c = (if x = c then Some 0 else map_option Suc (find_index xs c))"

definition char_sextet :: "char \<Rightarrow> nat option" where
  "char_sextet c = find_index alphabet c"

section \<open>Encoding and decoding\<close>

text \<open>Three bytes are four characters of six bits each; one or two trailing bytes are two or three.\<close>

fun EncodeBase64 :: "bytes \<Rightarrow> string" where
  "EncodeBase64 [] = []"
| "EncodeBase64 [a] = map sextet_char [unat a div 4, (unat a mod 4) * 16]"
| "EncodeBase64 [a, b] =
     map sextet_char [unat a div 4, (unat a mod 4) * 16 + unat b div 16, (unat b mod 16) * 4]"
| "EncodeBase64 (a # b # c # rest) =
     map sextet_char [unat a div 4, (unat a mod 4) * 16 + unat b div 16,
       (unat b mod 16) * 4 + unat c div 64, unat c mod 64] @ EncodeBase64 rest"

fun decode_sextets :: "nat list \<Rightarrow> bytes option" where
  "decode_sextets [] = Some []"
| "decode_sextets [p] = None"
| "decode_sextets [p, q] = Some [of_nat (p * 4 + q div 16)]"
| "decode_sextets [p, q, r] = Some [of_nat (p * 4 + q div 16), of_nat ((q mod 16) * 16 + r div 4)]"
| "decode_sextets (p # q # r # s # rest) =
     map_option (\<lambda>bs. of_nat (p * 4 + q div 16) # of_nat ((q mod 16) * 16 + r div 4) # of_nat ((r mod 4) * 64 + s) # bs)
       (decode_sextets rest)"

fun char_sextets :: "string \<Rightarrow> nat list option" where
  "char_sextets [] = Some []"
| "char_sextets (c # cs) =
     (if c = CHR 0x0A \<or> c = CHR 0x0D then char_sextets cs
      else case char_sextet c of None \<Rightarrow> None | Some n \<Rightarrow> map_option (\<lambda>ns. n # ns) (char_sextets cs))"

definition DecodeBase64 :: "string \<Rightarrow> bytes option" where
  "DecodeBase64 s = (case char_sextets s of None \<Rightarrow> None | Some ns \<Rightarrow> decode_sextets ns)"

section \<open>The alphabet is a code\<close>

lemma find_index_nth: "distinct xs \<Longrightarrow> i < length xs \<Longrightarrow> find_index xs (xs ! i) = Some i"
proof (induction xs arbitrary: i)
  case (Cons x xs)
  then show ?case by (cases i) (auto simp: nth_mem)
qed simp

lemma alphabet_code: "length alphabet = 64" "distinct alphabet" "CHR 0x0A \<notin> set alphabet" "CHR 0x0D \<notin> set alphabet"
  by (simp_all add: alphabet_def)

lemma char_sextets_map:
  "list_all (\<lambda>n. n < 64) ns \<Longrightarrow> char_sextets (map sextet_char ns @ cs) = map_option (\<lambda>ms. ns @ ms) (char_sextets cs)"
proof (induction ns)
  case (Cons n ns)
  then have n: "n < length alphabet" by (simp add: alphabet_code)
  then have "sextet_char n \<in> set alphabet" by (simp add: sextet_char_def)
  then have "sextet_char n \<noteq> CHR 0x0A" "sextet_char n \<noteq> CHR 0x0D" using alphabet_code(3,4) by metis+
  then show ?case
    using Cons find_index_nth [OF alphabet_code(2) n] by (simp add: char_sextet_def sextet_char_def option.map_comp comp_def)
qed (cases "char_sextets cs", simp_all)

lemma byte_less: "unat (b :: byte) < 256"
  using unsigned_less [of b] by simp

lemma sextet_bounds [simp]:
  "unat (a :: byte) div 4 < 64" "(unat (a :: byte) mod 4) * 16 < 64" "(unat (a :: byte) mod 4) * 16 + unat (b :: byte) div 16 < 64"
  "(unat (b :: byte) mod 16) * 4 < 64" "(unat (b :: byte) mod 16) * 4 + unat (c :: byte) div 64 < 64"
  using byte_less [of a] byte_less [of b] byte_less [of c] by (auto simp: less_mult_imp_div_less)

text \<open>The arithmetic of one byte cut into its high and low bits.\<close>

lemma byte_parts:
  fixes a :: byte
  shows "x < 16 \<Longrightarrow> of_nat (unat a div 4 * 4 + (unat a mod 4 * 16 + x) div 16) = a"
    and "y < 4 \<Longrightarrow> of_nat ((m * 16 + unat a div 16) mod 16 * 16 + (unat a mod 16 * 4 + y) div 4) = a"
    and "of_nat ((m * 4 + unat a div 64) mod 4 * 64 + unat a mod 64) = a"
proof -
  have a: "unat a < 256" by (rule byte_less)
  have "unat a div 4 * 4 + (unat a mod 4 * 16 + x) div 16 = unat a" if "x < 16" for x using that by simp
  then show "x < 16 \<Longrightarrow> of_nat (unat a div 4 * 4 + (unat a mod 4 * 16 + x) div 16) = a" by (simp only: of_nat_unat ucast_id)
  have "(m * 16 + unat a div 16) mod 16 = unat a div 16" using a by (simp add: less_mult_imp_div_less)
  then have "(m * 16 + unat a div 16) mod 16 * 16 + (unat a mod 16 * 4 + y) div 4 = unat a" if "y < 4" for y using that by simp
  then show "y < 4 \<Longrightarrow> of_nat ((m * 16 + unat a div 16) mod 16 * 16 + (unat a mod 16 * 4 + y) div 4) = a"
    by (simp only: of_nat_unat ucast_id)
  have "(m * 4 + unat a div 64) mod 4 = unat a div 64" using a by (simp add: less_mult_imp_div_less)
  then have "(m * 4 + unat a div 64) mod 4 * 64 + unat a mod 64 = unat a" by simp
  then show "of_nat ((m * 4 + unat a div 64) mod 4 * 64 + unat a mod 64) = a" by (simp only: of_nat_unat ucast_id)
qed

lemma byte_high: "unat (b :: byte) div 16 < 16" "unat (b :: byte) div 64 < 4"
  using byte_less [of b] by (simp_all add: less_mult_imp_div_less)

lemma byte_exact:
  fixes a :: byte
  shows "of_nat (unat a div 4 * 4 + unat a mod 4 * 16 div 16) = a"
    and "of_nat ((m * 16 + unat a div 16) mod 16 * 16 + unat a mod 16 * 4 div 4) = a"
  using byte_parts(1) [of 0 a] byte_parts(2) [of 0 m a] by simp_all

text \<open>
  C36: \<open>DecodeBase64\<close> recovers every key from the cursor that \<open>EncodeBase64\<close> makes of it.
\<close>

theorem DecodeBase64_EncodeBase64: "DecodeBase64 (EncodeBase64 key) = Some key"
proof (induction key rule: EncodeBase64.induct)
  case (2 a)
  show ?case
    using char_sextets_map [of "[unat a div 4, (unat a mod 4) * 16]" "[]"] byte_exact(1) [of a]
    by (simp add: DecodeBase64_def)
next
  case (3 a b)
  show ?case
    using char_sextets_map [of "[unat a div 4, (unat a mod 4) * 16 + unat b div 16, (unat b mod 16) * 4]" "[]"]
      byte_parts(1) [OF byte_high(1) [of b], of a] byte_exact(2) [of "unat a mod 4" b]
    by (simp add: DecodeBase64_def)
next
  case (4 a b c rest)
  then obtain ns where ns: "char_sextets (EncodeBase64 rest) = Some ns" "decode_sextets ns = Some rest"
    by (auto simp: DecodeBase64_def split: option.splits)
  show ?case
    using char_sextets_map [of "[unat a div 4, (unat a mod 4) * 16 + unat b div 16, (unat b mod 16) * 4 + unat c div 64, unat c mod 64]"
        "EncodeBase64 rest"] ns
      byte_parts(1) [OF byte_high(1) [of b], of a] byte_parts(2) [OF byte_high(2) [of c], of "unat a mod 4" b]
      byte_parts(3) [of "unat b mod 16" c]
    by (simp add: DecodeBase64_def)
qed (simp add: DecodeBase64_def)

end
