(* ===== verification/QuerySearch.thy ===== *)
theory QuerySearch
  imports Streams Base64
begin

text \<open>
  The single-range search of the index manager (\<^verbatim>\<open>internal/indexer/manager/manager.go\<close>): choosing a
  template by score, turning the filters of a plan into one key range, and searching the store.
\<close>

section \<open>Choosing a template\<close>

definition MatchTemplatesForCollection :: "string \<Rightarrow> 't manager \<Rightarrow> match_result list" where
  "MatchTemplatesForCollection collection m = MatchTemplates collection (MgrTemplates m)"

fun range_op :: "plan_op \<Rightarrow> bool" where
  "range_op FilterGt = True"
| "range_op FilterLt = True"
| "range_op FilterGte = True"
| "range_op FilterLte = True"
| "range_op _ = False"

text \<open>The leading template fields with an equality filter.\<close>

definition eq_prefix :: "plan_filter list \<Rightarrow> template_field list \<Rightarrow> string list" where
  "eq_prefix filters fs =
     map FieldName (takeWhile (\<lambda>f. list_ex (\<lambda>g. PField g = FieldName f \<and> POp g = FilterEq) filters) fs)"

definition range_fields :: "plan_filter list \<Rightarrow> string list \<Rightarrow> string list" where
  "range_fields filters eqs =
     remdups (map PField (filter (\<lambda>g. PField g \<notin> set eqs \<and> range_op (POp g)) filters))"

definition order_matches :: "plan_order \<Rightarrow> template_field \<Rightarrow> bool" where
  "order_matches o' f \<longleftrightarrow> FieldOrder f = (if OrdDirection o' = Asc then TemplateAsc else TemplateDesc)"

text \<open>
  The walk over the order fields from template index \<open>start\<close>; \<open>shift\<close> is one when the first order field was
  the range field.
\<close>

fun order_walk :: "template_field list \<Rightarrow> nat \<Rightarrow> nat \<Rightarrow> nat \<Rightarrow> plan_order list \<Rightarrow> bool" where
  "order_walk fs start shift i [] = True"
| "order_walk fs start shift i (o' # os) =
     (let idx = start + i - shift in
      idx < length fs \<and> FieldName (fs ! idx) = OrdField o' \<and> order_matches o' (fs ! idx) \<and>
      order_walk fs start shift (Suc i) os)"

definition order_fits :: "template_field list \<Rightarrow> nat \<Rightarrow> string option \<Rightarrow> nat \<Rightarrow> plan_order list \<Rightarrow> nat option" where
  "order_fits fs eqs range_field usable order =
     (case order of
        o' # os \<Rightarrow>
          if range_field = Some (OrdField o')
          then (if order_matches o' (fs ! eqs) \<and> order_walk fs (eqs + 1) 1 1 os then Some (eqs + 1) else None)
          else (if order_walk fs usable 0 0 order then Some usable else None)
      | [] \<Rightarrow> Some usable)"

definition computeQueryScore :: "plan \<Rightarrow> template \<Rightarrow> nat" where
  "computeQueryScore plan t =
     (let fs = Fields t;
          eqs = eq_prefix (PlanFilters plan) fs;
          n = length (remdups eqs);
          ranges = range_fields (PlanFilters plan) eqs
      in if length ranges > 1 then 0
         else
           let range_field = (case ranges of [] \<Rightarrow> None | r # _ \<Rightarrow> if r = '''' then None else Some r) in
           if (case range_field of None \<Rightarrow> False | Some r \<Rightarrow> n \<ge> length fs \<or> FieldName (fs ! n) \<noteq> r) then 0
           else
             let usable = (if range_field = None then n else n + 1) in
             case order_fits fs n range_field usable (OrderBy plan) of
               None \<Rightarrow> 0
             | Some start \<Rightarrow>
                 1 + n * 10 + length (OrderBy plan) * 5 +
                 (if range_field = None then 0 else 3) +
                 (if start + length (OrderBy plan) = length fs then 1 else 0) +
                 (if OrderBy plan = [] \<and> \<not> list_ex (\<lambda>f. FieldOrder f = TemplateDesc) (take usable fs) then 2 else 0))"

record match_candidate =
  CandTemplate :: template
  QueryScore :: nat
  CandPattern :: pattern_score

definition prefer_candidate :: "match_candidate \<Rightarrow> match_candidate \<Rightarrow> match_candidate" where
  "prefer_candidate c best =
     (if ScoreLess (CandPattern best) (CandPattern c) then c
      else if ScoreLess (CandPattern c) (CandPattern best) then best
      else if QueryScore c > QueryScore best then c
      else if QueryScore c = QueryScore best \<and> Name (CandTemplate c) < Name (CandTemplate best) then c
      else best)"

definition compatible :: "plan \<Rightarrow> match_result list \<Rightarrow> match_candidate list" where
  "compatible plan matches =
     [\<lparr>CandTemplate = MatchTemplate r, QueryScore = computeQueryScore plan (MatchTemplate r), CandPattern = Score r\<rparr>.
        r \<leftarrow> matches, \<not> (PlanShowDeleted plan \<and> \<not> IncludeDeleted (MatchTemplate r)),
        computeQueryScore plan (MatchTemplate r) > 0]"

definition SelectBestTemplate :: "plan \<Rightarrow> 't manager \<Rightarrow> plan_error + template" where
  "SelectBestTemplate plan m =
     (case compatible plan (MatchTemplatesForCollection (PlanCollection plan) m) of
        [] \<Rightarrow> Inl ErrNoMatchingIndex
      | c # cs \<Rightarrow> Inr (CandTemplate (fold prefer_candidate cs c)))"

section \<open>The range of a plan\<close>

record field_bound =
  BoundValue :: any
  BoundKey :: bytes
  Inclusive :: bool

record field_interval =
  IvLower :: "field_bound option"
  IvUpper :: "field_bound option"
  Equality :: bool

definition iv_empty :: "field_interval \<Rightarrow> bool" where
  "iv_empty iv =
     (case (IvLower iv, IvUpper iv) of
        (Some l, Some u) \<Rightarrow>
          let c = bytes_compare (BoundKey l) (BoundKey u)
          in c > 0 \<or> c = 0 \<and> (\<not> Inclusive l \<or> \<not> Inclusive u)
      | _ \<Rightarrow> False)"

definition tighterBound :: "field_bound option \<Rightarrow> field_bound \<Rightarrow> bool \<Rightarrow> field_bound" where
  "tighterBound current candidate lower =
     (case current of None \<Rightarrow> candidate
      | Some cur \<Rightarrow>
          let c = bytes_compare (BoundKey candidate) (BoundKey cur);
              c' = (if lower then c else - c)
          in if c' > 0 \<or> c' = 0 \<and> \<not> Inclusive candidate then candidate else cur)"

text \<open>Which sides of the interval an operator bounds, and whether it includes the value.\<close>

fun bound_sides :: "plan_op \<Rightarrow> (bool \<times> bool \<times> bool) option" where
  "bound_sides FilterEq = Some (True, True, True)"
| "bound_sides FilterGt = Some (True, False, False)"
| "bound_sides FilterGte = Some (True, False, True)"
| "bound_sides FilterLt = Some (False, True, False)"
| "bound_sides FilterLte = Some (False, True, True)"
| "bound_sides _ = None"

fun intersect_loop :: "field_interval \<Rightarrow> plan_filter list \<Rightarrow> plan_error + field_interval" where
  "intersect_loop iv [] = Inr iv"
| "intersect_loop iv (f # fs) =
     (case bound_sides (POp f) of None \<Rightarrow> intersect_loop iv fs
      | Some (lower, upper, inclusive) \<Rightarrow>
          (case EncodePrefix [\<lparr>FieldValue = PValue f, FieldDirection = Asc, FieldMissing = False\<rparr>] of
             Inl e \<Rightarrow> Inl (PlanEncodingError e)
           | Inr key \<Rightarrow>
               let b = \<lparr>BoundValue = PValue f, BoundKey = key, Inclusive = inclusive\<rparr>;
                   iv1 = (if POp f = FilterEq then iv\<lparr>Equality := True\<rparr> else iv);
                   iv2 = (if lower then iv1\<lparr>IvLower := Some (tighterBound (IvLower iv1) b True)\<rparr> else iv1);
                   iv3 = (if upper then iv2\<lparr>IvUpper := Some (tighterBound (IvUpper iv2) b False)\<rparr> else iv2)
               in intersect_loop iv3 fs))"

definition intersectFieldFilters :: "plan_filter list \<Rightarrow> plan_error + field_interval" where
  "intersectFieldFilters fs = intersect_loop \<lparr>IvLower = None, IvUpper = None, Equality = False\<rparr> fs"

definition appendMaxSuffix :: "bytes \<Rightarrow> bytes option" where
  "appendMaxSuffix b = (if b = [] then None else Some (b @ replicate 64 0xFF))"

record bound_state =
  LowerFields :: "order_field list"
  UpperFields :: "order_field list"
  RangeLowerInclusive :: bool
  RangeUpperInclusive :: bool
  HasRangeLower :: bool
  HasRangeUpper :: bool
  EmptyRange :: bool

text \<open>The loop over the template fields; a field without filters or with a range ends it.\<close>

fun bound_loop :: "plan_filter list \<Rightarrow> template_field list \<Rightarrow> bound_state \<Rightarrow> plan_error + bound_state" where
  "bound_loop filters [] st = Inr st"
| "bound_loop filters (tf # tfs) st =
     (let fs = filter (\<lambda>f. PField f = FieldName tf) filters in
      if fs = [] then Inr st
      else
        let dir = (if FieldOrder tf = TemplateDesc then Desc else Asc) in
        bind_result (intersectFieldFilters fs) (\<lambda>iv.
          let st1 = st\<lparr>EmptyRange := EmptyRange st \<or> iv_empty iv\<rparr>;
              field = (\<lambda>b. \<lparr>FieldValue = BoundValue b, FieldDirection = dir, FieldMissing = False\<rparr>)
          in if Equality iv
             then bound_loop filters tfs
               (st1\<lparr>LowerFields := LowerFields st1 @ [field (the (IvLower iv))],
                    UpperFields := UpperFields st1 @ [field (the (IvLower iv))]\<rparr>)
             else
               let lo = (if dir = Desc then IvUpper iv else IvLower iv);
                   hi = (if dir = Desc then IvLower iv else IvUpper iv);
                   st2 = (case lo of None \<Rightarrow> st1
                     | Some b \<Rightarrow> st1\<lparr>LowerFields := LowerFields st1 @ [field b], RangeLowerInclusive := Inclusive b,
                         HasRangeLower := True\<rparr>);
                   st3 = (case hi of None \<Rightarrow> st2
                     | Some b \<Rightarrow> st2\<lparr>UpperFields := UpperFields st2 @ [field b], RangeUpperInclusive := Inclusive b,
                         HasRangeUpper := True\<rparr>)
               in if lo \<noteq> None \<or> hi \<noteq> None then Inr st3 else bound_loop filters tfs st3))"

text \<open>The search options and whether the range is empty.\<close>

definition buildSearchOptions :: "plan \<Rightarrow> template \<Rightarrow> plan_error + (search_options \<times> bool)" where
  "buildSearchOptions plan t =
     bind_result (if PlanStartAfter plan = '''' then Inr None
        else (case DecodeBase64 (PlanStartAfter plan) of None \<Rightarrow> Inl InvalidCursor | Some k \<Rightarrow> Inr (Some k)))
       (\<lambda>start.
          bind_result (bound_loop (PlanFilters plan) (Fields t)
              \<lparr>LowerFields = [], UpperFields = [], RangeLowerInclusive = True, RangeUpperInclusive = True,
               HasRangeLower = False, HasRangeUpper = False, EmptyRange = False\<rparr>) (\<lambda>st.
            bind_result (if LowerFields st = [] then Inr None
                else (case EncodePrefix (LowerFields st) of Inl e \<Rightarrow> Inl (PlanEncodingError e)
                  | Inr k \<Rightarrow> Inr (if HasRangeLower st \<and> \<not> RangeLowerInclusive st then appendMaxSuffix k else Some k)))
              (\<lambda>lower.
                 bind_result (if UpperFields st = [] then Inr None
                     else (case EncodePrefix (UpperFields st) of Inl e \<Rightarrow> Inl (PlanEncodingError e)
                       | Inr k \<Rightarrow> Inr (if \<not> HasRangeUpper st \<or> RangeUpperInclusive st then appendMaxSuffix k else Some k)))
                   (\<lambda>upper.
                      Inr (\<lparr>Lower = lower, Upper = upper, StartAfter = start,
                            Limit = (if PlanLimit plan \<le> 0 then 100 else PlanLimit plan)\<rparr>, EmptyRange st)))))"

definition validatePlan :: "plan \<Rightarrow> plan_error + unit" where
  "validatePlan plan = (if PlanCollection plan = '''' then Inl ErrInvalidPlan else Inr ())"

definition mgr_Search :: "'t btree \<Rightarrow> string \<Rightarrow> plan \<Rightarrow> 't manager \<Rightarrow> plan_error + doc_ref list" where
  "mgr_Search ops database plan m =
     bind_result (validatePlan plan) (\<lambda>_.
       bind_result (SelectBestTemplate plan m) (\<lambda>t.
         bind_result (buildSearchOptions plan t) (\<lambda>(opts, empty).
           if empty then Inr []
           else Inr (Search ops database (NormalizedPattern t) (Identity t) opts (MgrStore m)))))"

section \<open>Writes\<close>

definition mgr_Upsert ::
  "'t btree \<Rightarrow> string \<Rightarrow> string \<Rightarrow> string \<Rightarrow> string \<Rightarrow> bytes \<Rightarrow> string \<Rightarrow> 't manager \<Rightarrow> 't manager" where
  "mgr_Upsert ops database pattern tmplID docID orderKey p m =
     m\<lparr>MgrStore := Upsert ops database pattern tmplID docID orderKey p (MgrStore m)\<rparr>"

definition mgr_Delete ::
  "'t btree \<Rightarrow> string \<Rightarrow> string \<Rightarrow> string \<Rightarrow> string \<Rightarrow> string \<Rightarrow> 't manager \<Rightarrow> 't manager" where
  "mgr_Delete ops database pattern tmplID docID p m =
     m\<lparr>MgrStore := Delete ops database pattern tmplID docID p (MgrStore m)\<rparr>"

definition mgr_DeleteIndex :: "string \<Rightarrow> string \<Rightarrow> string \<Rightarrow> 't manager \<Rightarrow> 't manager" where
  "mgr_DeleteIndex database pattern tmplID m = m\<lparr>MgrStore := DeleteIndex database pattern tmplID (MgrStore m)\<rparr>"

definition mgr_SetState ::
  "'t btree \<Rightarrow> string \<Rightarrow> string \<Rightarrow> string \<Rightarrow> index_state \<Rightarrow> 't manager \<Rightarrow> 't manager" where
  "mgr_SetState ops database pattern tmplID st m = m\<lparr>MgrStore := SetState ops database pattern tmplID st (MgrStore m)\<rparr>"

definition mgr_GetState :: "string \<Rightarrow> string \<Rightarrow> string \<Rightarrow> 't manager \<Rightarrow> index_state" where
  "mgr_GetState database pattern tmplID m = GetState database pattern tmplID (MgrStore m)"

definition mgr_LoadProgress :: "'t manager \<Rightarrow> string" where
  "mgr_LoadProgress m = LoadProgress (MgrStore m)"

definition LoadTemplatesFromDir ::
  "(fingerprint_payload \<Rightarrow> string) \<Rightarrow> dir_entry list \<Rightarrow> 't manager \<Rightarrow> template_error + 't manager" where
  "LoadTemplatesFromDir hash entries m =
     bind_result (LoadFromDir hash entries) (\<lambda>dbs. Inr (m\<lparr>DbTemplates := dbs, MgrTemplates := AllTemplates dbs\<rparr>))"

definition LoadTemplatesFromBytes ::
  "(fingerprint_payload \<Rightarrow> string) \<Rightarrow> config \<Rightarrow> 't manager \<Rightarrow> template_error + 't manager" where
  "LoadTemplatesFromBytes hash cfg m =
     bind_result (LoadFromBytes hash cfg) (\<lambda>ts. Inr (m\<lparr>MgrTemplates := ts\<rparr>))"

definition mgr_Stats :: "'t manager \<Rightarrow> nat" where
  "mgr_Stats m = length (MgrTemplates m)"

end
