(* ===== verification/Merging.thy ===== *)
theory Merging
  imports Streams
begin

text \<open>
  The merging stream of \<^verbatim>\<open>internal/indexer/manager/candidates.go\<close> is correct over any source that keeps
  the laws of \<open>ordered_source\<close>: each step returns the least position left with every branch at it, the loop
  that collects the branches ends, and within the work budget of \<open>budgeted_source\<close> no step fails.  The
  iterators of the in-memory store are such a source over every tree that keeps the laws of \<open>ordered_tree\<close>.
\<close>


section \<open>Steps of an iterator\<close>

lemma next_loop_result:
  assumes "next_loop opts lst maxEx items (viewEx, ex) = (found, False, viewEx', ex')"
  shows "found = (case dropWhile (\<lambda>i. \<not> after opts i) (to_examine opts lst items) of [] \<Rightarrow> None | i # _ \<Rightarrow> Some i) \<and>
    viewEx' - viewEx = ex' - ex"
  using assms
proof (induction items arbitrary: viewEx ex)
  case (Cons item items)
  have lst: "(case lst of Some l \<Rightarrow> \<not> lessFunc l item | None \<Rightarrow> False) \<longleftrightarrow> \<not> beyond lst item"
    by (simp add: beyond_def lessFunc_iff split: option.splits)
  have upper: "(case Upper opts of Some u \<Rightarrow> bytes_compare (fst item) u \<ge> 0 | None \<Rightarrow> False) \<longleftrightarrow> \<not> below opts item"
    by (simp add: below_def bytes_compare_sign not_less split: option.splits)
  have sa: "(case StartAfter opts of Some a \<Rightarrow> bytes_compare (fst item) a \<le> 0 | None \<Rightarrow> False) \<longleftrightarrow> \<not> after opts item"
    by (simp add: after_def bytes_compare_sign not_less split: option.splits)
  show ?case
    using Cons.prems Cons.IH [of viewEx ex] Cons.IH [of "viewEx + 1" "ex + 1"]
    by (auto simp: lst upper sa to_examine_def split: if_splits)
qed (simp add: to_examine_def)

definition it_valid :: "projection_iterator \<Rightarrow> bool" where
  "it_valid it \<longleftrightarrow> Limit (it_opts it) \<le> 0 \<and> (\<forall>l. it_last it = Some l \<longrightarrow> in_bounds (it_opts it) l)"

text \<open>What an iterator has still to return and the number of items it has still to examine.\<close>

definition it_left :: "'t btree \<Rightarrow> 't projection_view \<Rightarrow> projection_iterator \<Rightarrow> btree_item list" where
  "it_left ops v it =
     (if it_closed it then []
      else filter (\<lambda>i. in_bounds (it_opts it) i \<and> beyond (it_last it) i) (tree_ascend ops least_item (view_tree v)))"

definition it_cost :: "'t btree \<Rightarrow> 't projection_view \<Rightarrow> projection_iterator \<Rightarrow> int" where
  "it_cost ops v it =
     (if it_closed it then 0
      else int (length (to_examine (it_opts it) (it_last it)
        (tree_ascend ops (start_item (it_opts it) (it_last it)) (view_tree v)))))"

lemma it_left_closed: "it_closed it \<Longrightarrow> it_left ops v it = [] \<and> it_cost ops v it = 0"
  by (simp add: it_left_def it_cost_def)

lemma it_left_examined [simp]: "it_left ops (v\<lparr>view_examined := e\<rparr>) it = it_left ops v it"
  "it_cost ops (v\<lparr>view_examined := e\<rparr>) it = it_cost ops v it"
  by (simp_all add: it_left_def it_cost_def)

context ordered_tree
begin

lemma left_after:
  assumes "\<not> it_closed it" "it_valid it" and "it_left ops v it = i # rest"
  shows "it_left ops v (it\<lparr>it_examined := ex, it_last := Some i, it_count := c\<rparr>) = rest"
    and "it_cost ops v (it\<lparr>it_examined := ex, it_last := Some i, it_count := c\<rparr>) = int (length rest)"
    and "it_valid (it\<lparr>it_examined := ex, it_last := Some i, it_count := c\<rparr>)"
proof -
  have R: "filter (\<lambda>i. in_bounds (it_opts it) i \<and> beyond (it_last it) i) (tree_ascend ops least_item (view_tree v)) = i # rest"
    using assms by (simp add: it_left_def)
  show "it_left ops v (it\<lparr>it_examined := ex, it_last := Some i, it_count := c\<rparr>) = rest"
    "it_cost ops v (it\<lparr>it_examined := ex, it_last := Some i, it_count := c\<rparr>) = int (length rest)"
    "it_valid (it\<lparr>it_examined := ex, it_last := Some i, it_count := c\<rparr>)"
    using rest_to_examine [OF refl R] assms by (simp_all add: it_left_def it_cost_def it_valid_def)
qed

lemma it_first:
  assumes "\<not> it_closed it" "it_valid it"
  shows "dropWhile (\<lambda>i. \<not> after (it_opts it) i) (to_examine (it_opts it) (it_last it)
      (tree_ascend ops (start_item (it_opts it) (it_last it)) (view_tree v))) = it_left ops v it"
proof -
  have "\<And>l. it_last it = Some l \<Longrightarrow> in_bounds (it_opts it) l" using assms by (simp add: it_valid_def)
  from to_examine_first [OF refl this] show ?thesis using assms by (simp add: it_left_def)
qed

lemma it_Next_step:
  assumes it: "it_valid it" and step: "it_Next ops False v it = (v', it', Inr r)"
  shows "it_valid it' \<and> view_tree v' = view_tree v \<and> view_closed v' = view_closed v \<and>
    view_maxExamined v' = view_maxExamined v \<and>
    view_examined v' - view_examined v = it_examined it' - it_examined it \<and>
    (case r of None \<Rightarrow> it_left ops v it = [] \<and> it_closed it'
     | Some x \<Rightarrow> \<exists>i. x = ref_of_item i \<and> it_left ops v it = i # it_left ops v' it')"
proof (cases "it_closed it")
  case True
  then show ?thesis using assms by (auto simp: it_Next_def it_left_def)
next
  case False
  let ?items = "tree_ascend ops (start_item (it_opts it) (it_last it)) (view_tree v)"
  obtain found limited viewEx ex where loop: "next_loop (it_opts it) (it_last it) (view_maxExamined v) ?items
      (view_examined v, it_examined it) = (found, limited, viewEx, ex)" by (metis prod_cases4)
  have lim: "\<not> (Limit (it_opts it) > 0 \<and> it_count it \<ge> Limit (it_opts it))" using it by (simp add: it_valid_def)
  have ok: "\<not> limited" "v' = v\<lparr>view_examined := viewEx\<rparr>" and it':
    "case found of None \<Rightarrow> it' = it\<lparr>it_examined := ex, it_closed := True\<rparr> \<and> r = None
      | Some i \<Rightarrow> it' = it\<lparr>it_examined := ex, it_last := Some i, it_count := it_count it + 1\<rparr> \<and> r = Some (ref_of_item i)"
    using step False lim by (auto simp: it_Next_def loop ref_of_item_def Let_def split: if_splits option.splits)
  note res = next_loop_result [OF loop [simplified ok(1)], unfolded it_first [OF False it]]
  show ?thesis
  proof (cases "it_left ops v it")
    case Nil
    then show ?thesis using res it' it ok by (simp add: it_valid_def)
  next
    case (Cons i rest)
    then have i: "found = Some i" using res by simp
    then have "it' = it\<lparr>it_examined := ex, it_last := Some i, it_count := it_count it + 1\<rparr>" "r = Some (ref_of_item i)"
      using it' by simp_all
    then show ?thesis using left_after [OF False it Cons] Cons ok(2) res by (cases i) simp
  qed
qed

lemma it_Next_budget:
  assumes "\<not> view_closed v" and it: "it_valid it" and cost: "view_examined v + it_cost ops v it \<le> view_maxExamined v"
  shows "\<exists>v' it' r. it_Next ops False v it = (v', it', Inr r) \<and>
    view_examined v' + it_cost ops v' it' \<le> view_examined v + it_cost ops v it"
proof (cases "it_closed it")
  case True
  then show ?thesis using assms by (simp add: it_Next_def)
next
  case False
  let ?E = "to_examine (it_opts it) (it_last it) (tree_ascend ops (start_item (it_opts it) (it_last it)) (view_tree v))"
  let ?k = "int (length (takeWhile (\<lambda>i. \<not> after (it_opts it) i) ?E))"
  have E: "it_cost ops v it = int (length ?E)" using False by (simp add: it_cost_def)
  note loop = next_loop_within [OF cost [unfolded E], of "it_examined it", unfolded Let_def it_first [OF False it]]
  have len: "length ?E = length (takeWhile (\<lambda>i. \<not> after (it_opts it) i) ?E) + length (it_left ops v it)"
    using it_first [OF False it, of v] by (metis length_append takeWhile_dropWhile_id)
  have lim: "\<not> (Limit (it_opts it) > 0 \<and> it_count it \<ge> Limit (it_opts it))" using it by (simp add: it_valid_def)
  show ?thesis
  proof (cases "it_left ops v it")
    case Nil
    then show ?thesis using assms(1) False lim loop len E
      by (simp add: it_Next_def it_left_closed)
  next
    case (Cons i rest)
    then show ?thesis using assms(1) False lim loop len E left_after [OF False it Cons]
      by (simp add: it_Next_def)
  qed
qed

end

section \<open>Sources\<close>

text \<open>
  What a stream relies on: advancing a branch takes the next posting of that branch and leaves the others
  alone; and it succeeds as long as the work it may still do fits the budget.
\<close>

locale ordered_source =
  fixes nxt :: "'s source_next" and ok :: "'s \<Rightarrow> bool" and width :: "'s \<Rightarrow> nat"
    and pending :: "'s \<Rightarrow> nat \<Rightarrow> doc_ref list"
  assumes nxt_result: "ok src \<Longrightarrow> i < width src \<Longrightarrow> nxt src i = (src', Inr r) \<Longrightarrow>
    ok src' \<and> width src' = width src \<and> (\<forall>j < width src. j \<noteq> i \<longrightarrow> pending src' j = pending src j) \<and>
    (case r of None \<Rightarrow> pending src i = [] \<and> pending src' i = [] | Some x \<Rightarrow> pending src i = x # pending src' i)"

locale budgeted_source = ordered_source +
  fixes examined :: "'s \<Rightarrow> int" and cost :: "'s \<Rightarrow> nat \<Rightarrow> int" and limit :: "'s \<Rightarrow> int"
  assumes nxt_budget: "ok src \<Longrightarrow> i < width src \<Longrightarrow> examined src + cost src i \<le> limit src \<Longrightarrow>
      \<exists>src' r. nxt src i = (src', Inr r) \<and> limit src' = limit src \<and>
        examined src' + cost src' i \<le> examined src + cost src i \<and> (\<forall>j < width src. j \<noteq> i \<longrightarrow> cost src' j = cost src j)"
    and cost_nonneg: "0 \<le> cost src i"

definition mem_width :: "'t mem_source \<Rightarrow> nat" where
  "mem_width src = (case fst src of None \<Rightarrow> 0 | Some _ \<Rightarrow> length (snd src))"

definition mem_ok :: "'t mem_source \<Rightarrow> bool" where
  "mem_ok src \<longleftrightarrow> (case fst src of None \<Rightarrow> True
     | Some v \<Rightarrow> \<not> view_closed v \<and> (\<forall>it \<in> set (snd src). it_valid it) \<and> view_examined v = mem_examined src)"

definition mem_pending :: "'t btree \<Rightarrow> 't mem_source \<Rightarrow> nat \<Rightarrow> doc_ref list" where
  "mem_pending ops src i =
     (case fst src of None \<Rightarrow> [] | Some v \<Rightarrow> map ref_of_item (it_left ops v (snd src ! i)))"

definition mem_cost :: "'t btree \<Rightarrow> 't mem_source \<Rightarrow> nat \<Rightarrow> int" where
  "mem_cost ops src i = (case fst src of None \<Rightarrow> 0 | Some v \<Rightarrow> it_cost ops v (snd src ! i))"

definition mem_limit :: "'t mem_source \<Rightarrow> int" where
  "mem_limit src = (case fst src of None \<Rightarrow> 0 | Some v \<Rightarrow> view_maxExamined v)"

lemma examined_update:
  "i < length its \<Longrightarrow> sum_list (map Examined (its[i := it])) = sum_list (map Examined its) + it_examined it - it_examined (its ! i)"
  by (induction its arbitrary: i) (auto simp: Examined_def nth_Cons split: nat.splits)

lemma it_left_tree: "view_tree v' = view_tree v \<Longrightarrow> it_left ops v' it = it_left ops v it"
  "view_tree v' = view_tree v \<Longrightarrow> it_cost ops v' it = it_cost ops v it"
  by (simp_all add: it_left_def it_cost_def)

sublocale ordered_tree \<subseteq> scan: budgeted_source "mem_next ops False" mem_ok mem_width "mem_pending ops"
  mem_examined "mem_cost ops" mem_limit
proof
  fix src :: "'t mem_source" and i src' r
  assume ok: "mem_ok src" and i: "i < mem_width src" and n: "mem_next ops False src i = (src', Inr r)"
  then obtain v where v: "fst src = Some v" by (cases "fst src") (auto simp: mem_width_def)
  obtain v' it' r' where s: "it_Next ops False v (snd src ! i) = (v', it', r')" by (metis prod_cases3)
  then have r: "src' = (Some v', (snd src)[i := it'])" "r' = Inr r" using n by (auto simp: mem_next_def v)
  have "snd src ! i \<in> set (snd src)" and i': "i < length (snd src)" using i by (simp_all add: mem_width_def v)
  then have "it_valid (snd src ! i)" using ok by (simp add: mem_ok_def v)
  from it_Next_step [OF this s [unfolded r]]
  have it: "it_valid it'" "view_tree v' = view_tree v" "view_closed v' = view_closed v"
    "view_examined v' - view_examined v = it_examined it' - it_examined (snd src ! i)"
    and res: "case r of None \<Rightarrow> it_left ops v (snd src ! i) = [] \<and> it_closed it'
     | Some x \<Rightarrow> \<exists>j. x = ref_of_item j \<and> it_left ops v (snd src ! i) = j # it_left ops v' it'" by simp_all
  have "mem_ok src'"
    using ok it i' by (auto simp: mem_ok_def v r mem_examined_def examined_update dest: set_update_subset_insert [THEN subsetD])
  moreover have "\<forall>j < mem_width src. j \<noteq> i \<longrightarrow> mem_pending ops src' j = mem_pending ops src j"
    by (auto simp: mem_pending_def r v it_left_tree [OF it(2)])
  moreover have "case r of None \<Rightarrow> mem_pending ops src i = [] \<and> mem_pending ops src' i = []
      | Some x \<Rightarrow> mem_pending ops src i = x # mem_pending ops src' i"
    using res i' by (cases r) (auto simp: mem_pending_def r v it_left_closed)
  ultimately show "mem_ok src' \<and> mem_width src' = mem_width src \<and>
      (\<forall>j < mem_width src. j \<noteq> i \<longrightarrow> mem_pending ops src' j = mem_pending ops src j) \<and>
      (case r of None \<Rightarrow> mem_pending ops src i = [] \<and> mem_pending ops src' i = []
       | Some x \<Rightarrow> mem_pending ops src i = x # mem_pending ops src' i)"
    by (simp add: mem_width_def r v)
next
  fix src :: "'t mem_source" and i
  assume ok: "mem_ok src" and i: "i < mem_width src" and b: "mem_examined src + mem_cost ops src i \<le> mem_limit src"
  then obtain v where v: "fst src = Some v" by (cases "fst src") (auto simp: mem_width_def)
  have "snd src ! i \<in> set (snd src)" and i': "i < length (snd src)" using i by (simp_all add: mem_width_def v)
  then have it: "it_valid (snd src ! i)" "\<not> view_closed v" "view_examined v = mem_examined src"
    using ok by (simp_all add: mem_ok_def v)
  then have "view_examined v + it_cost ops v (snd src ! i) \<le> view_maxExamined v"
    using b by (simp add: mem_cost_def mem_limit_def v)
  from it_Next_budget [OF it(2,1) this] obtain v' it' r
    where s: "it_Next ops False v (snd src ! i) = (v', it', Inr r)"
    and c: "view_examined v' + it_cost ops v' it' \<le> view_examined v + it_cost ops v (snd src ! i)" by blast
  from it_Next_step [OF it(1) s] have k: "view_tree v' = view_tree v" "view_maxExamined v' = view_maxExamined v"
    "view_examined v' - view_examined v = it_examined it' - it_examined (snd src ! i)" by simp_all
  let ?s = "(Some v', (snd src)[i := it'])"
  have "mem_examined ?s + mem_cost ops ?s i \<le> mem_examined src + mem_cost ops src i"
    using c k(3) i' it(3) by (simp add: mem_examined_def examined_update mem_cost_def v)
  then show "\<exists>src' r. mem_next ops False src i = (src', Inr r) \<and> mem_limit src' = mem_limit src \<and>
      mem_examined src' + mem_cost ops src' i \<le> mem_examined src + mem_cost ops src i \<and>
      (\<forall>j < mem_width src. j \<noteq> i \<longrightarrow> mem_cost ops src' j = mem_cost ops src j)"
    using s k(2) by (intro exI [of _ ?s] exI [of _ r]) (auto simp: mem_next_def v mem_limit_def mem_cost_def it_left_tree [OF k(1)])
qed (simp add: mem_cost_def it_cost_def split: option.splits)

section \<open>The merge\<close>

text \<open>
  What a branch has still to return: the position and ID of its head, if it is in the queue, and those of the
  postings its iterator has not returned.
\<close>

definition entry :: "candidate_metadata \<Rightarrow> doc_ref \<Rightarrow> bytes \<times> string" where
  "entry m r = ((case position m (OrderKey r) of Inr p \<Rightarrow> p | Inl _ \<Rightarrow> []), RefID r)"

definition head_entries :: "candidate_group option \<Rightarrow> (bytes \<times> string) list" where
  "head_entries h = (case h of None \<Rightarrow> [] | Some g \<Rightarrow> [(Position g, GroupID g)])"

definition remaining :: "('s \<Rightarrow> nat \<Rightarrow> doc_ref list) \<Rightarrow> 's candidate_stream \<Rightarrow> nat \<Rightarrow> (bytes \<times> string) list" where
  "remaining pending s i =
     head_entries (StreamHeads s ! i) @ map (entry (StreamMeta s)) (pending (StreamSource s) i)"

definition queue_ok :: "nat set \<Rightarrow> 's candidate_stream \<Rightarrow> bool" where
  "queue_ok D s \<longleftrightarrow> heap_ok heap_Less (StreamQueue s) \<and> distinct (StreamQueue s) \<and>
     set (StreamQueue s) = {g. \<exists>j < length (StreamHeads s). j \<notin> D \<and> StreamHeads s ! j = Some g} \<and>
     (\<forall>j < length (StreamHeads s). \<forall>g. StreamHeads s ! j = Some g \<longrightarrow> GroupBranches g = [j])"

definition same_stream :: "'s candidate_stream \<Rightarrow> 's candidate_stream \<Rightarrow> bool" where
  "same_stream s s' \<longleftrightarrow> StreamMeta s' = StreamMeta s \<and> length (StreamHeads s') = length (StreamHeads s) \<and>
     StreamStarted s' = StreamStarted s \<and> StreamClosed s' = StreamClosed s \<and> StreamMaxExamined s' = StreamMaxExamined s"

lemma same_stream_trans: "same_stream s s' \<Longrightarrow> same_stream s' s'' \<Longrightarrow> same_stream s s''"
  by (simp add: same_stream_def)

interpretation positions: weak_order heap_Less
  by unfold_locales (auto simp: heap_Less_def compare_sign)

lemma queue_least:
  assumes "queue_ok {} s" and "StreamQueue s \<noteq> []" and "i < length (StreamHeads s)" and "StreamHeads s ! i = Some h"
  shows "Position (hd (StreamQueue s)) \<le> Position h"
proof -
  have "h \<in> set (StreamQueue s)" using assms by (auto simp: queue_ok_def)
  then obtain k where k: "k < length (StreamQueue s)" "StreamQueue s ! k = h" by (auto simp: in_set_conv_nth)
  have "\<not> heap_Less h (StreamQueue s ! 0)"
    using positions.heap_root [OF _ k(1)] assms(1) k(2) by (auto simp: queue_ok_def)
  then show ?thesis using assms(2) by (simp add: heap_Less_def compare_sign hd_conv_nth)
qed

lemma queue_pop:
  assumes q: "queue_ok {} s" and ne: "StreamQueue s \<noteq> []" and pop: "heap_pop heap_Less (StreamQueue s) = (head, queue)"
  obtains i where "head = hd (StreamQueue s)" "i < length (StreamHeads s)" "StreamHeads s ! i = Some head"
    "GroupBranches head = [i]" "queue_ok {i} (s\<lparr>StreamQueue := queue\<rparr>)"
proof -
  have h: "heap_ok heap_Less (StreamQueue s)" "distinct (StreamQueue s)" using q by (simp_all add: queue_ok_def)
  note p = positions.heap_pop_correct [OF h(1) ne pop]
  then have hd: "head = hd (StreamQueue s)" using ne by (simp add: hd_conv_nth)
  then have "head \<in> set (StreamQueue s)" using ne by simp
  then obtain i where i: "i < length (StreamHeads s)" "StreamHeads s ! i = Some head" using q by (auto simp: queue_ok_def)
  then have b: "GroupBranches head = [i]" using q by (simp add: queue_ok_def)
  have "mset (head # queue) = mset (StreamQueue s)" using p by (metis mset.simps(2))
  then have d: "distinct (head # queue)" "set (head # queue) = set (StreamQueue s)"
    using h(2) mset_eq_imp_distinct_iff mset_eq_setD by blast+
  have "set queue = {g. \<exists>j < length (StreamHeads s). j \<noteq> i \<and> StreamHeads s ! j = Some g}"
  proof (intro equalityI subsetI)
    fix g assume g: "g \<in> set queue"
    then have "g \<noteq> head" "g \<in> set (StreamQueue s)" using d by auto
    then show "g \<in> {g. \<exists>j < length (StreamHeads s). j \<noteq> i \<and> StreamHeads s ! j = Some g}"
      using q i by (auto simp: queue_ok_def)
  next
    fix g assume "g \<in> {g. \<exists>j < length (StreamHeads s). j \<noteq> i \<and> StreamHeads s ! j = Some g}"
    then obtain j where j: "j < length (StreamHeads s)" "j \<noteq> i" "StreamHeads s ! j = Some g" by blast
    then have "GroupBranches g = [j]" "g \<in> set (StreamQueue s)" using q by (auto simp: queue_ok_def)
    then have "g \<noteq> head" "g \<in> set (head # queue)" using b j(2) d(2) by auto
    then show "g \<in> set queue" by simp
  qed
  then have "queue_ok {i} (s\<lparr>StreamQueue := queue\<rparr>)" using q p d by (simp add: queue_ok_def)
  with hd i b show thesis using that by blast
qed

context ordered_source
begin

definition stream_ok :: "nat set \<Rightarrow> 's candidate_stream \<Rightarrow> bool" where
  "stream_ok D s \<longleftrightarrow> ok (StreamSource s) \<and> width (StreamSource s) = length (StreamHeads s) \<and> queue_ok D s"

definition filled :: "'s candidate_stream \<Rightarrow> nat \<Rightarrow> bool" where
  "filled s i \<longleftrightarrow> (StreamHeads s ! i = None \<longrightarrow> pending (StreamSource s) i = [])"

lemma refill:
  assumes s: "stream_ok {i} s" and i: "i < length (StreamHeads s)"
    and a: "stream_advance nxt examined False i s = (s1, Inr ())"
  shows "stream_ok {} (push_head i s1) \<and> same_stream s (push_head i s1) \<and> filled (push_head i s1) i \<and>
    remaining pending (push_head i s1) i = map (entry (StreamMeta s)) (pending (StreamSource s) i) \<and>
    (\<forall>j < length (StreamHeads s). j \<noteq> i \<longrightarrow> remaining pending (push_head i s1) j = remaining pending s j \<and>
       filled (push_head i s1) j = filled s j)"
proof -
  obtain src r where n: "nxt (StreamSource s) i = (src, r)" by fastforce
  then obtain ref where r: "r = Inr ref" using a by (cases r) (auto simp: stream_advance_def)
  have w: "ok (StreamSource s)" "i < width (StreamSource s)" "width (StreamSource s) = length (StreamHeads s)"
    using s i by (auto simp: stream_ok_def)
  note res = nxt_result [OF w(1,2) n [unfolded r]]
  have q: "queue_ok {i} s" using s by (simp add: stream_ok_def)
  show ?thesis
  proof (cases ref)
    case None
    then have s1: "s1 = s\<lparr>StreamSource := src, StreamHeads := (StreamHeads s)[i := None]\<rparr>"
      using a by (auto simp: stream_advance_def n r Let_def split: if_splits)
    then have "push_head i s1 = s1" using i by (simp add: push_head_def)
    moreover have "queue_ok {} s1"
      using q i by (auto simp: queue_ok_def s1 nth_list_update)
    ultimately show ?thesis using res i w None
      by (simp add: stream_ok_def same_stream_def filled_def remaining_def head_entries_def s1)
  next
    case (Some x)
    then obtain p where p: "position (StreamMeta s) (OrderKey x) = Inr p"
      using a by (cases "position (StreamMeta s) (OrderKey x)") (auto simp: stream_advance_def n r Let_def split: if_splits)
    define h where "h = \<lparr>GroupID = RefID x, Position = p, GroupBranches = [i]\<rparr>"
    have s1: "s1 = s\<lparr>StreamSource := src, StreamHeads := (StreamHeads s)[i := Some h]\<rparr>"
      using a by (auto simp: stream_advance_def n r Some p h_def Let_def split: if_splits)
    then have push: "push_head i s1 = s1\<lparr>StreamQueue := heap_push heap_Less (StreamQueue s) h\<rparr>"
      using i by (simp add: push_head_def)
    have hb: "GroupBranches h = [i]" by (simp add: h_def)
    have "h \<notin> set (StreamQueue s)"
    proof
      assume "h \<in> set (StreamQueue s)"
      then obtain j where "j < length (StreamHeads s)" "j \<noteq> i" "StreamHeads s ! j = Some h" using q by (auto simp: queue_ok_def)
      then show False using q hb by (auto simp: queue_ok_def)
    qed
    moreover have m: "mset (heap_push heap_Less (StreamQueue s) h) = mset (h # StreamQueue s)"
      using positions.heap_push_mset by simp
    moreover have "distinct (StreamQueue s)" using q by (simp add: queue_ok_def)
    ultimately have d: "distinct (heap_push heap_Less (StreamQueue s) h)"
      using mset_eq_imp_distinct_iff [OF m] by simp
    have e: "set (heap_push heap_Less (StreamQueue s) h) = insert h (set (StreamQueue s))"
      using mset_eq_setD [OF m] by simp
    have hp: "heap_ok heap_Less (heap_push heap_Less (StreamQueue s) h)"
      using positions.heap_push_ok q by (simp add: queue_ok_def)
    have heads: "StreamHeads (push_head i s1) = (StreamHeads s)[i := Some h]" unfolding push by (simp add: s1)
    have "set (heap_push heap_Less (StreamQueue s) h) =
        {g. \<exists>j < length (StreamHeads s). (StreamHeads s)[i := Some h] ! j = Some g}"
      unfolding e using q i by (auto simp: queue_ok_def nth_list_update)
    moreover have "\<forall>j < length (StreamHeads s). \<forall>g. (StreamHeads s)[i := Some h] ! j = Some g \<longrightarrow> GroupBranches g = [j]"
      using q hb i by (auto simp: queue_ok_def nth_list_update split: if_splits)
    ultimately have "queue_ok {} (push_head i s1)"
      using d hp by (simp add: queue_ok_def heads) (simp add: push)
    note qo = this
    have f: "StreamSource (push_head i s1) = src" "StreamMeta (push_head i s1) = StreamMeta s"
      "StreamStarted (push_head i s1) = StreamStarted s" "StreamClosed (push_head i s1) = StreamClosed s"
      "StreamMaxExamined (push_head i s1) = StreamMaxExamined s" unfolding push by (simp_all add: s1)
    have he: "head_entries (Some h) = [entry (StreamMeta s) x]" by (simp add: head_entries_def h_def entry_def p)
    have p': "ok src" "width src = width (StreamSource s)" "pending (StreamSource s) i = x # pending src i"
      "\<And>j. j < length (StreamHeads s) \<Longrightarrow> j \<noteq> i \<Longrightarrow> pending src j = pending (StreamSource s) j"
      using res Some w(3) by simp_all
    have "stream_ok {} (push_head i s1)" using qo p'(1,2) w(3) by (simp add: stream_ok_def heads f)
    moreover have "same_stream s (push_head i s1)" by (simp add: same_stream_def heads f)
    moreover have "filled (push_head i s1) i" using i by (simp add: filled_def heads)
    moreover have "remaining pending (push_head i s1) i = map (entry (StreamMeta s)) (pending (StreamSource s) i)"
      using i by (simp add: remaining_def heads f he p'(3))
    moreover have "remaining pending (push_head i s1) j = remaining pending s j \<and> filled (push_head i s1) j = filled s j"
      if "j < length (StreamHeads s)" "j \<noteq> i" for j
      using p'(4) [OF that] that by (simp add: remaining_def filled_def heads f)
    ultimately show ?thesis by blast
  qed
qed

end

definition at_position :: "('s \<Rightarrow> nat \<Rightarrow> doc_ref list) \<Rightarrow> bytes \<Rightarrow> 's candidate_stream \<Rightarrow> nat set" where
  "at_position pending p s =
     {i. i < length (StreamHeads s) \<and> remaining pending s i \<noteq> [] \<and> fst (hd (remaining pending s i)) = p}"

text \<open>A stream between two calls of \<^verbatim>\<open>Next\<close>, all of whose remaining positions lie at \<open>p\<close> or after it.\<close>

definition from_position :: "('s \<Rightarrow> nat \<Rightarrow> doc_ref list) \<Rightarrow> bytes \<Rightarrow> 's candidate_stream \<Rightarrow> bool" where
  "from_position pending p s \<longleftrightarrow> (\<forall>i < length (StreamHeads s).
     sorted_wrt (<) (map fst (remaining pending s i)) \<and> (\<forall>e \<in> set (remaining pending s i). p \<le> fst e))"

context ordered_source
begin

definition ready :: "'s candidate_stream \<Rightarrow> bool" where
  "ready s \<longleftrightarrow> stream_ok {} s \<and> (\<forall>i < length (StreamHeads s). filled s i)"

lemma collect_stop:
  assumes r: "ready s" and f: "from_position pending p s"
    and stop: "StreamQueue s = [] \<or> Position (hd (StreamQueue s)) \<noteq> p"
  shows "at_position pending p s = {}"
proof (rule ccontr)
  assume "at_position pending p s \<noteq> {}"
  then obtain i where i: "i < length (StreamHeads s)" "remaining pending s i \<noteq> []" "fst (hd (remaining pending s i)) = p"
    by (auto simp: at_position_def)
  have q: "queue_ok {} s" using r by (simp add: ready_def stream_ok_def)
  from i r obtain h where h: "StreamHeads s ! i = Some h"
    by (cases "StreamHeads s ! i") (auto simp: ready_def filled_def remaining_def head_entries_def)
  then have ph: "Position h = p" using i by (simp add: remaining_def head_entries_def)
  have ne: "StreamQueue s \<noteq> []" using q i(1) h by (auto simp: queue_ok_def)
  then have "hd (StreamQueue s) \<in> set (StreamQueue s)" by simp
  then obtain j where j: "j < length (StreamHeads s)" "StreamHeads s ! j = Some (hd (StreamQueue s))"
    using q by (auto simp: queue_ok_def)
  then have "p \<le> Position (hd (StreamQueue s))"
    using f by (auto simp: from_position_def remaining_def head_entries_def)
  moreover have "Position (hd (StreamQueue s)) \<le> p" using queue_least [OF q ne i(1) h] ph by simp
  ultimately show False using stop ne by simp
qed

lemma collect_step:
  assumes r: "ready s" and f: "from_position pending p s" and ne: "StreamQueue s \<noteq> []"
    and p: "Position (hd (StreamQueue s)) = p" and pop: "heap_pop heap_Less (StreamQueue s) = (head, queue)"
    and a: "stream_advance nxt examined False (hd (GroupBranches head)) (s\<lparr>StreamQueue := queue\<rparr>) = (s1, Inr ())"
    and s': "s' = push_head (hd (GroupBranches head)) s1" and b: "i = hd (GroupBranches head)"
  shows "ready s' \<and> from_position pending p s' \<and> same_stream s s' \<and> i \<in> at_position pending p s \<and>
    GroupID head = snd (hd (remaining pending s i)) \<and> at_position pending p s' = at_position pending p s - {i} \<and>
    remaining pending s' i = tl (remaining pending s i) \<and>
    (\<forall>j < length (StreamHeads s). j \<noteq> i \<longrightarrow> remaining pending s' j = remaining pending s j)"
proof -
  let ?s = "s\<lparr>StreamQueue := queue\<rparr>"
  have q: "queue_ok {} s" using r by (simp add: ready_def stream_ok_def)
  obtain j where j: "head = hd (StreamQueue s)" "j < length (StreamHeads s)" "StreamHeads s ! j = Some head"
    "GroupBranches head = [j]" "queue_ok {j} ?s" by (rule queue_pop [OF q ne pop])
  then have i: "i = j" using b by simp
  have rem: "remaining pending ?s = remaining pending s" by (intro ext) (simp add: remaining_def)
  have fil: "filled ?s = filled s" by (intro ext) (simp add: filled_def)
  have "stream_ok {i} ?s" using r j by (simp add: ready_def stream_ok_def i)
  from refill [OF this _ a [folded b]] j
  have new: "stream_ok {} s'" "same_stream s s'" "filled s' i"
    "remaining pending s' i = map (entry (StreamMeta s)) (pending (StreamSource s) i)"
    and old: "\<forall>k < length (StreamHeads s). k \<noteq> i \<longrightarrow> remaining pending s' k = remaining pending s k \<and> filled s' k = filled s k"
    unfolding s' b [symmetric] rem fil by (simp_all add: i same_stream_def)
  have cut: "remaining pending s i = (p, GroupID head) # remaining pending s' i"
    unfolding new(4) using j p by (simp add: remaining_def head_entries_def i)
  have len: "length (StreamHeads s') = length (StreamHeads s)" using new(2) by (simp add: same_stream_def)
  have "sorted_wrt (<) (map fst (remaining pending s i))" using f j(2) by (simp add: from_position_def i)
  then have later: "\<forall>e \<in> set (remaining pending s' i). p < fst e" using cut by simp
  have "ready s'" using new(1,3) r old by (auto simp: ready_def len) 
  moreover have "from_position pending p s'"
    unfolding from_position_def len
  proof (intro allI impI)
    fix k assume k: "k < length (StreamHeads s)"
    show "sorted_wrt (<) (map fst (remaining pending s' k)) \<and> (\<forall>e \<in> set (remaining pending s' k). p \<le> fst e)"
    proof (cases "k = i")
      case True
      have "sorted_wrt (<) (map fst (remaining pending s i))" using f k True by (simp add: from_position_def)
      then show ?thesis using True later cut by (auto simp: less_imp_le)
    next
      case False
      then have "remaining pending s' k = remaining pending s k" using old k by blast
      then show ?thesis using f k by (simp add: from_position_def)
    qed
  qed
  moreover have "at_position pending p s' = at_position pending p s - {i}"
  proof -
    have "i \<notin> at_position pending p s'"
    proof
      assume "i \<in> at_position pending p s'"
      then have "hd (remaining pending s' i) \<in> set (remaining pending s' i)" "fst (hd (remaining pending s' i)) = p"
        by (simp_all add: at_position_def)
      then show False using later by blast
    qed
    moreover have "k \<noteq> i \<Longrightarrow> k \<in> at_position pending p s' \<longleftrightarrow> k \<in> at_position pending p s" for k
      using old by (cases "k < length (StreamHeads s)") (simp_all add: at_position_def len)
    ultimately show ?thesis by (intro set_eqI) (metis Diff_iff insertI1 singletonD)
  qed
  moreover have "i \<in> at_position pending p s" using j(2) cut by (simp add: at_position_def i)
  ultimately show ?thesis using new(2) cut old by simp
qed

end

context ordered_source
begin

lemma collect_loop_result:
  assumes "ready s" and "from_position pending (Position g) s"
    and "collect_loop nxt examined False fuel g s = (s', Inr g')"
  shows "ready s' \<and> same_stream s s' \<and> from_position pending (Position g) s' \<and>
    GroupID g' = GroupID g \<and> Position g' = Position g \<and> at_position pending (Position g) s' = {} \<and>
    (\<exists>bs. GroupBranches g' = GroupBranches g @ bs \<and> distinct bs \<and> set bs = at_position pending (Position g) s) \<and>
    (\<forall>i < length (StreamHeads s).
      if i \<in> at_position pending (Position g) s
      then snd (hd (remaining pending s i)) = GroupID g \<and> remaining pending s' i = tl (remaining pending s i)
      else remaining pending s' i = remaining pending s i)"
  using assms
proof (induction fuel arbitrary: g s)
  case (Suc n)
  let ?p = "Position g"
  show ?case
  proof (cases "StreamQueue s = [] \<or> Position (hd (StreamQueue s)) \<noteq> ?p")
    case True
    then have "s' = s" "g' = g" using Suc.prems(3) by auto
    then show ?thesis using Suc.prems collect_stop [OF Suc.prems(1,2) True] by (simp add: same_stream_def)
  next
    case False
    then have ne: "StreamQueue s \<noteq> []" and p: "Position (hd (StreamQueue s)) = ?p" by simp_all
    obtain head queue where pop: "heap_pop heap_Less (StreamQueue s) = (head, queue)" by fastforce
    define i where "i = hd (GroupBranches head)"
    obtain s1 r where a: "stream_advance nxt examined False i (s\<lparr>StreamQueue := queue\<rparr>) = (s1, r)" by fastforce
    let ?g = "g\<lparr>GroupBranches := GroupBranches g @ [i]\<rparr>"
    have id: "GroupID head = GroupID g" and r: "r = Inr ()"
      and rec: "collect_loop nxt examined False n ?g (push_head i s1) = (s', Inr g')"
      using Suc.prems(3) False by (auto simp: pop Let_def i_def [symmetric] a split: if_splits sum.splits)
    have st: "ready (push_head i s1) \<and> from_position pending ?p (push_head i s1) \<and> same_stream s (push_head i s1) \<and>
        i \<in> at_position pending ?p s \<and> GroupID head = snd (hd (remaining pending s i)) \<and>
        at_position pending ?p (push_head i s1) = at_position pending ?p s - {i} \<and>
        remaining pending (push_head i s1) i = tl (remaining pending s i) \<and>
        (\<forall>j < length (StreamHeads s). j \<noteq> i \<longrightarrow> remaining pending (push_head i s1) j = remaining pending s j)"
      by (rule collect_step [where examined = examined, OF Suc.prems(1,2) ne p pop _ _ i_def]) (simp_all add: i_def [symmetric] a r)
    have len: "length (StreamHeads (push_head i s1)) = length (StreamHeads s)" using st by (simp add: same_stream_def)
    have g: "GroupID ?g = GroupID g" "Position ?g = ?p" "GroupBranches ?g = GroupBranches g @ [i]" by simp_all
    have f: "from_position pending (Position ?g) (push_head i s1)" using st by simp
    have IH: "ready s' \<and> same_stream (push_head i s1) s' \<and> from_position pending ?p s' \<and>
      GroupID g' = GroupID g \<and> Position g' = ?p \<and> at_position pending ?p s' = {} \<and>
      (\<exists>bs. GroupBranches g' = (GroupBranches g @ [i]) @ bs \<and> distinct bs \<and> set bs = at_position pending ?p (push_head i s1)) \<and>
      (\<forall>j < length (StreamHeads s).
        if j \<in> at_position pending ?p (push_head i s1)
        then snd (hd (remaining pending (push_head i s1) j)) = GroupID g \<and>
          remaining pending s' j = tl (remaining pending (push_head i s1) j)
        else remaining pending s' j = remaining pending (push_head i s1) j)"
      by (rule Suc.IH [OF conjunct1 [OF st] f rec, unfolded len g])
    then obtain bs where bs: "GroupBranches g' = (GroupBranches g @ [i]) @ bs" "distinct bs"
      "set bs = at_position pending ?p s - {i}" using st by auto
    then have "GroupBranches g' = GroupBranches g @ (i # bs) \<and> distinct (i # bs) \<and> set (i # bs) = at_position pending ?p s"
      using st by auto
    moreover have "if j \<in> at_position pending ?p s
        then snd (hd (remaining pending s j)) = GroupID g \<and> remaining pending s' j = tl (remaining pending s j)
        else remaining pending s' j = remaining pending s j" if j: "j < length (StreamHeads s)" for j
    proof (cases "j = i")
      case True
      then have "j \<notin> at_position pending ?p (push_head i s1)" using st by simp
      then have "remaining pending s' j = remaining pending (push_head i s1) j" using IH j by metis
      then show ?thesis using st id True by simp
    next
      case False
      then have "j \<in> at_position pending ?p (push_head i s1) \<longleftrightarrow> j \<in> at_position pending ?p s"
        "remaining pending (push_head i s1) j = remaining pending s j" using st j by simp_all
      then show ?thesis using IH j by metis
    qed
    moreover have "same_stream s s'" using st IH same_stream_trans by blast
    ultimately show ?thesis using IH by blast
  qed
qed simp

text \<open>Each round removes a branch from those at the position, so the loop needs at most one round per branch.\<close>

lemma collect_loop_fuel:
  assumes "ready s" and "from_position pending (Position g) s"
    and "card (at_position pending (Position g) s) < fuel"
  shows "snd (collect_loop nxt examined False fuel g s) \<noteq> Inl None"
  using assms
proof (induction fuel arbitrary: g s)
  case (Suc n)
  let ?p = "Position g"
  show ?case
  proof (cases "StreamQueue s = [] \<or> Position (hd (StreamQueue s)) \<noteq> ?p")
    case False
    then have ne: "StreamQueue s \<noteq> []" and p: "Position (hd (StreamQueue s)) = ?p" by simp_all
    obtain head queue where pop: "heap_pop heap_Less (StreamQueue s) = (head, queue)" by fastforce
    define i where "i = hd (GroupBranches head)"
    obtain s1 r where a: "stream_advance nxt examined False i (s\<lparr>StreamQueue := queue\<rparr>) = (s1, r)" by fastforce
    let ?g = "g\<lparr>GroupBranches := GroupBranches g @ [i]\<rparr>"
    show ?thesis
    proof (cases r)
      case (Inr u)
      have st: "ready (push_head i s1) \<and> from_position pending ?p (push_head i s1) \<and> same_stream s (push_head i s1) \<and>
        i \<in> at_position pending ?p s \<and> GroupID head = snd (hd (remaining pending s i)) \<and>
        at_position pending ?p (push_head i s1) = at_position pending ?p s - {i} \<and>
        remaining pending (push_head i s1) i = tl (remaining pending s i) \<and>
        (\<forall>j < length (StreamHeads s). j \<noteq> i \<longrightarrow> remaining pending (push_head i s1) j = remaining pending s j)"
        by (rule collect_step [where examined = examined, OF Suc.prems(1,2) ne p pop _ _ i_def]) (simp_all add: i_def [symmetric] a Inr)
      have "finite (at_position pending ?p s)" by (simp add: at_position_def)
      then have "card (at_position pending ?p s - {i}) < n" using st Suc.prems(3) card_Diff1_less [of _ i] by fastforce
      then have "snd (collect_loop nxt examined False n ?g (push_head i s1)) \<noteq> Inl None"
        using Suc.IH [of "push_head i s1" ?g] st by simp
      then show ?thesis using False by (simp add: pop Let_def i_def [symmetric] a Inr)
    qed (use False in \<open>simp add: pop Let_def i_def [symmetric] a\<close>)
  qed simp
qed simp

lemma advance_heads:
  assumes "stream_advance nxt examined False i s = (s1, r)" and "j \<noteq> i"
  shows "StreamHeads (push_head i s1) ! j = StreamHeads s ! j"
proof -
  have "StreamHeads (push_head i s1) = StreamHeads s1" by (simp add: push_head_def split: option.splits)
  moreover have "StreamHeads s1 ! j = StreamHeads s ! j"
    using assms by (auto simp: stream_advance_def Let_def split: prod.splits sum.splits option.splits if_splits)
  ultimately show ?thesis by simp
qed

lemma start_loop_result:
  assumes "start_loop nxt examined False is s = (s', Inr ())" and "stream_ok {} s"
    and "\<forall>i \<in> set is. i < length (StreamHeads s) \<and> StreamHeads s ! i = None" and "distinct is"
  shows "stream_ok {} s' \<and> same_stream s s' \<and>
    (\<forall>i < length (StreamHeads s). remaining pending s' i = remaining pending s i \<and> (i \<in> set is \<or> filled s i \<longrightarrow> filled s' i))"
  using assms
proof (induction "is" arbitrary: s)
  case Nil
  then show ?case by (simp add: same_stream_def)
next
  case (Cons i "is")
  obtain s1 r where a: "stream_advance nxt examined False i s = (s1, r)" by fastforce
  then have r: "r = Inr ()" and rec: "start_loop nxt examined False is (push_head i s1) = (s', Inr ())"
    using Cons.prems(1) by (auto split: sum.splits)
  have i: "i < length (StreamHeads s)" "StreamHeads s ! i = None" using Cons.prems(3) by simp_all
  then have "{g. \<exists>j < length (StreamHeads s). j \<notin> {i} \<and> StreamHeads s ! j = Some g} =
      {g. \<exists>j < length (StreamHeads s). j \<notin> {} \<and> StreamHeads s ! j = Some g}" by force
  then have "stream_ok {i} s" using Cons.prems(2) unfolding stream_ok_def queue_ok_def by simp
  note f = refill [OF this i(1) a [unfolded r]]
  then have len: "length (StreamHeads (push_head i s1)) = length (StreamHeads s)" by (simp add: same_stream_def)
  have none: "\<forall>j \<in> set is. j < length (StreamHeads (push_head i s1)) \<and> StreamHeads (push_head i s1) ! j = None"
    using Cons.prems(3,4) advance_heads [OF a] unfolding len by (metis distinct.simps(2) list.set_intros(2))
  have IH: "stream_ok {} s' \<and> same_stream (push_head i s1) s' \<and>
    (\<forall>j < length (StreamHeads s). remaining pending s' j = remaining pending (push_head i s1) j \<and>
      (j \<in> set is \<or> filled (push_head i s1) j \<longrightarrow> filled s' j))"
    using Cons.IH [OF rec _ none] f Cons.prems(4) by (simp add: len)
  have "remaining pending (push_head i s1) i = remaining pending s i"
    using f i by (simp add: remaining_def [of _ s] head_entries_def)
  then have "remaining pending (push_head i s1) j = remaining pending s j" if "j < length (StreamHeads s)" for j
    using f that by (cases "j = i") simp_all
  moreover have "filled (push_head i s1) j" if "j < length (StreamHeads s)" "j = i \<or> filled s j" for j
    using f that by (cases "j = i") simp_all
  ultimately show ?case using IH f same_stream_trans [of s "push_head i s1" s'] by simp
qed

end

definition entries :: "('s \<Rightarrow> nat \<Rightarrow> doc_ref list) \<Rightarrow> 's candidate_stream \<Rightarrow> (bytes \<times> string) set" where
  "entries pending s = (\<Union>i < length (StreamHeads s). set (remaining pending s i))"

lemma at_position_head:
  assumes "from_position pending p s" and "i \<in> at_position pending p s" and "snd (hd (remaining pending s i)) = d"
  shows "(p, d) \<in> set (remaining pending s i) \<and> set (tl (remaining pending s i)) = set (remaining pending s i) - {(p, d)} \<and>
    (\<forall>e \<in> set (remaining pending s i). fst e = p \<longrightarrow> e = (p, d))"
proof -
  obtain e es where e: "remaining pending s i = e # es" "fst e = p" "i < length (StreamHeads s)"
    using assms(2) by (cases "remaining pending s i") (auto simp: at_position_def)
  then have "e = (p, d)" using assms(3) by (cases e) simp
  moreover have "sorted_wrt (<) (map fst (remaining pending s i))" using assms(1) e(3) by (simp add: from_position_def)
  ultimately show ?thesis using e by auto
qed

lemma not_at_position:
  assumes "from_position pending p s" and "i < length (StreamHeads s)" and "i \<notin> at_position pending p s"
    and "e \<in> set (remaining pending s i)"
  shows "fst e \<noteq> p"
proof -
  obtain h es where h: "remaining pending s i = h # es" using assms(4) by (cases "remaining pending s i") auto
  then have "fst h \<noteq> p" using assms(2,3) by (auto simp: at_position_def)
  moreover have "\<forall>e \<in> set (remaining pending s i). p \<le> fst e" "sorted_wrt (<) (map fst (remaining pending s i))"
    using assms(1,2) by (simp_all add: from_position_def)
  ultimately show ?thesis using assms(4) h by auto
qed

context ordered_source
begin

definition open_stream :: "'s candidate_stream \<Rightarrow> bool" where
  "open_stream s \<longleftrightarrow> \<not> StreamClosed s \<and> stream_ok {} s \<and>
     (\<forall>i < length (StreamHeads s). sorted_wrt (<) (map fst (remaining pending s i)) \<and>
       (if StreamStarted s then filled s i else StreamHeads s ! i = None))"

text \<open>The stream after the iterators have been started, if they were not.\<close>

lemma started_stream:
  assumes o: "open_stream s"
    and "(if StreamStarted s then (s, Inr ())
      else start_loop nxt examined False [0..<length (StreamHeads s)] (s\<lparr>StreamStarted := True\<rparr>)) = (s1, Inr ())"
  shows "ready s1 \<and> same_stream (s\<lparr>StreamStarted := True\<rparr>) s1 \<and> open_stream s1 \<and>
    (\<forall>i < length (StreamHeads s). remaining pending s1 i = remaining pending s i)"
proof (cases "StreamStarted s")
  case True
  then show ?thesis using assms by (simp add: open_stream_def ready_def same_stream_def)
next
  case False
  let ?s = "s\<lparr>StreamStarted := True\<rparr>"
  have ok: "stream_ok {} ?s" "\<forall>i < length (StreamHeads s). StreamHeads s ! i = None"
    using o False by (auto simp: open_stream_def stream_ok_def queue_ok_def)
  have rem: "remaining pending ?s = remaining pending s" by (intro ext) (simp add: remaining_def)
  have "stream_ok {} s1 \<and> same_stream ?s s1 \<and>
    (\<forall>i < length (StreamHeads ?s). remaining pending s1 i = remaining pending ?s i \<and>
      (i \<in> set [0..<length (StreamHeads s)] \<or> filled ?s i \<longrightarrow> filled s1 i))"
    using assms(2) False ok by (intro start_loop_result) simp_all
  then have st: "stream_ok {} s1" "same_stream ?s s1"
    "\<forall>i < length (StreamHeads s). remaining pending s1 i = remaining pending s i \<and> filled s1 i" by (simp_all add: rem)
  moreover have "open_stream s1" using o st by (simp add: open_stream_def same_stream_def)
  moreover have "ready s1" using st by (simp add: ready_def same_stream_def)
  ultimately show ?thesis by blast
qed

lemma queue_head:
  assumes r: "ready s" and sorted: "\<forall>i < length (StreamHeads s). sorted_wrt (<) (map fst (remaining pending s i))"
  shows "case StreamQueue s of [] \<Rightarrow> entries pending s = {}
    | lead # _ \<Rightarrow> from_position pending (Position lead) s \<and> (Position lead, GroupID lead) \<in> entries pending s"
proof -
  have q: "queue_ok {} s" using r by (simp add: ready_def stream_ok_def)
  have first: "StreamHeads s ! i \<noteq> None" if "i < length (StreamHeads s)" "remaining pending s i \<noteq> []" for i
    using r that by (auto simp: ready_def filled_def remaining_def head_entries_def split: option.splits)
  show ?thesis
  proof (cases "StreamQueue s")
    case Nil
    then have "\<forall>i < length (StreamHeads s). StreamHeads s ! i = None" using q by (auto simp: queue_ok_def) (metis option.exhaust)
    then have "\<forall>i < length (StreamHeads s). remaining pending s i = []" using first by blast
    then show ?thesis by (simp add: Nil entries_def)
  next
    case (Cons lead rest)
    then have "lead \<in> set (StreamQueue s)" by simp
    then obtain j where j: "j < length (StreamHeads s)" "StreamHeads s ! j = Some lead" using q by (auto simp: queue_ok_def)
    then have "(Position lead, GroupID lead) \<in> set (remaining pending s j)" by (simp add: remaining_def head_entries_def)
    then have "(Position lead, GroupID lead) \<in> entries pending s" using j(1) by (auto simp: entries_def)
    moreover have "Position lead \<le> fst e" if i: "i < length (StreamHeads s)" "e \<in> set (remaining pending s i)" for i e
    proof -
      obtain h where h: "StreamHeads s ! i = Some h" using first [OF i(1)] i(2) by fastforce
      have "Position lead \<le> Position h" using queue_least [OF q _ i(1) h] Cons by simp
      moreover have "Position h \<le> fst e" using sorted i h by (auto simp: remaining_def head_entries_def less_imp_le)
      ultimately show ?thesis by simp
    qed
    ultimately show ?thesis using sorted by (simp add: Cons from_position_def)
  qed
qed

text \<open>A step of the stream: nothing is left, or the least position is returned with every branch at it.\<close>

lemma stream_Next_result:
  assumes o: "open_stream s" and n: "stream_Next nxt examined False fuel s = (s', Inr res)"
  shows "open_stream s' \<and> StreamMeta s' = StreamMeta s \<and> length (StreamHeads s') = length (StreamHeads s) \<and>
    (case res of None \<Rightarrow> entries pending s = {}
     | Some g \<Rightarrow> (Position g, GroupID g) \<in> entries pending s \<and>
         (\<forall>e \<in> entries pending s. Position g \<le> fst e \<and> (fst e = Position g \<longrightarrow> snd e = GroupID g)) \<and>
         GroupBranches g = sorted_list_of_set {i. i < length (StreamHeads s) \<and>
           (Position g, GroupID g) \<in> set (remaining pending s i)} \<and>
         entries pending s' = entries pending s - {(Position g, GroupID g)})"
proof -
  have closed: "\<not> StreamClosed s" using o by (simp add: open_stream_def)
  obtain s1 r where r: "(if StreamStarted s then (s, Inr ())
      else start_loop nxt examined False [0..<length (StreamHeads s)] (s\<lparr>StreamStarted := True\<rparr>)) = (s1, r)" by fastforce
  then obtain u where u: "r = Inr u" using n closed by (cases r) (auto simp: stream_Next_def Let_def split: if_splits)
  have n': "(case StreamQueue s1 of [] \<Rightarrow> (s1, Inr None)
     | lead # _ \<Rightarrow> (case collect_loop nxt examined False fuel
           \<lparr>GroupID = GroupID lead, Position = Position lead, GroupBranches = []\<rparr> s1 of
          (s2, Inl e) \<Rightarrow> (s2, Inl e)
        | (s2, Inr g) \<Rightarrow> (s2, Inr (Some (g\<lparr>GroupBranches := sort (GroupBranches g)\<rparr>))))) = (s', Inr res)"
    using n closed r u by (simp add: stream_Next_def split: if_splits)
  have st: "ready s1 \<and> same_stream (s\<lparr>StreamStarted := True\<rparr>) s1 \<and> open_stream s1 \<and>
    (\<forall>i < length (StreamHeads s). remaining pending s1 i = remaining pending s i)"
    using started_stream [OF o] r u by simp
  then have len: "length (StreamHeads s1) = length (StreamHeads s)" by (simp add: same_stream_def)
  then have ent: "entries pending s1 = entries pending s" using st by (simp add: entries_def)
  have "\<forall>i < length (StreamHeads s1). sorted_wrt (<) (map fst (remaining pending s1 i))"
    using st by (simp add: open_stream_def)
  note head = queue_head [OF conjunct1 [OF st] this]
  show ?thesis
  proof (cases "StreamQueue s1")
    case Nil
    then have "s' = s1" "res = None" using n' by simp_all
    then show ?thesis using Nil head st ent by (simp add: same_stream_def)
  next
    case (Cons lead rest)
    let ?g = "\<lparr>GroupID = GroupID lead, Position = Position lead, GroupBranches = []\<rparr>"
    obtain g where c: "collect_loop nxt examined False fuel ?g s1 = (s', Inr g)"
      and res: "res = Some (g\<lparr>GroupBranches := sort (GroupBranches g)\<rparr>)"
      using n' Cons by (auto split: prod.splits sum.splits)
    let ?p = "Position lead" and ?d = "GroupID lead"
    have f: "from_position pending ?p s1" "(?p, ?d) \<in> entries pending s" using head Cons ent by simp_all
    have "ready s' \<and> same_stream s1 s' \<and> from_position pending ?p s' \<and>
      GroupID g = ?d \<and> Position g = ?p \<and> at_position pending ?p s' = {} \<and>
      (\<exists>bs. GroupBranches g = [] @ bs \<and> distinct bs \<and> set bs = at_position pending ?p s1) \<and>
      (\<forall>i < length (StreamHeads s1).
        if i \<in> at_position pending ?p s1
        then snd (hd (remaining pending s1 i)) = ?d \<and> remaining pending s' i = tl (remaining pending s1 i)
        else remaining pending s' i = remaining pending s1 i)"
      by (rule collect_loop_result [OF conjunct1 [OF st] _ c, unfolded candidate_group.simps]) (rule f(1))
    then have s': "ready s'" "same_stream s1 s'" "from_position pending ?p s'" "GroupID g = ?d" "Position g = ?p"
      and bs: "distinct (GroupBranches g)" "set (GroupBranches g) = at_position pending ?p s1"
      and at: "\<And>i. i \<in> at_position pending ?p s1 \<Longrightarrow>
        snd (hd (remaining pending s1 i)) = ?d \<and> remaining pending s' i = tl (remaining pending s1 i)"
      and off: "\<And>i. i < length (StreamHeads s1) \<Longrightarrow> i \<notin> at_position pending ?p s1 \<Longrightarrow>
        remaining pending s' i = remaining pending s1 i"
      by (auto simp: at_position_def)
    have on: "i \<in> at_position pending ?p s1 \<longleftrightarrow> (?p, ?d) \<in> set (remaining pending s1 i)" if "i < length (StreamHeads s1)" for i
      using at_position_head [OF f(1)] at not_at_position [OF f(1) that] by fastforce
    have rem: "set (remaining pending s' i) = set (remaining pending s1 i) - {(?p, ?d)}" if "i < length (StreamHeads s1)" for i
    proof (cases "i \<in> at_position pending ?p s1")
      case True
      then show ?thesis using at_position_head [OF f(1) True] at [OF True] by simp
    qed (use off [OF that] on [OF that] in simp)
    have len': "length (StreamHeads s') = length (StreamHeads s1)" using s'(2) by (simp add: same_stream_def)
    have "entries pending s' = entries pending s - {(?p, ?d)}"
      unfolding ent [symmetric] by (auto simp: entries_def len' rem)
    moreover have "?p \<le> fst e \<and> (fst e = ?p \<longrightarrow> snd e = ?d)" if e: "e \<in> entries pending s" for e
    proof -
      obtain i where i: "i < length (StreamHeads s1)" "e \<in> set (remaining pending s1 i)"
        using e [folded ent] unfolding entries_def by blast
      then have "?p \<le> fst e" using f(1) by (simp add: from_position_def)
      moreover have "fst e = ?p \<Longrightarrow> e = (?p, ?d)"
        using at_position_head [OF f(1), of i ?d] at [of i] not_at_position [OF f(1) i(1) _ i(2)] i(2) by blast
      ultimately show ?thesis by auto
    qed
    moreover have "sort (GroupBranches g) = sorted_list_of_set {i. i < length (StreamHeads s) \<and>
        (?p, ?d) \<in> set (remaining pending s i)}"
    proof -
      have "{i. i < length (StreamHeads s) \<and> (?p, ?d) \<in> set (remaining pending s i)} = at_position pending ?p s1"
        (is "?L = ?R")
      proof (rule set_eqI)
        fix i
        have "i \<in> ?R \<longleftrightarrow> i < length (StreamHeads s) \<and> (?p, ?d) \<in> set (remaining pending s1 i)"
          using on [of i] by (cases "i < length (StreamHeads s)") (simp_all add: len at_position_def)
        then show "i \<in> ?L \<longleftrightarrow> i \<in> ?R" using st by auto
      qed
      then show ?thesis using bs by (metis distinct_remdups_id sorted_list_of_set_sort_remdups)
    qed
    moreover have "open_stream s'"
      using s'(1,2,3) st len' by (auto simp: open_stream_def ready_def same_stream_def from_position_def)
    ultimately show ?thesis using res s'(2,4,5) st f(2) by (simp add: same_stream_def)
  qed
qed

end

section \<open>Streams within budget\<close>

text \<open>Draining a stream: the groups its next \<open>n\<close> calls return, with the first error if there is one.\<close>

fun stream_drain ::
  "'s source_next \<Rightarrow> ('s \<Rightarrow> int) \<Rightarrow> nat \<Rightarrow> nat \<Rightarrow> 's candidate_stream \<Rightarrow> plan_error option + candidate_group list" where
  "stream_drain nxt examined fuel 0 s = Inr []"
| "stream_drain nxt examined fuel (Suc n) s =
     (case stream_Next nxt examined False fuel s of
        (s', Inl e) \<Rightarrow> Inl e
      | (s', Inr None) \<Rightarrow> Inr []
      | (s', Inr (Some g)) \<Rightarrow> bind_result (stream_drain nxt examined fuel n s') (\<lambda>gs. Inr (g # gs)))"

definition one_document :: "(bytes \<times> string) set \<Rightarrow> bool" where
  "one_document E \<longleftrightarrow> (\<forall>e \<in> E. \<forall>e' \<in> E. fst e = fst e' \<longrightarrow> snd e = snd e')"

lemma one_document_subset: "one_document E \<Longrightarrow> E' \<subseteq> E \<Longrightarrow> one_document E'"
  unfolding one_document_def by blast

context budgeted_source
begin

definition affordable :: "'s candidate_stream \<Rightarrow> bool" where
  "affordable s \<longleftrightarrow>
     examined (StreamSource s) + (\<Sum>i < length (StreamHeads s). cost (StreamSource s) i) \<le>
       min (limit (StreamSource s)) (StreamMaxExamined s) \<and>
     (\<forall>i < length (StreamHeads s). \<forall>r \<in> set (pending (StreamSource s) i). \<exists>p. position (StreamMeta s) (OrderKey r) = Inr p)"

lemma advance_succeeds:
  assumes a: "affordable s" and s: "ok (StreamSource s)" "width (StreamSource s) = length (StreamHeads s)"
    and i: "i < length (StreamHeads s)"
  shows "\<exists>s1. stream_advance nxt examined False i s = (s1, Inr ()) \<and> affordable (push_head i s1)"
proof -
  let ?src = "StreamSource s" and ?n = "length (StreamHeads s)"
  have split: "(\<Sum>j < ?n. f j) = f i + (\<Sum>j \<in> {..<?n} - {i}. f j)" for f :: "nat \<Rightarrow> int"
    using i by (simp add: sum.remove)
  have "0 \<le> (\<Sum>j \<in> {..<?n} - {i}. cost ?src j)" by (rule sum_nonneg) (rule cost_nonneg)
  then have c: "examined ?src + cost ?src i \<le> limit ?src" using a by (simp add: affordable_def split [of "cost ?src"])
  obtain src r where n: "nxt ?src i = (src, Inr r)" "limit src = limit ?src"
    "examined src + cost src i \<le> examined ?src + cost ?src i" "\<forall>j < ?n. j \<noteq> i \<longrightarrow> cost src j = cost ?src j"
    using nxt_budget [OF s(1) _ c] i s(2) by auto
  have "(\<Sum>j \<in> {..<?n} - {i}. cost src j) = (\<Sum>j \<in> {..<?n} - {i}. cost ?src j)" using n(4) by (intro sum.cong) auto
  then have total: "examined src + (\<Sum>j < ?n. cost src j) \<le> min (limit src) (StreamMaxExamined s)"
    using a n(2,3) by (simp add: affordable_def split)
  have "0 \<le> (\<Sum>j < ?n. cost src j)" by (rule sum_nonneg) (rule cost_nonneg)
  then have ex: "\<not> examined src > StreamMaxExamined s" using total by simp
  have res: "\<forall>j < ?n. j \<noteq> i \<longrightarrow> pending src j = pending ?src j"
    "case r of None \<Rightarrow> pending ?src i = [] \<and> pending src i = [] | Some x \<Rightarrow> pending ?src i = x # pending src i"
    using nxt_result [OF s(1) _ n(1)] i s(2) by simp_all
  have "set (pending src j) \<subseteq> set (pending ?src j)" if "j < ?n" for j
    using res that by (cases "j = i") (auto split: option.splits)
  then have pos: "\<forall>j < ?n. \<forall>x \<in> set (pending src j). \<exists>p. position (StreamMeta s) (OrderKey x) = Inr p"
    using a unfolding affordable_def by (meson subsetD)
  obtain h where "stream_advance nxt examined False i s = (s\<lparr>StreamSource := src, StreamHeads := (StreamHeads s)[i := h]\<rparr>, Inr ())"
  proof (cases r)
    case None
    then show thesis using that n(1) ex by (simp add: stream_advance_def)
  next
    case (Some x)
    then have "x \<in> set (pending ?src i)" using res(2) by simp
    then obtain p where "position (StreamMeta s) (OrderKey x) = Inr p" using a i by (auto simp: affordable_def)
    then show thesis using that n(1) ex Some by (simp add: stream_advance_def)
  qed
  moreover have "affordable (push_head i (s\<lparr>StreamSource := src, StreamHeads := (StreamHeads s)[i := h]\<rparr>))"
    using total pos i by (cases h) (simp_all add: push_head_def affordable_def)
  ultimately show ?thesis by blast
qed

lemma start_loop_succeeds:
  assumes "affordable s" and "stream_ok {} s" and "\<forall>i \<in> set is. i < length (StreamHeads s) \<and> StreamHeads s ! i = None"
    and "distinct is"
  shows "\<exists>s'. start_loop nxt examined False is s = (s', Inr ()) \<and> affordable s'"
  using assms
proof (induction "is" arbitrary: s)
  case (Cons i "is")
  have i: "i < length (StreamHeads s)" "StreamHeads s ! i = None" using Cons.prems(3) by simp_all
  obtain s1 where a: "stream_advance nxt examined False i s = (s1, Inr ())" "affordable (push_head i s1)"
    using advance_succeeds [OF Cons.prems(1) _ _ i(1)] Cons.prems(2) by (auto simp: stream_ok_def)
  have "{g. \<exists>j < length (StreamHeads s). j \<notin> {i} \<and> StreamHeads s ! j = Some g} =
      {g. \<exists>j < length (StreamHeads s). j \<notin> {} \<and> StreamHeads s ! j = Some g}" using i by force
  then have "stream_ok {i} s" using Cons.prems(2) unfolding stream_ok_def queue_ok_def by simp
  note f = refill [OF this i(1) a(1)]
  then have len: "length (StreamHeads (push_head i s1)) = length (StreamHeads s)" by (simp add: same_stream_def)
  have none: "\<forall>j \<in> set is. j < length (StreamHeads (push_head i s1)) \<and> StreamHeads (push_head i s1) ! j = None"
    using Cons.prems(3,4) advance_heads [OF a(1)] unfolding len by (metis distinct.simps(2) list.set_intros(2))
  from Cons.IH [OF a(2) _ none] f Cons.prems(4) show ?case by (simp add: a)
qed simp

lemma collect_loop_succeeds:
  assumes "ready s" and "from_position pending (Position g) s" and "affordable s"
    and "\<forall>i \<in> at_position pending (Position g) s. snd (hd (remaining pending s i)) = GroupID g"
    and "card (at_position pending (Position g) s) < fuel"
  shows "\<exists>s' g'. collect_loop nxt examined False fuel g s = (s', Inr g') \<and> affordable s'"
  using assms
proof (induction fuel arbitrary: g s)
  case (Suc n)
  let ?p = "Position g"
  show ?case
  proof (cases "StreamQueue s = [] \<or> Position (hd (StreamQueue s)) \<noteq> ?p")
    case False
    then have ne: "StreamQueue s \<noteq> []" and p: "Position (hd (StreamQueue s)) = ?p" by simp_all
    obtain head queue where pop: "heap_pop heap_Less (StreamQueue s) = (head, queue)" by fastforce
    define i where "i = hd (GroupBranches head)"
    let ?g = "g\<lparr>GroupBranches := GroupBranches g @ [i]\<rparr>" and ?s = "s\<lparr>StreamQueue := queue\<rparr>"
    have ok: "stream_ok {} s" using Suc.prems(1) by (simp add: ready_def)
    obtain j where j: "head = hd (StreamQueue s)" "j < length (StreamHeads s)" "StreamHeads s ! j = Some head"
      "GroupBranches head = [j]" "queue_ok {j} ?s" by (rule queue_pop [OF _ ne pop]) (use ok in \<open>simp add: stream_ok_def\<close>)
    have "affordable ?s" using Suc.prems(3) by (simp add: affordable_def)
    from advance_succeeds [OF this, of i] obtain s1
      where a: "stream_advance nxt examined False i ?s = (s1, Inr ())" "affordable (push_head i s1)"
      using ok j by (auto simp: stream_ok_def i_def)
    have st: "ready (push_head i s1) \<and> from_position pending ?p (push_head i s1) \<and> same_stream s (push_head i s1) \<and>
      i \<in> at_position pending ?p s \<and> GroupID head = snd (hd (remaining pending s i)) \<and>
      at_position pending ?p (push_head i s1) = at_position pending ?p s - {i} \<and>
      remaining pending (push_head i s1) i = tl (remaining pending s i) \<and>
      (\<forall>j < length (StreamHeads s). j \<noteq> i \<longrightarrow> remaining pending (push_head i s1) j = remaining pending s j)"
      by (rule collect_step [where examined = examined, OF Suc.prems(1,2) ne p pop _ _ i_def]) (simp_all add: i_def [symmetric] a)
    have "finite (at_position pending ?p s)" by (simp add: at_position_def)
    then have card: "card (at_position pending ?p s - {i}) < n" using st Suc.prems(5) card_Diff1_less [of _ i] by fastforce
    have ids: "snd (hd (remaining pending (push_head i s1) k)) = GroupID g" if "k \<in> at_position pending ?p s - {i}" for k
      using st Suc.prems(4) that by (auto simp: at_position_def)
    have id: "GroupID head = GroupID g" using st Suc.prems(4) by simp
    have "\<exists>s' g'. collect_loop nxt examined False n ?g (push_head i s1) = (s', Inr g') \<and> affordable s'"
      using Suc.IH [of "push_head i s1" ?g] st a(2) card ids by simp
    then show ?thesis using False id by (simp add: pop Let_def i_def [symmetric] a(1))
  qed (use Suc.prems(3) in auto)
qed simp

end

context budgeted_source
begin

lemma stream_Next_succeeds:
  assumes o: "open_stream s" and a: "affordable s" and one: "one_document (entries pending s)"
    and fuel: "length (StreamHeads s) < fuel"
  shows "\<exists>s' res. stream_Next nxt examined False fuel s = (s', Inr res) \<and> affordable s'"
proof -
  let ?s = "s\<lparr>StreamStarted := True\<rparr>"
  have "\<exists>s1. (if StreamStarted s then (s, Inr ()) else start_loop nxt examined False [0..<length (StreamHeads s)] ?s) =
      (s1, Inr ()) \<and> affordable s1"
  proof (cases "StreamStarted s")
    case False
    have "affordable ?s" "stream_ok {} ?s" "\<forall>i \<in> set [0..<length (StreamHeads s)]. i < length (StreamHeads ?s) \<and> StreamHeads ?s ! i = None"
      using a o False by (auto simp: affordable_def open_stream_def stream_ok_def queue_ok_def)
    from start_loop_succeeds [OF this] False show ?thesis by simp
  qed (use a in simp)
  then obtain s1 where s1: "(if StreamStarted s then (s, Inr ()) else
      start_loop nxt examined False [0..<length (StreamHeads s)] ?s) = (s1, Inr ())" "affordable s1" by blast
  note st = started_stream [OF o s1(1)]
  then have len: "length (StreamHeads s1) = length (StreamHeads s)" by (simp add: same_stream_def)
  then have ent: "entries pending s1 = entries pending s" using st by (simp add: entries_def)
  have "\<forall>i < length (StreamHeads s1). sorted_wrt (<) (map fst (remaining pending s1 i))"
    using st by (simp add: open_stream_def)
  note head = queue_head [OF conjunct1 [OF st] this]
  have closed: "\<not> StreamClosed s" using o by (simp add: open_stream_def)
  show ?thesis
  proof (cases "StreamQueue s1")
    case Nil
    then show ?thesis using s1 closed by (simp add: stream_Next_def)
  next
    case (Cons lead rest)
    let ?g = "\<lparr>GroupID = GroupID lead, Position = Position lead, GroupBranches = []\<rparr>"
    have f: "from_position pending (Position ?g) s1" "(Position ?g, GroupID ?g) \<in> entries pending s" using head Cons ent by simp_all
    have "\<forall>i \<in> at_position pending (Position ?g) s1. snd (hd (remaining pending s1 i)) = GroupID ?g"
    proof
      fix i assume "i \<in> at_position pending (Position ?g) s1"
      then have "hd (remaining pending s1 i) \<in> entries pending s1" "fst (hd (remaining pending s1 i)) = Position ?g"
        by (auto simp: at_position_def entries_def intro!: bexI [of _ i])
      then show "snd (hd (remaining pending s1 i)) = GroupID ?g"
        using one f(2) unfolding ent one_document_def by fastforce
    qed
    moreover have "at_position pending (Position ?g) s1 \<subseteq> {..<length (StreamHeads s)}" by (auto simp: at_position_def len)
    then have "card (at_position pending (Position ?g) s1) \<le> card {..<length (StreamHeads s)}" by (intro card_mono) simp_all
    then have "card (at_position pending (Position ?g) s1) < fuel" using fuel by simp
    ultimately obtain s' g' where "collect_loop nxt examined False fuel ?g s1 = (s', Inr g')" "affordable s'"
      using collect_loop_succeeds [OF conjunct1 [OF st] f(1) s1(2)] by blast
    then show ?thesis using s1(1) closed Cons by (simp add: stream_Next_def)
  qed
qed

lemma stream_drain_exact:
  assumes "open_stream s" and "affordable s" and "one_document (entries pending s)"
    and "length (StreamHeads s) < fuel" and "card (entries pending s) < n"
  shows "\<exists>gs. stream_drain nxt examined fuel n s = Inr gs \<and> sorted_wrt (<) (map Position gs) \<and>
    set (map (\<lambda>g. (Position g, GroupID g)) gs) = entries pending s"
  using assms
proof (induction n arbitrary: s)
  case (Suc n)
  obtain s' res where st: "stream_Next nxt examined False fuel s = (s', Inr res)" "affordable s'"
    using stream_Next_succeeds [OF Suc.prems(1-4)] by blast
  note r = stream_Next_result [OF Suc.prems(1) st(1)]
  show ?case
  proof (cases res)
    case None
    then show ?thesis using r st(1) by (intro exI [of _ "[]"]) simp
  next
    case (Some g)
    let ?e = "(Position g, GroupID g)"
    have g: "open_stream s'" "?e \<in> entries pending s" "entries pending s' = entries pending s - {?e}"
      and least: "\<forall>e \<in> entries pending s. Position g \<le> fst e \<and> (fst e = Position g \<longrightarrow> snd e = GroupID g)"
      using r Some by simp_all
    have "finite (entries pending s)" by (simp add: entries_def)
    then have "card (entries pending s') < n" using g(2,3) Suc.prems(5) card_Diff1_less [of "entries pending s" ?e] by simp
    moreover have "one_document (entries pending s')" using one_document_subset [OF Suc.prems(3)] g(3) by blast
    moreover have "length (StreamHeads s') = length (StreamHeads s)" using r by simp
    ultimately obtain gs where gs: "stream_drain nxt examined fuel n s' = Inr gs" "sorted_wrt (<) (map Position gs)"
      "set (map (\<lambda>g. (Position g, GroupID g)) gs) = entries pending s'"
      using Suc.IH [OF g(1) st(2)] Suc.prems(4) by auto
    have "Position g < Position h" if "h \<in> set gs" for h
    proof -
      have "(Position h, GroupID h) \<in> set (map (\<lambda>g. (Position g, GroupID g)) gs)" using that by simp
      then have "(Position h, GroupID h) \<in> entries pending s" "(Position h, GroupID h) \<noteq> ?e" unfolding gs(3) g(3) by simp_all
      then show ?thesis using least by fastforce
    qed
    then have "sorted_wrt (<) (map Position (g # gs))" using gs(2) by simp
    moreover have "set (map (\<lambda>g. (Position g, GroupID g)) (g # gs)) = entries pending s" using gs(3) g(2,3) by auto
    moreover have "stream_drain nxt examined fuel (Suc n) s = Inr (g # gs)" using st(1) Some gs(1) by simp
    ultimately show ?thesis by blast
  qed
qed simp

end

context ordered_source
begin

lemma stream_Next_fuel:
  assumes o: "open_stream s" and fuel: "length (StreamHeads s) < fuel"
  shows "snd (stream_Next nxt examined False fuel s) \<noteq> Inl None"
proof -
  have closed: "\<not> StreamClosed s" using o by (simp add: open_stream_def)
  obtain s1 r where r: "(if StreamStarted s then (s, Inr ())
      else start_loop nxt examined False [0..<length (StreamHeads s)] (s\<lparr>StreamStarted := True\<rparr>)) = (s1, r)" by fastforce
  show ?thesis
  proof (cases r)
    case (Inl e)
    then show ?thesis using r closed by (simp add: stream_Next_def)
  next
    case (Inr u)
    then have "r = Inr ()" by simp
    note st = started_stream [OF o r [unfolded this]]
    then have len: "length (StreamHeads s1) = length (StreamHeads s)" by (simp add: same_stream_def)
    have "\<forall>i < length (StreamHeads s1). sorted_wrt (<) (map fst (remaining pending s1 i))"
      using st by (simp add: open_stream_def)
    note head = queue_head [OF conjunct1 [OF st] this]
    show ?thesis
    proof (cases "StreamQueue s1")
      case Nil
      then show ?thesis using r Inr closed by (simp add: stream_Next_def)
    next
      case (Cons lead rest)
      let ?g = "\<lparr>GroupID = GroupID lead, Position = Position lead, GroupBranches = []\<rparr>"
      have f: "from_position pending (Position ?g) s1" using head Cons by simp
      have "at_position pending (Position ?g) s1 \<subseteq> {..<length (StreamHeads s)}" by (auto simp: at_position_def len)
      then have "card (at_position pending (Position ?g) s1) \<le> card {..<length (StreamHeads s)}" by (intro card_mono) simp_all
      then have "card (at_position pending (Position ?g) s1) < fuel" using fuel by simp
      note q = collect_loop_fuel [OF conjunct1 [OF st] f this, of examined]
      obtain s2 q where c: "collect_loop nxt examined False fuel ?g s1 = (s2, q)" by fastforce
      then have "q \<noteq> Inl None" using q by simp
      then show ?thesis using r Inr closed Cons c by (cases q) (simp_all add: stream_Next_def)
    qed
  qed
qed

end

end
