(* ===== verification/Scans.thy ===== *)
theory Scans
  imports Merging
begin

text \<open>
  Candidate scans end to end: what \<^verbatim>\<open>OpenCandidates\<close> of \<^verbatim>\<open>internal/indexer/manager/candidates.go\<close> opens
  over the in-memory store, and what reading the stream returns.  The exactness of compiled plans and of resumed
  scans, the order of positions, the merge and the iterators meet here.
\<close>


section \<open>Keys, positions and document IDs\<close>

lemma meta_generation [simp]:
  "position (m\<lparr>MetaGeneration := g\<rparr>) k = position m k"
  "PostingKey (m\<lparr>MetaGeneration := g\<rparr>) gr b = PostingKey m gr b"
  "scanOptions (m\<lparr>MetaGeneration := g\<rparr>) n pos = scanOptions m n pos"
proof -
  have part: "position_part (m\<lparr>MetaGeneration := g\<rparr>) = position_part m"
    by (intro ext) (auto simp: position_part_def split: option.split)
  have sel: "MetaTemplate (m\<lparr>MetaGeneration := g\<rparr>) = MetaTemplate m" "Branches (m\<lparr>MetaGeneration := g\<rparr>) = Branches m"
    "EffectiveOrder (m\<lparr>MetaGeneration := g\<rparr>) = EffectiveOrder m" by simp_all
  show "position (m\<lparr>MetaGeneration := g\<rparr>) k = position m k" unfolding position_def part sel ..
  have key: "PostingKey (m\<lparr>MetaGeneration := g\<rparr>) gr b = PostingKey m gr b" for gr b unfolding PostingKey_def sel ..
  show "PostingKey (m\<lparr>MetaGeneration := g\<rparr>) gr b = PostingKey m gr b" by (rule key)
  show "scanOptions (m\<lparr>MetaGeneration := g\<rparr>) n pos = scanOptions m n pos" unfolding scanOptions_def key sel ..
qed

lemma last_id:
  assumes "list_all encodable (fs @ [id_field i])" and "list_all encodable (fs' @ [id_field i'])"
    and "tuple_key (fs @ [id_field i]) = tuple_key (fs' @ [id_field i'])"
  shows "i = i'"
proof -
  obtain raw raw' where raw: "field_raw (id_field i) = Inr raw" "field_raw (id_field i') = Inr raw'"
    using assms(1,2) by (auto elim!: encodableE)
  have "raw = raw'"
    using last_component_fields [OF assms(1) raw(1), of False "[]"] last_component_fields [OF assms(2) raw(2), of False "[]"]
      assms(3) by (simp add: tuple_key_def)
  moreover have "raw = 0x50 # bytes_of i" "raw' = 0x50 # bytes_of i'"
    using raw by (auto simp: field_raw_def id_field_def ScalarKey_def result_simps split: if_splits)
  ultimately show ?thesis using bytes_of_inject by blast
qed

lemma index_key_id: "index_tuple t gs i \<Longrightarrow> index_tuple t gs' i' \<Longrightarrow> index_key gs i = index_key gs' i' \<Longrightarrow> i = i'"
  using last_id index_tuple_encodable unfolding index_key_def by blast

lemma order_fields_encodable:
  assumes "meta_ok m k" and gs: "index_tuple (MetaTemplate m) gs i"
  shows "list_all encodable (order_fields m gs i @ [id_field i])"
proof -
  have t: "distinct (map FieldName (Fields (MetaTemplate m)))" using assms(1) by (simp add: meta_ok_def)
  show ?thesis
    using meta_ok_found [OF assms(1)] component_alike [OF t _ gs] gs
    by (auto simp: order_fields_def list_all_iff index_tuple_def)
qed

lemma position_id:
  assumes "meta_ok m k" and "index_tuple (MetaTemplate m) gs i" "index_tuple (MetaTemplate m) gs' i'"
    and "position m (index_key gs i) = Inr p" "position m (index_key gs' i') = Inr p"
  shows "i = i'"
  using position_fields [OF assms(1,2,4)] position_fields [OF assms(1,3,5)]
    last_id [OF order_fields_encodable [OF assms(1,2)] order_fields_encodable [OF assms(1,3)]] by simp

lemma position_nonempty: "position m k = Inr p \<Longrightarrow> [] < p"
  by (auto simp: position_def Let_def result_simps split: sum.splits if_splits)

lemma scan_from_start:
  "scanOptions m n [] = Inr opts \<Longrightarrow> scan_admits opts k \<longleftrightarrow> in_branch k (Branches m ! n)"
  by (auto simp: scanOptions_def scan_admits_def in_branch_def within_def Let_def split: option.splits if_splits)

section \<open>The stream a scan opens\<close>

text \<open>The postings of a partition are keys of tuples of the template, and the cursor is a position of one.\<close>

definition postings_for :: "template \<Rightarrow> btree_item set \<Rightarrow> bool" where
  "postings_for t ps \<longleftrightarrow> (\<forall>i \<in> ps. \<exists>gs. index_tuple t gs (snd i) \<and> fst i = index_key gs (snd i))"

definition cursor_for :: "candidate_metadata \<Rightarrow> bytes \<Rightarrow> bool" where
  "cursor_for m pos \<longleftrightarrow> pos = [] \<or> (\<exists>gs i. index_tuple (MetaTemplate m) gs i \<and> position m (index_key gs i) = Inr pos)"

text \<open>The entries a scan has to return.\<close>

definition matching :: "candidate_metadata \<Rightarrow> filters \<Rightarrow> bytes \<Rightarrow> btree_item set \<Rightarrow> (bytes \<times> string) set" where
  "matching m filters pos ps = {(p, d). \<exists>gs. index_tuple (MetaTemplate m) gs d \<and> (index_key gs d, d) \<in> ps \<and>
     position m (index_key gs d) = Inr p \<and> pos < p \<and>
     (\<forall>i < length filters. Access (Assignments m ! i) \<longrightarrow> predicate_holds (Fields (MetaTemplate m)) gs (filters ! i))}"

lemma scan_admits_exact:
  assumes t: "ValidateTemplate t = Inr ()" and fs: "candidateFilters pfs = Inr filters"
    and d: "distinct (map OrdField requested)"
    and c: "compileCandidate hash digest t filters requested = Inr (m, access)"
    and cur: "cursor_for m pos" and gs: "index_tuple t gs i" and n: "n < length (Branches m)"
    and p: "position m (index_key gs i) = Inr p" and opts: "scanOptions m n pos = Inr opts"
  shows "scan_admits opts (index_key gs i) \<longleftrightarrow> in_branch (index_key gs i) (Branches m ! n) \<and> pos < p"
proof (cases "pos = []")
  case True
  then show ?thesis using scan_from_start [of m n opts] opts position_nonempty [OF p] by simp
next
  case False
  have "MetaTemplate m = t" using compile_meta [OF t fs c] by metis
  then obtain gs' i' where "index_tuple t gs' i'" "position m (index_key gs' i') = Inr pos"
    using cur False by (auto simp: cursor_for_def)
  then show ?thesis using scan_resumes [OF t fs d c gs _ n p _ opts] by blast
qed

lemma scanOptions_limit: "scanOptions m n pos = Inr opts \<Longrightarrow> Limit opts = 0"
  by (auto simp: scanOptions_def Let_def result_simps split: if_splits sum.splits option.splits)

lemma open_scans_nth:
  "open_scans False m pos v is = Inr its \<Longrightarrow> length its = length is \<and>
     (\<forall>j < length is. \<exists>opts. scanOptions m (is ! j) pos = Inr opts \<and>
        its ! j = \<lparr>it_opts = opts, it_last = None, it_closed = False, it_count = 0, it_examined = 0\<rparr>)"
proof (induction "is" arbitrary: its)
  case (Cons i "is")
  then obtain opts it rest where i: "scanOptions m i pos = Inr opts" "Scan False opts v = Inr it"
    "open_scans False m pos v is = Inr rest" "its = it # rest"
    by (auto simp: result_simps split: sum.splits)
  have "it = \<lparr>it_opts = opts, it_last = None, it_closed = False, it_count = 0, it_examined = 0\<rparr>"
    using i(2) by (simp add: Scan_def split: if_splits)
  then show ?case using Cons.IH [OF i(3)] i(1,4) by (auto simp: nth_Cons split: nat.split)
qed simp

definition choice_from ::
  "(fingerprint_payload \<Rightarrow> string) \<Rightarrow> digest \<Rightarrow> plan \<Rightarrow> filters \<Rightarrow> match_result set \<Rightarrow> candidate_choice \<Rightarrow> bool" where
  "choice_from hash digest plan filters matches c \<longleftrightarrow> (\<exists>match \<in> matches. let t = MatchTemplate match in
     compileCandidate hash digest t filters (OrderBy plan) = Inr (ChoiceMeta c, ChoiceScore c) \<and>
     ChoicePattern c = Score match \<and> (PlanShowDeleted plan \<longrightarrow> IncludeDeleted t) \<and>
     (PlanFingerprint plan = '''' \<or> PlanFingerprint plan = Fingerprint hash t))"

lemma choose_template_from:
  assumes "choose_template hash digest plan filters matches = (Some best, e)"
  shows "choice_from hash digest plan filters (set matches) best"
proof -
  have "fst (fold (choose_step hash digest plan filters) ms acc) = Some best \<Longrightarrow>
      (\<forall>c. fst acc = Some c \<longrightarrow> choice_from hash digest plan filters M c) \<Longrightarrow> set ms \<subseteq> M \<Longrightarrow>
      choice_from hash digest plan filters M best" for ms acc M
  proof (induction ms arbitrary: acc)
    case (Cons m ms)
    have "\<forall>c. fst (choose_step hash digest plan filters m acc) = Some c \<longrightarrow> choice_from hash digest plan filters M c"
      using Cons.prems(2,3)
      by (auto simp: choose_step_def choice_from_def Let_def split: if_splits sum.splits option.splits prod.splits)
    then show ?case using Cons.IH Cons.prems by simp
  qed simp
  from this [of matches "(None, None)" "set matches"] assms show ?thesis by (simp add: choose_template_def)
qed

lemma MatchTemplates_from: "m \<in> set (MatchTemplates path ts) \<Longrightarrow> MatchTemplate m \<in> set ts"
  using priority.sort_slice_correct
    [of "map pattern_result (filter (\<lambda>t. pattern_matches path (CollectionPattern t)) ts)", THEN conjunct1, THEN mset_eq_setD]
  by (auto simp: MatchTemplates_alt pattern_result_def)

lemma check_order_distinct: "check_order seen os \<Longrightarrow> distinct (map OrdField os) \<and> set (map OrdField os) \<inter> set seen = {}"
  by (induction os arbitrary: seen) fastforce+

definition plan_templates :: "string \<Rightarrow> 't manager \<Rightarrow> template list" where
  "plan_templates db m = (if DbTemplates m \<noteq> [] then TemplatesForDatabase db m else MgrTemplates m)"

definition scan_ref :: "string \<Rightarrow> plan \<Rightarrow> candidate_metadata \<Rightarrow> query_index_ref" where
  "scan_ref db plan m = \<lparr>RefDatabase = db, RefCollection = PlanCollection plan,
     TemplateFingerprint = MetaFingerprint m, RefGeneration = MetaGeneration m\<rparr>"

lemma OpenCandidatesE:
  assumes "OpenCandidates ops hash digest cancelled db plan m = Inr st"
  obtains filters best e gen md where "candidateFilters (PlanFilters plan) = Inr filters"
    "check_order [] (OrderBy plan)"
    "choose_template hash digest plan filters (MatchTemplates (PlanCollection plan) (plan_templates db m)) = (Some best, e)"
    "AfterPosition plan = [] \<or> check_position (ChoiceMeta best) (AfterPosition plan)"
    "ReadGeneration db (PlanCollection plan) (MetaFingerprint (ChoiceMeta best)) (MgrStore m) = Some gen"
    "Ready gen" "Failure gen = ''''" "PlanGeneration plan = '''' \<or> PlanGeneration plan = GenID gen"
    "md = (ChoiceMeta best)\<lparr>MetaGeneration := GenID gen\<rparr>" "PlanBranchHash plan = '''' \<or> PlanBranchHash plan = BranchHash md"
    "StreamMeta st = md" "StreamMaxExamined st = (if PlanMaxExamined plan = 0 then 100000 else PlanMaxExamined plan)"
    "StreamQueue st = []" "\<not> StreamStarted st" "\<not> StreamClosed st" "StreamHeads st = replicate (length (Branches md)) None"
    "Branches md = [] \<longrightarrow> StreamSource st = (None, [])"
    "Branches md \<noteq> [] \<longrightarrow> (\<exists>v its. StreamSource st = (Some v, its) \<and>
       ReadView ops cancelled (scan_ref db plan md)
         \<lparr>MaxOverlayReplacements = 0, MaxOverlayBytes = 0, MaxExamined = StreamMaxExamined st\<rparr> (MgrStore m) = Inr v \<and>
       open_scans cancelled md (AfterPosition plan) v [0..<length (Branches md)] = Inr its)"
    "\<not> cancelled" "PlanMaxExamined plan \<ge> 0"
proof -
  obtain filters where f: "candidateFilters (PlanFilters plan) = Inr filters"
    and g: "\<not> cancelled" "PlanMaxExamined plan \<ge> 0" "check_order [] (OrderBy plan)"
    using assms by (cases "candidateFilters (PlanFilters plan)") (auto simp: OpenCandidates_def split: if_splits)
  obtain best e where c: "choose_template hash digest plan filters
      (MatchTemplates (PlanCollection plan) (plan_templates db m)) = (Some best, e)"
    using assms f g by (cases "choose_template hash digest plan filters
      (MatchTemplates (PlanCollection plan) (plan_templates db m))" rule: prod.exhaust)
      (auto simp: OpenCandidates_def plan_templates_def Let_def split: if_splits option.splits)
  obtain gen where gen: "ReadGeneration db (PlanCollection plan) (MetaFingerprint (ChoiceMeta best)) (MgrStore m) = Some gen"
    using assms f g c by (auto simp: OpenCandidates_def plan_templates_def Let_def split: if_splits option.splits)
  let ?md = "(ChoiceMeta best)\<lparr>MetaGeneration := GenID gen\<rparr>"
  have r: "Ready gen" "Failure gen = ''''" "PlanGeneration plan = '''' \<or> PlanGeneration plan = GenID gen"
    "PlanBranchHash plan = '''' \<or> PlanBranchHash plan = BranchHash ?md"
    "AfterPosition plan = [] \<or> check_position (ChoiceMeta best) (AfterPosition plan)"
    using assms f g c gen by (auto simp: OpenCandidates_def plan_templates_def Let_def split: if_splits)
  let ?limit = "if PlanMaxExamined plan = 0 then 100000 else PlanMaxExamined plan"
  let ?st = "\<lparr>StreamMeta = ?md, StreamSource = (None, []), StreamHeads = [], StreamQueue = [],
    StreamStarted = False, StreamClosed = False, StreamMaxExamined = ?limit\<rparr>"
  let ?view = "ReadView ops False (scan_ref db plan ?md)
    \<lparr>MaxOverlayReplacements = 0, MaxOverlayBytes = 0, MaxExamined = ?limit\<rparr> (MgrStore m)"
  show thesis
  proof (cases "Branches ?md = []")
    case True
    then have "st = ?st"
      using assms f g c gen r by (auto simp: OpenCandidates_def plan_templates_def Let_def split: if_splits)
    then show thesis by (intro that [OF f g(3) c r(5) gen r(1-3) refl r(4)]) (use True g in simp_all)
  next
    case False
    then have "(case ?view of Inl e \<Rightarrow> Inl (PlanStoreError e)
       | Inr v \<Rightarrow> bind_result (open_scans False ?md (AfterPosition plan) v [0..<length (Branches ?md)]) (\<lambda>its.
           Inr (?st\<lparr>StreamSource := (Some v, its), StreamHeads := replicate (length (Branches ?md)) None\<rparr>))) = Inr st"
      using assms f g c gen r by (auto simp: OpenCandidates_def plan_templates_def scan_ref_def Let_def split: if_splits)
    then obtain v its where "?view = Inr v" "open_scans False ?md (AfterPosition plan) v [0..<length (Branches ?md)] = Inr its"
      "st = ?st\<lparr>StreamSource := (Some v, its), StreamHeads := replicate (length (Branches ?md)) None\<rparr>"
      by (auto simp: result_simps split: sum.splits)
    then show thesis by (intro that [OF f g(3) c r(5) gen r(1-3) refl r(4)]) (use False g in simp_all)
  qed
qed

lemma in_bounds_admits: "in_bounds opts i = scan_admits opts (fst i)"
  by (simp add: in_bounds_def scan_admits_def)

lemma fresh_pending:
  assumes "StreamSource st = (Some v, its)" and "n < length its"
    and "its ! n = \<lparr>it_opts = opts, it_last = None, it_closed = False, it_count = 0, it_examined = 0\<rparr>"
  shows "mem_pending ops (StreamSource st) n =
      map ref_of_item (filter (\<lambda>i. scan_admits opts (fst i)) (tree_ascend ops least_item (view_tree v)))"
    and "mem_cost ops (StreamSource st) n = int (length (to_examine opts None (tree_ascend ops (start_item opts None) (view_tree v))))"
  using assms by (simp_all add: mem_pending_def mem_cost_def it_left_def it_cost_def beyond_def in_bounds_admits)

lemma entry_item: "position m (fst i) = Inr p \<Longrightarrow> entry m (ref_of_item i) = (p, snd i)"
  by (simp add: entry_def ref_of_item_def)

lemma branch_positions_sorted:
  assumes t: "ValidateTemplate t = Inr ()" and fs: "candidateFilters pfs = Inr filters"
    and c: "compileCandidate hash digest t filters requested = Inr (m, access)"
    and b: "b \<in> set (Branches m)" and L: "sorted_wrt (<) L" "postings_for t (set L)"
    and pos: "\<forall>i \<in> set L. \<exists>p. position m (fst i) = Inr p" and at: "\<forall>i \<in> set L. in_branch (fst i) b"
  shows "sorted_wrt (<) (map fst (map (entry m) (map ref_of_item L)))"
  unfolding map_map sorted_wrt_map
proof (rule sorted_wrt_mono_rel [OF _ L(1)])
  fix i j assume i: "i \<in> set L" and j: "j \<in> set L" and less: "i < j"
  obtain gs gs' where gs: "index_tuple t gs (snd i)" "fst i = index_key gs (snd i)"
      "index_tuple t gs' (snd j)" "fst j = index_key gs' (snd j)"
    using L(2) i j unfolding postings_for_def by blast
  obtain p p' where p: "position m (fst i) = Inr p" "position m (fst j) = Inr p'" using pos i j by blast
  have "bytes_compare p p' = bytes_compare (fst i) (fst j)"
    using positions_agree [OF t fs c gs(1,3) b, folded gs(2,4)] bspec [OF at i] bspec [OF at j] p by blast
  moreover have "fst i < fst j"
    using less index_key_id [OF gs(1,3)] gs(2,4) by (auto simp: less_prod_def' split: prod.splits)
  ultimately have "p < p'" by (metis compare_sign(1))
  then show "(fst \<circ> (entry m \<circ> ref_of_item)) i < (fst \<circ> (entry m \<circ> ref_of_item)) j"
    using entry_item [OF p(1)] entry_item [OF p(2)] by simp
qed

text \<open>What opening a scan establishes: a plan compiled for one of the templates and fresh iterators over its branches.\<close>

definition fresh_source ::
  "'t btree \<Rightarrow> query_index_ref \<Rightarrow> 't mem_store \<Rightarrow> candidate_metadata \<Rightarrow> bytes \<Rightarrow> int \<Rightarrow> 't mem_source \<Rightarrow> bool" where
  "fresh_source ops ref store m pos limit src \<longleftrightarrow> (case fst src of
     None \<Rightarrow> Branches m = [] \<and> snd src = []
   | Some v \<Rightarrow> length (snd src) = length (Branches m) \<and> \<not> view_closed v \<and> view_examined v = 0 \<and>
       view_maxExamined v = limit \<and> view_tree v = pi_tree (partition_of ops ref store) \<and>
       (\<forall>n < length (Branches m). \<exists>opts. scanOptions m n pos = Inr opts \<and>
          snd src ! n = \<lparr>it_opts = opts, it_last = None, it_closed = False, it_count = 0, it_examined = 0\<rparr>))"

lemma OpenCandidates_compiled:
  assumes o: "OpenCandidates ops hash digest False db plan m = Inr st"
    and ts: "\<forall>t \<in> set (plan_templates db m). ValidateTemplate t = Inr ()"
    and fs: "candidateFilters (PlanFilters plan) = Inr filters"
  obtains t mb access g where "ValidateTemplate t = Inr ()" "distinct (map OrdField (OrderBy plan))"
    "compileCandidate hash digest t filters (OrderBy plan) = Inr (mb, access)" "StreamMeta st = mb\<lparr>MetaGeneration := g\<rparr>"
    "StreamQueue st = []" "\<not> StreamStarted st" "\<not> StreamClosed st" "StreamHeads st = replicate (length (Branches mb)) None"
    "0 < StreamMaxExamined st"
    "fresh_source ops (scan_ref db plan (StreamMeta st)) (MgrStore m) mb (AfterPosition plan) (StreamMaxExamined st) (StreamSource st)"
  using o
proof (cases rule: OpenCandidatesE)
  case (1 filters' best e gen md)
  then have [simp]: "filters' = filters" using fs by simp
  obtain t where t: "t \<in> set (plan_templates db m)"
    "compileCandidate hash digest t filters (OrderBy plan) = Inr (ChoiceMeta best, ChoiceScore best)"
    using choose_template_from [OF 1(3)] MatchTemplates_from unfolding choice_from_def Let_def by auto
  have limit: "0 < StreamMaxExamined st" using 1(12,20) by simp
  have br: "Branches md = Branches (ChoiceMeta best)" using 1(9) by simp
  have "fresh_source ops (scan_ref db plan (StreamMeta st)) (MgrStore m) (ChoiceMeta best) (AfterPosition plan)
      (StreamMaxExamined st) (StreamSource st)"
  proof (cases "Branches md = []")
    case True
    then show ?thesis using 1(17) br by (simp add: fresh_source_def)
  next
    case False
    then obtain v its where v: "StreamSource st = (Some v, its)"
      "ReadView ops False (scan_ref db plan md)
         \<lparr>MaxOverlayReplacements = 0, MaxOverlayBytes = 0, MaxExamined = StreamMaxExamined st\<rparr> (MgrStore m) = Inr v"
      "open_scans False md (AfterPosition plan) v [0..<length (Branches md)] = Inr its" using 1(18) by blast
    have "\<not> view_closed v \<and> view_examined v = 0 \<and> view_maxExamined v = StreamMaxExamined st \<and>
        view_tree v = pi_tree (partition_of ops (scan_ref db plan (StreamMeta st)) (MgrStore m))"
      using v(2) limit 1(11) by (auto simp: ReadView_def NormalizeReadBudget_def Let_def)
    then show ?thesis using open_scans_nth [OF v(3)] v(1) br 1(9) by (simp add: fresh_source_def)
  qed
  then show thesis
    using that [OF _ _ t(2)] ts t(1) check_order_distinct [OF 1(2)] 1(9,11,13-16) br limit by simp
qed

lemma meta_generation_matching [simp]:
  "matching (m\<lparr>MetaGeneration := g\<rparr>) filters pos ps = matching m filters pos ps"
  "cursor_for (m\<lparr>MetaGeneration := g\<rparr>) pos = cursor_for m pos"
  "entry (m\<lparr>MetaGeneration := g\<rparr>) = entry m"
  by (simp_all add: matching_def cursor_for_def entry_def [abs_def])

text \<open>The entries of the branches of a compiled plan, read from the cursor on, are the matching ones.\<close>

lemma branches_match:
  assumes t: "ValidateTemplate t = Inr ()" and fs: "candidateFilters pfs = Inr filters"
    and d: "distinct (map OrdField requested)"
    and c: "compileCandidate hash digest t filters requested = Inr (m, access)"
    and cur: "cursor_for m pos" and ps: "postings_for t ps" and pos: "\<forall>i \<in> ps. \<exists>p. position m (fst i) = Inr p"
    and opts: "\<forall>n < length (Branches m). scanOptions m n pos = Inr (opts n)"
  shows "(\<Union>n < length (Branches m). (entry m \<circ> ref_of_item) ` {i \<in> ps. scan_admits (opts n) (fst i)}) = matching m filters pos ps"
proof -
  have m: "MetaTemplate m = t" using compile_meta [OF t fs c] by metis
  have adm: "scan_admits (opts n) (index_key gs i) \<longleftrightarrow> in_branch (index_key gs i) (Branches m ! n) \<and> pos < p"
    if "n < length (Branches m)" "index_tuple t gs i" "position m (index_key gs i) = Inr p" for n gs i p
    using scan_admits_exact [OF t fs d c cur that(2,1,3)] opts that(1) by blast
  have ex: "(\<exists>n < length (Branches m). in_branch (index_key gs i) (Branches m ! n)) \<longleftrightarrow>
      (\<forall>j < length filters. Access (Assignments m ! j) \<longrightarrow> predicate_holds (Fields t) gs (filters ! j))"
    if "index_tuple t gs i" for gs i
  proof -
    have "tuple_for (Fields t) gs" using that by (simp add: index_tuple_def)
    from compile_exact [OF ValidateTemplate_distinct [OF t] candidateFilters_normal [OF fs] c this,
        of "field_code (id_field i)", folded index_key_split]
    show ?thesis by (metis in_set_conv_nth)
  qed
  show ?thesis
  proof (intro equalityI subsetI)
    fix e assume "e \<in> (\<Union>n < length (Branches m). (entry m \<circ> ref_of_item) ` {i \<in> ps. scan_admits (opts n) (fst i)})"
    then obtain n i where n: "n < length (Branches m)" "i \<in> ps" "scan_admits (opts n) (fst i)" "e = entry m (ref_of_item i)" by auto
    obtain gs where gs: "index_tuple t gs (snd i)" "fst i = index_key gs (snd i)" using ps n(2) by (auto simp: postings_for_def)
    obtain p where p: "position m (fst i) = Inr p" using pos n(2) by blast
    have "i = (index_key gs (snd i), snd i)" using gs(2) by (metis prod.collapse)
    then show "e \<in> matching m filters pos ps"
      using adm [OF n(1) gs(1)] ex [OF gs(1)] n p gs entry_item [OF p] unfolding matching_def m by auto
  next
    fix e assume "e \<in> matching m filters pos ps"
    then obtain gs p i where e: "e = (p, i)" "index_tuple t gs i" "(index_key gs i, i) \<in> ps"
      "position m (index_key gs i) = Inr p" "pos < p"
      "\<forall>j < length filters. Access (Assignments m ! j) \<longrightarrow> predicate_holds (Fields t) gs (filters ! j)"
      unfolding matching_def m by auto
    then obtain n where n: "n < length (Branches m)" "in_branch (index_key gs i) (Branches m ! n)" using ex [OF e(2)] by blast
    have "e = entry m (ref_of_item (index_key gs i, i))" using e(1,4) by (simp add: entry_item)
    moreover have "scan_admits (opts n) (index_key gs i)" using adm [OF n(1) e(2,4)] n(2) e(5) by blast
    ultimately show "e \<in> (\<Union>n < length (Branches m). (entry m \<circ> ref_of_item) ` {i \<in> ps. scan_admits (opts n) (fst i)})"
      using n(1) e(3) by force
  qed
qed

lemma matching_one_document:
  assumes "ValidateTemplate t = Inr ()" and "candidateFilters pfs = Inr filters"
    and "compileCandidate hash digest t filters requested = Inr (m, access)"
  shows "one_document (matching m filters' pos ps)"
proof -
  obtain k where "meta_ok m k" using compile_meta [OF assms] by metis
  then show ?thesis using position_id unfolding one_document_def matching_def by fastforce
qed

context ordered_tree
begin

lemma to_examine_length:
  "length (to_examine opts lst (tree_ascend ops p t)) \<le> length (tree_ascend ops least_item t)"
  unfolding to_examine_def ascend_filter [of p] by (metis le_trans length_filter_le length_takeWhile_le)

lemma fresh_source_entries:
  assumes f: "fresh_source ops ref store mb pos limit (StreamSource st)" and m: "StreamMeta st = mb\<lparr>MetaGeneration := g\<rparr>"
    and h: "StreamHeads st = replicate (length (Branches mb)) None" and n: "n < length (Branches mb)"
  shows "\<exists>opts L. scanOptions mb n pos = Inr opts \<and> sorted_wrt (<) L \<and> set L = {i \<in> posting_set ops ref store. scan_admits opts (fst i)} \<and>
    mem_pending ops (StreamSource st) n = map ref_of_item L \<and>
    remaining (mem_pending ops) st n = map (entry mb) (map ref_of_item L) \<and>
    mem_cost ops (StreamSource st) n \<le> int (card (posting_set ops ref store))"
proof -
  obtain v its where src: "StreamSource st = (Some v, its)"
    using f n by (cases "StreamSource st"; cases "fst (StreamSource st)") (auto simp: fresh_source_def)
  then obtain opts where v: "length its = length (Branches mb)" "view_tree v = pi_tree (partition_of ops ref store)"
    "scanOptions mb n pos = Inr opts"
    "its ! n = \<lparr>it_opts = opts, it_last = None, it_closed = False, it_count = 0, it_examined = 0\<rparr>"
    using f n by (auto simp: fresh_source_def)
  let ?T = "tree_ascend ops least_item (view_tree v)"
  let ?L = "filter (\<lambda>i. scan_admits opts (fst i)) ?T"
  have T: "sorted_wrt (<) ?T" "set ?T = posting_set ops ref store"
    using list_of_items [of "view_tree v"] by (simp_all add: v(2) posting_set_def)
  have card: "length ?T = card (posting_set ops ref store)" using T distinct_card strict_sorted_iff by metis
  have p: "mem_pending ops (StreamSource st) n = map ref_of_item ?L" using fresh_pending [OF src _ v(4)] v(1) n by simp
  then have "remaining (mem_pending ops) st n = map (entry mb) (map ref_of_item ?L)"
    using h n m by (simp add: remaining_def head_entries_def)
  moreover have "mem_cost ops (StreamSource st) n \<le> int (card (posting_set ops ref store))"
    using fresh_pending(2) [OF src _ v(4)] v(1) n to_examine_length [of opts None "start_item opts None" "view_tree v"] card by simp
  ultimately show ?thesis using v(3) p T by (intro exI [of _ opts] exI [of _ ?L]) (auto simp: sorted_wrt_filter)
qed

lemma opened_stream:
  assumes t: "ValidateTemplate t = Inr ()" and fs: "candidateFilters pfs = Inr filters"
    and d: "distinct (map OrdField requested)" and c: "compileCandidate hash digest t filters requested = Inr (mb, access)"
    and m: "StreamMeta st = mb\<lparr>MetaGeneration := g\<rparr>"
    and st: "StreamQueue st = []" "\<not> StreamStarted st" "\<not> StreamClosed st" "StreamHeads st = replicate (length (Branches mb)) None"
    and limit: "0 < StreamMaxExamined st" and f: "fresh_source ops ref store mb pos (StreamMaxExamined st) (StreamSource st)"
    and P: "P = posting_set ops ref store" "postings_for t P" "\<forall>i \<in> P. \<exists>p. position mb (fst i) = Inr p"
    and cur: "cursor_for mb pos"
  shows "scan.open_stream st \<and> entries (mem_pending ops) st = matching mb filters pos P \<and>
    (int (length (Branches mb) * card P) \<le> StreamMaxExamined st \<longrightarrow> scan.affordable st)"
proof -
  let ?n = "length (Branches mb)"
  have Q: "\<forall>n. \<exists>opts L. n < ?n \<longrightarrow> scanOptions mb n pos = Inr opts \<and> sorted_wrt (<) L \<and> set L = {i \<in> P. scan_admits opts (fst i)} \<and>
    mem_pending ops (StreamSource st) n = map ref_of_item L \<and>
    remaining (mem_pending ops) st n = map (entry mb) (map ref_of_item L) \<and> mem_cost ops (StreamSource st) n \<le> int (card P)"
    using fresh_source_entries [OF f m st(4)] unfolding P(1) by blast
  from choice [OF Q] obtain opts where Q2: "\<forall>n. \<exists>L. n < ?n \<longrightarrow> scanOptions mb n pos = Inr (opts n) \<and> sorted_wrt (<) L \<and>
    set L = {i \<in> P. scan_admits (opts n) (fst i)} \<and> mem_pending ops (StreamSource st) n = map ref_of_item L \<and>
    remaining (mem_pending ops) st n = map (entry mb) (map ref_of_item L) \<and> mem_cost ops (StreamSource st) n \<le> int (card P)" ..
  from choice [OF Q2] obtain L where L: "\<And>n. n < ?n \<Longrightarrow> scanOptions mb n pos = Inr (opts n)" "\<And>n. n < ?n \<Longrightarrow> sorted_wrt (<) (L n)"
    "\<And>n. n < ?n \<Longrightarrow> set (L n) = {i \<in> P. scan_admits (opts n) (fst i)}"
    "\<And>n. n < ?n \<Longrightarrow> mem_pending ops (StreamSource st) n = map ref_of_item (L n)"
    "\<And>n. n < ?n \<Longrightarrow> remaining (mem_pending ops) st n = map (entry mb) (map ref_of_item (L n))"
    "\<And>n. n < ?n \<Longrightarrow> mem_cost ops (StreamSource st) n \<le> int (card P)" by blast
  have heads: "length (StreamHeads st) = ?n" "\<And>n. n < ?n \<Longrightarrow> StreamHeads st ! n = None" by (simp_all add: st(4))
  have in_P: "set (L n) \<subseteq> P" if "n < ?n" for n using L(3) [OF that] by blast
  have sorted: "sorted_wrt (<) (map fst (remaining (mem_pending ops) st n))" if n: "n < ?n" for n
  proof -
    have "in_branch (fst i) (Branches mb ! n)" if i: "i \<in> set (L n)" for i
    proof -
      have "i \<in> P" "scan_admits (opts n) (fst i)" using L(3) [OF n] i by auto
      then obtain gs p where "index_tuple t gs (snd i)" "fst i = index_key gs (snd i)" "position mb (fst i) = Inr p"
        using P(2,3) unfolding postings_for_def by blast
      then show ?thesis using scan_admits_exact [OF t fs d c cur _ n _ L(1) [OF n]] \<open>scan_admits (opts n) (fst i)\<close> by metis
    qed
    moreover have "postings_for t (set (L n))" "\<forall>i \<in> set (L n). \<exists>p. position mb (fst i) = Inr p"
      using in_P [OF n] P(2,3) unfolding postings_for_def by blast+
    ultimately show ?thesis
      unfolding L(5) [OF n] using branch_positions_sorted [OF t fs c nth_mem [OF n] L(2) [OF n]] by blast
  qed
  have ents: "entries (mem_pending ops) st = matching mb filters pos P"
  proof -
    have "entries (mem_pending ops) st = (\<Union>n < ?n. (entry mb \<circ> ref_of_item) ` {i \<in> P. scan_admits (opts n) (fst i)})"
      unfolding entries_def heads(1) by (rule SUP_cong) (simp_all add: L(3) L(5) image_comp [symmetric] image_image)
    then show ?thesis using branches_match [OF t fs d c cur P(2,3), of opts] L(1) by simp
  qed
  have src: "mem_ok (StreamSource st) \<and> mem_width (StreamSource st) = ?n \<and> mem_examined (StreamSource st) = 0 \<and>
      (mem_limit (StreamSource st) = StreamMaxExamined st \<or> ?n = 0 \<and> mem_limit (StreamSource st) = 0)"
  proof (cases "StreamSource st")
    case (Pair view its)
    show ?thesis
    proof (cases view)
      case None
      then show ?thesis using f Pair by (simp add: fresh_source_def mem_ok_def mem_width_def mem_examined_def mem_limit_def)
    next
      case (Some v)
      have its: "length its = ?n" and at: "\<forall>n < ?n. \<exists>opts. scanOptions mb n pos = Inr opts \<and>
          its ! n = \<lparr>it_opts = opts, it_last = None, it_closed = False, it_count = 0, it_examined = 0\<rparr>"
        and v: "\<not> view_closed v" "view_examined v = 0" "view_maxExamined v = StreamMaxExamined st"
        using f Pair Some by (simp_all add: fresh_source_def)
      have each: "it_valid it \<and> it_examined it = 0" if "it \<in> set its" for it
        using that at its scanOptions_limit by (fastforce simp: in_set_conv_nth it_valid_def)
      then have "sum_list (map Examined its) = 0" by (induction its) (simp_all add: Examined_def)
      then show ?thesis using Pair Some its v each
        by (simp add: mem_ok_def mem_width_def mem_examined_def mem_limit_def)
    qed
  qed
  then have "scan.stream_ok {} st" using st(1) heads
    by (auto simp: scan.stream_ok_def queue_ok_def heap_ok_def)
  then have "scan.open_stream st" using st(2,3) heads sorted by (simp add: scan.open_stream_def)
  moreover have "scan.affordable st" if b: "int (?n * card P) \<le> StreamMaxExamined st"
  proof -
    have "(\<Sum>i < ?n. mem_cost ops (StreamSource st) i) \<le> int ?n * int (card P)"
      using sum_bounded_above [of "{..<?n}" "mem_cost ops (StreamSource st)" "int (card P)"] L(6) by simp
    then have "(\<Sum>i < ?n. mem_cost ops (StreamSource st) i) \<le> min (mem_limit (StreamSource st)) (StreamMaxExamined st)"
      using src b limit by auto
    moreover have "\<exists>p. position mb (OrderKey r) = Inr p" if "n < ?n" "r \<in> set (mem_pending ops (StreamSource st) n)" for n r
      using that L(4) [OF that(1)] in_P [OF that(1)] P(3) by (auto simp: ref_of_item_def) (metis fst_conv subsetD)
    ultimately show ?thesis using src by (simp add: scan.affordable_def heads m)
  qed
  ultimately show ?thesis using ents by blast
qed

end

section \<open>Work done by a stream\<close>

text \<open>A property of the source that every advance keeps, failed or not, is kept by every call of the stream.\<close>

lemma advance_source: "(\<And>src i. I src \<Longrightarrow> I (fst (nxt src i))) \<Longrightarrow> I (StreamSource s) \<Longrightarrow>
    I (StreamSource (fst (stream_advance nxt examined cancelled i s)))"
  by (auto simp: stream_advance_def Let_def split: prod.splits sum.splits option.splits) (metis fst_conv)+

lemma push_source [simp]: "StreamSource (push_head i s) = StreamSource s"
  by (simp add: push_head_def split: option.splits)

lemma start_source:
  assumes I: "\<And>src i. I src \<Longrightarrow> I (fst (nxt src i))"
  shows "I (StreamSource s) \<Longrightarrow> I (StreamSource (fst (start_loop nxt examined cancelled is s)))"
proof (induction "is" arbitrary: s)
  case (Cons i "is")
  then show ?case
    using advance_source [where I = I and nxt = nxt, OF I Cons.prems, of examined cancelled i]
    by (auto split: prod.splits sum.splits)
qed simp

lemma collect_source:
  assumes I: "\<And>src i. I src \<Longrightarrow> I (fst (nxt src i))"
  shows "I (StreamSource s) \<Longrightarrow> I (StreamSource (fst (collect_loop nxt examined cancelled fuel g s)))"
proof (induction fuel arbitrary: g s)
  case (Suc n)
  have "I (StreamSource (fst (stream_advance nxt examined cancelled b (s\<lparr>StreamQueue := q\<rparr>))))" for b q
    using advance_source [where I = I and nxt = nxt, OF I, of "s\<lparr>StreamQueue := q\<rparr>" examined cancelled b] Suc.prems by simp
  then show ?case using Suc by (auto simp: Let_def split: prod.splits sum.splits) (metis fst_conv push_source)+
qed simp

lemma Next_source:
  assumes I: "\<And>src i. I src \<Longrightarrow> I (fst (nxt src i))" and s: "I (StreamSource s)"
  shows "I (StreamSource (fst (stream_Next nxt examined cancelled fuel s)))"
proof -
  let ?s = "s\<lparr>StreamStarted := True\<rparr>"
  have "I (StreamSource (fst (start_loop nxt examined cancelled is ?s)))" for "is"
    using start_source [where I = I, OF I] s by simp
  moreover have "I (StreamSource s') \<Longrightarrow> I (StreamSource (fst (collect_loop nxt examined cancelled fuel g s')))" for g s'
    using collect_source [where I = I, OF I] .
  ultimately show ?thesis using s
    by (auto simp: stream_Next_def Let_def split: prod.splits sum.splits list.splits if_splits) (metis fst_conv)+
qed

text \<open>The items an iterator examines are counted by its view, and only while the view is within its limit.\<close>

lemma next_loop_work:
  assumes "next_loop opts lst maxEx items (viewEx, ex) = (found, limited, viewEx', ex')"
  shows "\<exists>k \<ge> 0. ex' = ex + k \<and> viewEx + k \<le> viewEx' \<and> (k = 0 \<or> viewEx + k \<le> maxEx)"
  using assms
proof (induction items arbitrary: viewEx ex)
  case (Cons item items)
  let ?skip = "case lst of Some l \<Rightarrow> \<not> lessFunc l item | None \<Rightarrow> False"
    and ?stop = "case Upper opts of Some u \<Rightarrow> bytes_compare (fst item) u \<ge> 0 | None \<Rightarrow> False"
    and ?before = "case StartAfter opts of Some a \<Rightarrow> bytes_compare (fst item) a \<le> 0 | None \<Rightarrow> False"
  consider "next_loop opts lst maxEx items (viewEx, ex) = (found, limited, viewEx', ex')"
    | "viewEx + 1 \<le> maxEx" "next_loop opts lst maxEx items (viewEx + 1, ex + 1) = (found, limited, viewEx', ex')"
    | "ex' = ex" "viewEx \<le> viewEx'" | "viewEx + 1 \<le> maxEx" "ex' = ex + 1" "viewEx' = viewEx + 1"
    using Cons.prems by (cases ?skip; cases ?stop; cases ?before; cases "viewEx + 1 > maxEx") simp_all
  then show ?case
  proof cases
    case 1
    then show ?thesis by (rule Cons.IH)
  next
    case 3
    then show ?thesis by (intro exI [of _ 0]) simp
  next
    case 4
    then show ?thesis by (intro exI [of _ 1]) simp
  next
    case 2
    from Cons.IH [OF 2(2)] obtain k where "k \<ge> 0" "ex' = ex + 1 + k" "viewEx + 1 + k \<le> viewEx'" "k = 0 \<or> viewEx + 1 + k \<le> maxEx"
      by blast
    then show ?thesis using 2(1) by (intro exI [of _ "k + 1"]) auto
  qed
qed simp

lemma it_Next_work:
  assumes "it_Next ops cancelled v it = (v', it', r)"
  shows "view_maxExamined v' = view_maxExamined v \<and> (\<exists>k \<ge> 0. it_examined it' = it_examined it + k \<and>
    view_examined v + k \<le> view_examined v' \<and> (k = 0 \<or> view_examined v + k \<le> view_maxExamined v))"
proof -
  obtain found limited viewEx ex where loop: "next_loop (it_opts it) (it_last it) (view_maxExamined v)
      (tree_ascend ops (start_item (it_opts it) (it_last it)) (view_tree v)) (view_examined v, it_examined it) =
      (found, limited, viewEx, ex)" by (metis prod_cases4)
  have "v' = v \<and> it' = it \<or> view_maxExamined v' = view_maxExamined v \<and> view_examined v' = viewEx \<and> it_examined it' = ex"
    using assms by (auto simp: it_Next_def loop Let_def split: if_splits option.splits)
  then show ?thesis using next_loop_work [OF loop] by auto
qed

definition within_limit :: "int \<Rightarrow> 't mem_source \<Rightarrow> bool" where
  "within_limit limit src \<longleftrightarrow> mem_examined src \<le> limit \<and>
     (case fst src of None \<Rightarrow> True | Some v \<Rightarrow> view_maxExamined v = limit \<and> mem_examined src \<le> view_examined v)"

lemma mem_next_work:
  assumes "within_limit limit src"
  shows "within_limit limit (fst (mem_next ops cancelled src i))"
proof (cases "fst src")
  case None
  then show ?thesis using assms by (simp add: mem_next_def)
next
  case (Some v)
  obtain v' it' r where n: "it_Next ops cancelled v (snd src ! i) = (v', it', r)" by (metis prod_cases3)
  obtain k where k: "view_maxExamined v' = view_maxExamined v" "k \<ge> 0" "it_examined it' = it_examined (snd src ! i) + k"
    "view_examined v + k \<le> view_examined v'" "k = 0 \<or> view_examined v + k \<le> view_maxExamined v"
    using it_Next_work [OF n] by blast
  have "mem_examined (Some v', (snd src)[i := it']) \<le> mem_examined src + k"
    using k(2,3) by (cases "i < length (snd src)") (simp_all add: mem_examined_def examined_update list_update_beyond)
  then show ?thesis using assms k by (auto simp: within_limit_def mem_next_def Some n)
qed

definition stream_after :: "'t btree \<Rightarrow> nat \<Rightarrow> bool list \<Rightarrow> 't mem_source candidate_stream \<Rightarrow> 't mem_source candidate_stream" where
  "stream_after ops fuel cs s = fold (\<lambda>c s. fst (stream_Next (mem_next ops c) mem_examined c fuel s)) cs s"

lemma stream_after_work:
  "within_limit limit (StreamSource s) \<Longrightarrow> within_limit limit (StreamSource (stream_after ops fuel cs s))"
proof (induction cs arbitrary: s)
  case (Cons c cs)
  have "within_limit limit (StreamSource (fst (stream_Next (mem_next ops c) mem_examined c fuel s)))"
    by (rule Next_source [where I = "within_limit limit", OF mem_next_work Cons.prems])
  then show ?case using Cons.IH by (simp add: stream_after_def)
qed (simp add: stream_after_def)

text \<open>Fuel for one round per branch is enough at every call.\<close>

context ordered_source
begin

lemma stream_drain_fuel:
  assumes "open_stream s" and "length (StreamHeads s) < fuel"
  shows "stream_drain nxt examined fuel n s \<noteq> Inl None"
  using assms
proof (induction n arbitrary: s)
  case (Suc n)
  obtain s' r where r: "stream_Next nxt examined False fuel s = (s', r)" by fastforce
  show ?case
  proof (cases r)
    case (Inl e)
    then show ?thesis using stream_Next_fuel [OF Suc.prems, of examined] r by simp
  next
    case (Inr res)
    note step = stream_Next_result [OF Suc.prems(1) r [unfolded Inr]]
    then have "stream_drain nxt examined fuel n s' \<noteq> Inl None" using Suc.IH [of s'] Suc.prems(2) by simp
    then show ?thesis using r Inr by (cases res; cases "stream_drain nxt examined fuel n s'") simp_all
  qed
qed simp

end

section \<open>The choice of a template\<close>

text \<open>The choices are ordered by pattern priority, then by the compiler's access count, then by name.\<close>

definition choice_key :: "candidate_choice \<Rightarrow> nat \<times> nat \<times> nat" where
  "choice_key c = (FixedSegments (ChoicePattern c), TotalSegments (ChoicePattern c), ChoiceScore c)"

lemma better_choice_key:
  "better_choice a b \<longleftrightarrow> choice_key b < choice_key a \<or>
     choice_key a = choice_key b \<and> Name (MetaTemplate (ChoiceMeta a)) < Name (MetaTemplate (ChoiceMeta b))"
  by (cases "FixedSegments (ChoicePattern a) = FixedSegments (ChoicePattern b)")
    (auto simp: better_choice_def choice_key_def ScoreLess_def ScoreEqual_def less_prod_def')

lemma not_better_choice:
  "\<not> better_choice c best \<longleftrightarrow>
     FixedSegments (ChoicePattern c) < FixedSegments (ChoicePattern best) \<or>
     FixedSegments (ChoicePattern c) = FixedSegments (ChoicePattern best) \<and>
       (TotalSegments (ChoicePattern c) < TotalSegments (ChoicePattern best) \<or>
        TotalSegments (ChoicePattern c) = TotalSegments (ChoicePattern best) \<and>
          (ChoiceScore c < ChoiceScore best \<or>
           ChoiceScore c = ChoiceScore best \<and> Name (MetaTemplate (ChoiceMeta best)) \<le> Name (MetaTemplate (ChoiceMeta c))))"
  unfolding better_choice_key choice_key_def less_prod_def' by (simp add: not_less) linarith

lemma better_choice_order:
  "\<not> better_choice c c" "better_choice a b \<Longrightarrow> \<not> better_choice b a"
  "\<not> better_choice a b \<Longrightarrow> \<not> better_choice b c \<Longrightarrow> \<not> better_choice a c"
proof -
  show "\<not> better_choice c c" "better_choice a b \<Longrightarrow> \<not> better_choice b a" by (auto simp: better_choice_key)
  let ?k = choice_key and ?n = "\<lambda>c. Name (MetaTemplate (ChoiceMeta c))"
  assume "\<not> better_choice a b" "\<not> better_choice b c"
  then have k: "?k a \<le> ?k b" "?k b \<le> ?k c" and n: "?k a = ?k b \<longrightarrow> ?n b \<le> ?n a" "?k b = ?k c \<longrightarrow> ?n c \<le> ?n b"
    by (auto simp: better_choice_key)
  from k have "?k a \<le> ?k c" by (rule order_trans)
  moreover have "?n c \<le> ?n a" if "?k a = ?k c"
  proof -
    have "?k a = ?k b" "?k b = ?k c" using k that by (simp_all add: order_antisym)
    then show ?thesis using n order_trans by blast
  qed
  ultimately show "\<not> better_choice a c" unfolding better_choice_key by (meson leD)
qed

definition candidate_of ::
  "(fingerprint_payload \<Rightarrow> string) \<Rightarrow> digest \<Rightarrow> plan \<Rightarrow> filters \<Rightarrow> match_result \<Rightarrow> candidate_choice option" where
  "candidate_of hash digest plan filters match =
     (let t = MatchTemplate match in
      if (PlanShowDeleted plan \<longrightarrow> IncludeDeleted t) \<and> (PlanFingerprint plan = '''' \<or> PlanFingerprint plan = Fingerprint hash t)
      then (case compileCandidate hash digest t filters (OrderBy plan) of Inl _ \<Rightarrow> None
        | Inr (m, n) \<Rightarrow> Some \<lparr>ChoiceMeta = m, ChoiceScore = n, ChoicePattern = Score match\<rparr>)
      else None)"

lemma choose_step_fst:
  "fst (choose_step hash digest plan filters match acc) =
     (case candidate_of hash digest plan filters match of None \<Rightarrow> fst acc
      | Some c \<Rightarrow> (case fst acc of None \<Rightarrow> Some c | Some best \<Rightarrow> Some (if better_choice c best then c else best)))"
  by (auto simp: choose_step_def candidate_of_def Let_def split: sum.splits prod.splits option.splits)

lemma choose_best:
  assumes "fst (fold (choose_step hash digest plan filters) ms acc) = r"
    and "case fst acc of None \<Rightarrow> C = {} | Some b \<Rightarrow> b \<in> C \<and> (\<forall>c \<in> C. \<not> better_choice c b)"
  shows "case r of None \<Rightarrow> C \<union> {c. \<exists>m \<in> set ms. candidate_of hash digest plan filters m = Some c} = {}
    | Some b \<Rightarrow> b \<in> C \<union> {c. \<exists>m \<in> set ms. candidate_of hash digest plan filters m = Some c} \<and>
        (\<forall>c \<in> C \<union> {c. \<exists>m \<in> set ms. candidate_of hash digest plan filters m = Some c}. \<not> better_choice c b)"
  using assms
proof (induction ms arbitrary: acc C)
  case (Cons m ms)
  let ?c = "candidate_of hash digest plan filters m" and ?acc = "choose_step hash digest plan filters m acc"
  let ?C = "C \<union> {c. ?c = Some c}"
  have inv: "case fst ?acc of None \<Rightarrow> ?C = {} | Some b \<Rightarrow> b \<in> ?C \<and> (\<forall>c \<in> ?C. \<not> better_choice c b)"
  proof (cases ?c)
    case None
    then show ?thesis using Cons.prems(2) by (cases "fst acc") (simp_all add: choose_step_fst)
  next
    case (Some c)
    show ?thesis
    proof (cases "fst acc")
      case None
      then show ?thesis using Cons.prems(2) Some better_choice_order(1) by (simp add: choose_step_fst)
    next
      case best: (Some b)
      then have b: "b \<in> C" "\<forall>c \<in> C. \<not> better_choice c b" using Cons.prems(2) by simp_all
      have "better_choice c b \<Longrightarrow> \<forall>x \<in> C. \<not> better_choice x c" using b(2) better_choice_order(2,3) by blast
      then show ?thesis using b Some best better_choice_order(1) [of c] by (simp add: choose_step_fst)
    qed
  qed
  have u: "?C \<union> {c. \<exists>m \<in> set ms. candidate_of hash digest plan filters m = Some c} =
      C \<union> {c. \<exists>m \<in> set (m # ms). candidate_of hash digest plan filters m = Some c}" by auto
  show ?case unfolding u [symmetric] by (rule Cons.IH [OF _ inv]) (use Cons.prems(1) in simp)
qed (auto split: option.splits)

context ordered_tree
begin

lemma scan_drains:
  assumes opened: "OpenCandidates ops hash digest False db plan m = Inr st"
    and ts: "\<forall>t \<in> set (plan_templates db m). ValidateTemplate t = Inr ()"
    and fs: "candidateFilters (PlanFilters plan) = Inr filters"
    and P: "P = posting_set ops (scan_ref db plan (StreamMeta st)) (MgrStore m)"
      "postings_for (MetaTemplate (StreamMeta st)) P" "\<forall>i \<in> P. \<exists>p. position (StreamMeta st) (fst i) = Inr p"
    and cur: "cursor_for (StreamMeta st) (AfterPosition plan)" and fuel: "length (Branches (StreamMeta st)) < fuel"
  shows "stream_drain (mem_next ops False) examined fuel n st \<noteq> Inl None"
    and "int (length (Branches (StreamMeta st)) * card P) \<le> StreamMaxExamined st \<Longrightarrow> card P < n \<Longrightarrow>
      \<exists>gs. stream_drain (mem_next ops False) mem_examined fuel n st = Inr gs \<and> sorted_wrt (<) (map Position gs) \<and>
        set (map (\<lambda>g. (Position g, GroupID g)) gs) = matching (StreamMeta st) filters (AfterPosition plan) P"
proof -
  obtain t mb access g where c: "ValidateTemplate t = Inr ()" "distinct (map OrdField (OrderBy plan))"
    "compileCandidate hash digest t filters (OrderBy plan) = Inr (mb, access)" "StreamMeta st = mb\<lparr>MetaGeneration := g\<rparr>"
    "StreamQueue st = []" "\<not> StreamStarted st" "\<not> StreamClosed st" "StreamHeads st = replicate (length (Branches mb)) None"
    "0 < StreamMaxExamined st"
    "fresh_source ops (scan_ref db plan (StreamMeta st)) (MgrStore m) mb (AfterPosition plan) (StreamMaxExamined st) (StreamSource st)"
    by (rule OpenCandidates_compiled [OF opened ts fs])
  have t: "MetaTemplate mb = t" using compile_meta [OF c(1) fs c(3)] by metis
  have st: "scan.open_stream st" "entries (mem_pending ops) st = matching mb filters (AfterPosition plan) P"
    "int (length (Branches mb) * card P) \<le> StreamMaxExamined st \<longrightarrow> scan.affordable st"
    using opened_stream [OF c(1) fs c(2-10) P(1)] P(2,3) cur t unfolding c(4) by simp_all
  have heads: "length (StreamHeads st) < fuel" using fuel c(4,8) by simp
  show "stream_drain (mem_next ops False) examined fuel n st \<noteq> Inl None" by (rule scan.stream_drain_fuel [OF st(1) heads])
  assume b: "int (length (Branches (StreamMeta st)) * card P) \<le> StreamMaxExamined st" "card P < n"
  have one: "one_document (entries (mem_pending ops) st)"
    unfolding st(2) by (rule matching_one_document [OF c(1) fs c(3)])
  have "finite P" using list_of_items [of "pi_tree (partition_of ops (scan_ref db plan (StreamMeta st)) (MgrStore m))"]
    by (metis P(1) List.finite_set posting_set_def)
  moreover have "matching mb filters (AfterPosition plan) P \<subseteq> (\<lambda>i. (projr (position mb (fst i)), snd i)) ` P"
  proof
    fix e assume "e \<in> matching mb filters (AfterPosition plan) P"
    then obtain p d gs where "e = (p, d)" "(index_key gs d, d) \<in> P" "position mb (index_key gs d) = Inr p"
      by (auto simp: matching_def)
    then show "e \<in> (\<lambda>i. (projr (position mb (fst i)), snd i)) ` P" by force
  qed
  ultimately have "card (entries (mem_pending ops) st) \<le> card P" unfolding st(2) by (rule surj_card_le)
  then show "\<exists>gs. stream_drain (mem_next ops False) mem_examined fuel n st = Inr gs \<and> sorted_wrt (<) (map Position gs) \<and>
        set (map (\<lambda>g. (Position g, GroupID g)) gs) = matching (StreamMeta st) filters (AfterPosition plan) P"
    using scan.stream_drain_exact [OF st(1) _ one heads, of n] st(2,3) b c(4) by simp
qed

end

lemma compile_fingerprint:
  "compileCandidate hash digest t filters requested = Inr (m, access) \<Longrightarrow> MetaFingerprint m = Fingerprint hash t"
  by (auto simp: compileCandidate_def Let_def result_simps split: if_splits)

section \<open>Properties\<close>

text \<open>
  C6: A candidate scan returns exactly the documents it should, in order, and it ends.  Once \<open>OpenCandidates\<close>
  has opened a scan of the in-memory store on a manager whose templates are valid, on a partition whose postings are
  keys of tuples of the chosen template, each with a position of admissible length, with no cursor or the position
  of such a tuple as the cursor, and with a work limit of at least a posting per branch for every posting of the
  partition, reading the stream until it ends returns one group per position and no error: the positions ascend
  strictly, and they belong to exactly the postings that satisfy every filter the plan assigns to the index and lie
  after the cursor of the plan.
\<close>

theorem candidate_scan_exact:
  assumes "ordered_tree ops" and "OpenCandidates ops hash digest False db plan m = Inr st"
    and "\<forall>t \<in> set (plan_templates db m). ValidateTemplate t = Inr ()"
    and "candidateFilters (PlanFilters plan) = Inr filters"
    and "P = posting_set ops (scan_ref db plan (StreamMeta st)) (MgrStore m)"
    and "postings_for (MetaTemplate (StreamMeta st)) P" and "\<forall>i \<in> P. \<exists>p. position (StreamMeta st) (fst i) = Inr p"
    and "cursor_for (StreamMeta st) (AfterPosition plan)" and "length (Branches (StreamMeta st)) < fuel"
    and "int (length (Branches (StreamMeta st)) * card P) \<le> StreamMaxExamined st" and "card P < n"
  shows "\<exists>gs. stream_drain (mem_next ops False) mem_examined fuel n st = Inr gs \<and> sorted_wrt (<) (map Position gs) \<and>
    set (map (\<lambda>g. (Position g, GroupID g)) gs) = matching (StreamMeta st) filters (AfterPosition plan) P"
  by (rule ordered_tree.scan_drains(2) [OF assms])

text \<open>
  C14: Reading a candidate stream terminates.  For a scan of the in-memory store opened on a manager whose
  templates are valid, on a partition whose postings are keys of tuples of the chosen template and have a position,
  with no cursor or the position of such a tuple as the cursor, and whatever the work limit: however often \<open>Next\<close>
  is called, until it reports the end or an error, its loop that collects the branches of one position runs at most
  once per branch.  Fuel for one round more than there are branches is never used up.
\<close>

theorem candidate_stream_terminates:
  assumes "ordered_tree ops" and "OpenCandidates ops hash digest False db plan m = Inr st"
    and "\<forall>t \<in> set (plan_templates db m). ValidateTemplate t = Inr ()"
    and "candidateFilters (PlanFilters plan) = Inr filters"
    and "P = posting_set ops (scan_ref db plan (StreamMeta st)) (MgrStore m)"
    and "postings_for (MetaTemplate (StreamMeta st)) P" and "\<forall>i \<in> P. \<exists>p. position (StreamMeta st) (fst i) = Inr p"
    and "cursor_for (StreamMeta st) (AfterPosition plan)" and "length (Branches (StreamMeta st)) < fuel"
  shows "stream_drain (mem_next ops False) mem_examined fuel n st \<noteq> Inl None"
  by (rule ordered_tree.scan_drains(1) [OF assms])

text \<open>
  C15: The work of a scan is bounded.  However often and with whatever interruptions a stream is read, before and
  after errors, its iterators together never examine more postings than the limit the scan was opened with,
  which is the limit of the plan or 100000.
\<close>

theorem candidate_scan_bounded:
  assumes "OpenCandidates ops hash digest False db plan m = Inr st"
  shows "mem_examined (StreamSource (stream_after ops fuel cs st)) \<le> StreamMaxExamined st \<and>
    StreamMaxExamined st = (if PlanMaxExamined plan = 0 then 100000 else PlanMaxExamined plan)"
  using assms
proof (cases rule: OpenCandidatesE)
  case (1 filters best e gen md)
  then have limit: "0 < StreamMaxExamined st" by simp
  have "within_limit (StreamMaxExamined st) (StreamSource st)"
  proof (cases "Branches md = []")
    case True
    then show ?thesis using 1(17) limit by (simp add: within_limit_def mem_examined_def)
  next
    case False
    then obtain v its where v: "StreamSource st = (Some v, its)"
      "ReadView ops False (scan_ref db plan md)
         \<lparr>MaxOverlayReplacements = 0, MaxOverlayBytes = 0, MaxExamined = StreamMaxExamined st\<rparr> (MgrStore m) = Inr v"
      "open_scans False md (AfterPosition plan) v [0..<length (Branches md)] = Inr its" using 1(18) by blast
    have "\<forall>it \<in> set its. Examined it = 0" using open_scans_nth [OF v(3)] by (fastforce simp: in_set_conv_nth Examined_def)
    then have "sum_list (map Examined its) = 0" by (induction its) simp_all
    then show ?thesis using v(1,2) limit
      by (auto simp: within_limit_def mem_examined_def ReadView_def NormalizeReadBudget_def Let_def)
  qed
  from stream_after_work [OF this] show ?thesis using 1(12) by (simp add: within_limit_def)
qed

text \<open>
  C16: A scan is opened only on a generation that is ready and recorded no failure, and never for a cursor of
  another generation, another template or another compilation of the filters.
\<close>

theorem OpenCandidates_guarded:
  assumes "OpenCandidates ops hash digest cancelled db plan m = Inr st"
  shows "\<exists>gen. ReadGeneration db (PlanCollection plan) (MetaFingerprint (StreamMeta st)) (MgrStore m) = Some gen \<and>
    Ready gen \<and> Failure gen = '''' \<and> MetaGeneration (StreamMeta st) = GenID gen \<and>
    (PlanGeneration plan = '''' \<or> PlanGeneration plan = GenID gen) \<and>
    (PlanBranchHash plan = '''' \<or> PlanBranchHash plan = BranchHash (StreamMeta st)) \<and>
    (PlanFingerprint plan = '''' \<or> PlanFingerprint plan = MetaFingerprint (StreamMeta st))"
  using assms
proof (cases rule: OpenCandidatesE)
  case (1 filters best e gen md)
  from choose_template_from [OF 1(3)] obtain t
    where "compileCandidate hash digest t filters (OrderBy plan) = Inr (ChoiceMeta best, ChoiceScore best)"
      "PlanFingerprint plan = '''' \<or> PlanFingerprint plan = Fingerprint hash t"
    unfolding choice_from_def Let_def by blast
  then have "PlanFingerprint plan = '''' \<or> PlanFingerprint plan = MetaFingerprint (ChoiceMeta best)"
    using compile_fingerprint by metis
  then show ?thesis using 1 by simp
qed

text \<open>
  C19: The planner takes the best of the templates it can use.  Every matching template that passes the plan's
  restrictions and compiles has fewer fixed segments in its pattern than the one chosen, or as many and fewer
  segments, or as many of both and a lower access count, or is equal in all three and its name does not come
  before; and no template is chosen only when none of them compiles.  The access count is the one
  \<open>compileCandidate\<close> returns: a filter the index answers on a fixed field counts once, one that narrows the
  ranges of the first free field once for every branch.
\<close>

theorem choose_template_best:
  "case fst (choose_template hash digest plan filters matches) of
     None \<Rightarrow> \<forall>m \<in> set matches. candidate_of hash digest plan filters m = None
   | Some best \<Rightarrow> (\<exists>m \<in> set matches. candidate_of hash digest plan filters m = Some best) \<and>
       (\<forall>m \<in> set matches. \<forall>c. candidate_of hash digest plan filters m = Some c \<longrightarrow>
         FixedSegments (ChoicePattern c) < FixedSegments (ChoicePattern best) \<or>
         FixedSegments (ChoicePattern c) = FixedSegments (ChoicePattern best) \<and>
           (TotalSegments (ChoicePattern c) < TotalSegments (ChoicePattern best) \<or>
            TotalSegments (ChoicePattern c) = TotalSegments (ChoicePattern best) \<and>
              (ChoiceScore c < ChoiceScore best \<or>
               ChoiceScore c = ChoiceScore best \<and>
                 Name (MetaTemplate (ChoiceMeta best)) \<le> Name (MetaTemplate (ChoiceMeta c)))))"
  using choose_best [where acc = "(None, None)" and C = "{}" and ms = matches, OF refl, of hash digest plan filters]
  by (auto simp: choose_template_def not_better_choice [symmetric] split: option.splits) (metis option.exhaust)

section \<open>Sample scan\<close>

definition scan_store :: "btree_item fset mem_store" where
  "scan_store = New\<lparr>generations := [(''db'', ''users'', ''f'') \<mapsto>
       \<lparr>GenID = ''g'', Ready = True, BootstrapProgress = ''p'', Failure = ''''\<rparr>],
     partitions := [sample_ref \<mapsto> \<lparr>pi_tree = {|(index_key name_tuple ''d1'', ''d1''), (index_key name_tuple ''d2'', ''d2'')|},
       pi_byID = [''d1'' \<mapsto> [index_key name_tuple ''d1''], ''d2'' \<mapsto> [index_key name_tuple ''d2'']]\<rparr>]\<rparr>"

definition scan_manager :: "btree_item fset manager" where
  "scan_manager = \<lparr>MgrStore = scan_store, MgrTemplates = [name_template], DbTemplates = []\<rparr>"

definition scan_plan :: plan where
  "scan_plan = \<lparr>PlanCollection = ''users'', PlanFilters = name_query, OrderBy = [], PlanLimit = 0, PlanStartAfter = '''',
     PlanShowDeleted = False, AfterPosition = index_key name_tuple ''d1'', PlanFingerprint = '''', PlanGeneration = ''g'',
     PlanBranchHash = '''', PlanMaxExamined = 0\<rparr>"

abbreviation sample_open where
  "sample_open \<equiv> OpenCandidates fset_tree (\<lambda>_. ''f'') (\<lambda>_ _. ''d'') False ''db'' scan_plan scan_manager"

lemma scan_matches: "MatchTemplates ''users'' [name_template] = [pattern_result name_template]"
  by (simp add: MatchTemplates_alt pattern_matches_var name_template_def sort_slice_def)

lemma scan_choice:
  "choose_template (\<lambda>_. ''f'') (\<lambda>_ _. ''d'') scan_plan [name_filter] [pattern_result name_template] =
     (Some \<lparr>ChoiceMeta = name_meta, ChoiceScore = 1, ChoicePattern = Score (pattern_result name_template)\<rparr>, None)"
  by (simp add: choose_template_def choose_step_def scan_plan_def pattern_result_def name_compile)

text \<open>A second template that matches by a wildcard only.\<close>

definition loose_match :: match_result where
  "loose_match = \<lparr>MatchTemplate = name_template, Score = \<lparr>FixedSegments = 0, TotalSegments = 1\<rparr>\<rparr>"

definition scan_best :: candidate_choice where
  "scan_best = \<lparr>ChoiceMeta = name_meta, ChoiceScore = 1, ChoicePattern = Score (pattern_result name_template)\<rparr>"

lemma name_score: "Score (pattern_result name_template) = \<lparr>FixedSegments = 1, TotalSegments = 1\<rparr>"
  by (simp add: pattern_result_def name_template_def calculateScore_def varPattern_def)

lemma scan_best:
  "choose_template (\<lambda>_. ''f'') (\<lambda>_ _. ''d'') scan_plan [name_filter] [loose_match, pattern_result name_template] =
     (Some scan_best, None)"
  using name_score
  by (simp add: choose_template_def choose_step_def scan_plan_def loose_match_def pattern_result_def name_compile scan_best_def
      better_choice_def ScoreLess_def)

lemma scan_cursor: "check_position name_meta (index_key name_tuple ''d1'')"
  by (simp add: check_position_def name_keys tupleParts_def name_meta_def orderComponents_def ExtractDocID_def TypeString_def)

lemma scan_generation: "ReadGeneration ''db'' ''users'' ''f'' scan_store =
    Some \<lparr>GenID = ''g'', Ready = True, BootstrapProgress = ''p'', Failure = ''''\<rparr>"
  by (simp add: ReadGeneration_def scan_store_def New_def ResolveGeneration_def)

lemma scan_options: "\<exists>opts. scanOptions name_meta 0 (index_key name_tuple ''d1'') = Inr opts"
proof -
  have "tupleParts (index_key name_tuple ''d1'') = Inr [[0x50, 0x61, 0, 0], [0x50, 0x64, 0x31, 0, 0]]"
    "tupleParts [Version, 0x50, 0x61, 0, 0] = Inr [[0x50, 0x61, 0, 0]]"
    by (simp_all add: tupleParts_def name_keys)
  then show ?thesis using name_keys(1)
    by (simp add: scanOptions_def name_meta_def orderComponents_def fill_map_def name_template_def bytes_compare_def PostingKey_def
        Let_def)
qed

lemma scan_opened: "\<exists>st. sample_open = Inr st \<and> StreamMeta st = name_meta\<lparr>MetaGeneration := ''g''\<rparr> \<and> StreamMaxExamined st = 100000"
proof -
  obtain opts where opts: "scanOptions name_meta 0 (index_key name_tuple ''d1'') = Inr opts" using scan_options by blast
  have len: "\<not> MaxCandidatePositionBytes < length (index_key name_tuple ''d1'')" "index_key name_tuple ''d1'' \<noteq> []"
    by (simp_all add: name_keys MaxCandidatePositionBytes_def)
  have fp: "MetaFingerprint name_meta = ''f''" "Branches name_meta \<noteq> []" "length (Branches name_meta) = 1" by (simp_all add: name_meta_def)
  have plan: "PlanCollection scan_plan = ''users''" "PlanFilters scan_plan = name_query" "OrderBy scan_plan = []"
    "AfterPosition scan_plan = index_key name_tuple ''d1''" "PlanFingerprint scan_plan = ''''" "PlanGeneration scan_plan = ''g''"
    "PlanBranchHash scan_plan = ''''" "PlanMaxExamined scan_plan = 0" by (simp_all add: scan_plan_def)
  show ?thesis
    by (simp add: OpenCandidates_def plan name_filters len scan_manager_def scan_matches scan_choice scan_cursor
        fp scan_generation ReadView_def NormalizeReadBudget_def Scan_def opts Let_def)
qed

lemma scan_postings: "posting_set fset_tree sample_ref scan_store =
    {(index_key name_tuple ''d1'', ''d1''), (index_key name_tuple ''d2'', ''d2'')}"
proof -
  have "\<not> lessFunc i least_item" for i by (simp add: lessFunc_iff not_less)
  then show ?thesis
    by (auto simp: posting_set_def partition_of_def scan_store_def tree_items_def fset_tree_def sorted_list_of_fset.rep_eq)
qed

lemma scan_matching: "matching name_meta [name_filter] (AfterPosition scan_plan) (posting_set fset_tree sample_ref scan_store) =
    {(index_key name_tuple ''d2'', ''d2'')}"
proof (intro equalityI subsetI)
  fix e assume "e \<in> matching name_meta [name_filter] (AfterPosition scan_plan) (posting_set fset_tree sample_ref scan_store)"
  then obtain p d gs where e: "e = (p, d)" "(index_key gs d, d) \<in> posting_set fset_tree sample_ref scan_store"
    "position name_meta (index_key gs d) = Inr p" "index_key name_tuple ''d1'' < p"
    unfolding matching_def by (auto simp: scan_plan_def)
  then show "e \<in> {(index_key name_tuple ''d2'', ''d2'')}" using name_positions by (auto simp: scan_postings)
next
  fix e assume "e \<in> {(index_key name_tuple ''d2'', ''d2'')}"
  moreover have "predicate_holds (Fields name_template) name_tuple name_filter"
    by (simp add: predicate_holds_def marked_holds_def slot_holds_def name_template_def name_tuple_def value_field_slot name_codes
        name_filter_def same_scalar_def cmp_def)
  moreover have "index_key name_tuple ''d1'' < index_key name_tuple ''d2''" by (simp add: name_keys)
  ultimately show "e \<in> matching name_meta [name_filter] (AfterPosition scan_plan) (posting_set fset_tree sample_ref scan_store)"
    using name_index_tuple(2) name_positions(2) unfolding matching_def
    by (auto simp: scan_postings scan_plan_def name_meta_def intro!: exI [of _ name_tuple])
qed

lemma scan_sample:
  assumes "StreamMeta st = name_meta\<lparr>MetaGeneration := ''g''\<rparr>"
  shows "scan_ref ''db'' scan_plan (StreamMeta st) = sample_ref" "MgrStore scan_manager = scan_store"
    "\<forall>t \<in> set (plan_templates ''db'' scan_manager). ValidateTemplate t = Inr ()"
    "candidateFilters (PlanFilters scan_plan) = Inr [name_filter]"
    "postings_for (MetaTemplate (StreamMeta st)) (posting_set fset_tree sample_ref scan_store)"
    "\<forall>i \<in> posting_set fset_tree sample_ref scan_store. \<exists>p. position (StreamMeta st) (fst i) = Inr p"
    "cursor_for (StreamMeta st) (AfterPosition scan_plan)" "length (Branches (StreamMeta st)) = 1"
    "card (posting_set fset_tree sample_ref scan_store) = 2"
proof -
  have t: "MetaTemplate name_meta = name_template" by (simp add: name_meta_def)
  show "scan_ref ''db'' scan_plan (StreamMeta st) = sample_ref"
    by (simp add: assms scan_ref_def scan_plan_def sample_ref_def name_meta_def)
  show "\<forall>t \<in> set (plan_templates ''db'' scan_manager). ValidateTemplate t = Inr ()"
    by (simp add: plan_templates_def scan_manager_def name_valid)
  show "candidateFilters (PlanFilters scan_plan) = Inr [name_filter]" by (simp add: scan_plan_def name_filters)
  show "postings_for (MetaTemplate (StreamMeta st)) (posting_set fset_tree sample_ref scan_store)"
    using name_index_tuple by (auto simp: scan_postings postings_for_def assms t)
  show "\<forall>i \<in> posting_set fset_tree sample_ref scan_store. \<exists>p. position (StreamMeta st) (fst i) = Inr p"
    using name_positions by (simp add: scan_postings assms)
  show "cursor_for (StreamMeta st) (AfterPosition scan_plan)"
    using name_index_tuple name_positions t by (auto simp: assms cursor_for_def scan_plan_def)
  show "card (posting_set fset_tree sample_ref scan_store) = 2" by (simp add: scan_postings)
qed (simp_all add: scan_manager_def assms name_meta_def)

theorem candidate_scan_exact_witness:
  "\<exists>st gs. sample_open = Inr st \<and> stream_drain (mem_next fset_tree False) mem_examined 2 3 st = Inr gs \<and>
     map (\<lambda>g. (Position g, GroupID g)) gs = [(index_key name_tuple ''d2'', ''d2'')]"
proof -
  obtain st where st: "sample_open = Inr st" "StreamMeta st = name_meta\<lparr>MetaGeneration := ''g''\<rparr>"
    and limit: "StreamMaxExamined st = 100000" using scan_opened by blast
  note s = scan_sample [OF st(2)]
  let ?P = "posting_set fset_tree (scan_ref ''db'' scan_plan (StreamMeta st)) (MgrStore scan_manager)"
  have P: "?P = posting_set fset_tree sample_ref scan_store" by (simp add: s)
  from candidate_scan_exact [OF fset_tree.ordered_tree_axioms st(1) s(3,4) refl, of 2 3, unfolded P, OF s(5-7)] s(8,9) limit
  obtain gs where gs: "stream_drain (mem_next fset_tree False) mem_examined 2 3 st = Inr gs" "sorted_wrt (<) (map Position gs)"
    "set (map (\<lambda>g. (Position g, GroupID g)) gs) =
       matching (StreamMeta st) [name_filter] (AfterPosition scan_plan) (posting_set fset_tree sample_ref scan_store)" by auto
  have "matching (StreamMeta st) [name_filter] (AfterPosition scan_plan) (posting_set fset_tree sample_ref scan_store) =
      {(index_key name_tuple ''d2'', ''d2'')}" by (simp add: st(2) scan_matching)
  then have e: "set (map (\<lambda>g. (Position g, GroupID g)) gs) = {(index_key name_tuple ''d2'', ''d2'')}" using gs(3) by simp
  have "distinct (map Position gs)" using gs(2) strict_sorted_iff by blast
  then have "distinct (map (\<lambda>g. (Position g, GroupID g)) gs)" by (auto simp: distinct_map inj_on_def)
  then have "map (\<lambda>g. (Position g, GroupID g)) gs = [(index_key name_tuple ''d2'', ''d2'')]"
    using e by (cases "map (\<lambda>g. (Position g, GroupID g)) gs") (auto simp: subset_singleton_iff)
  then show ?thesis using st(1) gs(1) by (intro exI conjI)
qed

theorem candidate_stream_terminates_witness:
  "\<exists>st. sample_open = Inr st \<and> stream_drain (mem_next fset_tree False) mem_examined 2 3 st \<noteq> Inl None"
proof -
  obtain st where st: "sample_open = Inr st" "StreamMeta st = name_meta\<lparr>MetaGeneration := ''g''\<rparr>" using scan_opened by blast
  note s = scan_sample [OF st(2)]
  let ?P = "posting_set fset_tree (scan_ref ''db'' scan_plan (StreamMeta st)) (MgrStore scan_manager)"
  have P: "?P = posting_set fset_tree sample_ref scan_store" by (simp add: s)
  from candidate_stream_terminates [OF fset_tree.ordered_tree_axioms st(1) s(3,4) refl, of 2 3, unfolded P, OF s(5-7)] s(8)
  have "stream_drain (mem_next fset_tree False) mem_examined 2 3 st \<noteq> Inl None" by simp
  with st(1) show ?thesis by (intro exI conjI)
qed

theorem candidate_scan_bounded_witness:
  "\<exists>st. sample_open = Inr st \<and> mem_examined (StreamSource (stream_after fset_tree 2 [False, True, False] st)) \<le> 100000"
proof -
  obtain st where st: "sample_open = Inr st" "StreamMaxExamined st = 100000" using scan_opened by blast
  from candidate_scan_bounded [OF st(1), of 2 "[False, True, False]"] st
  have "mem_examined (StreamSource (stream_after fset_tree 2 [False, True, False] st)) \<le> 100000" by simp
  with st(1) show ?thesis by (intro exI conjI)
qed

theorem OpenCandidates_guarded_witness:
  "\<exists>st gen. sample_open = Inr st \<and> ReadGeneration ''db'' ''users'' ''f'' scan_store = Some gen \<and> Ready gen \<and>
     MetaGeneration (StreamMeta st) = GenID gen"
proof -
  obtain st where st: "sample_open = Inr st" "StreamMeta st = name_meta\<lparr>MetaGeneration := ''g''\<rparr>" using scan_opened by blast
  from OpenCandidates_guarded [OF st(1)] obtain gen where "ReadGeneration ''db'' ''users'' ''f'' scan_store = Some gen" "Ready gen"
    "MetaGeneration (StreamMeta st) = GenID gen"
    by (auto simp: st(2) scan_plan_def scan_manager_def name_meta_def)
  with st(1) show ?thesis by (intro exI conjI)
qed

theorem choose_template_best_witness:
  "choose_template (\<lambda>_. ''f'') (\<lambda>_ _. ''d'') scan_plan [name_filter] [loose_match, pattern_result name_template] =
     (Some scan_best, None) \<and>
   ChoiceMeta scan_best = name_meta \<and> FixedSegments (ChoicePattern scan_best) = 1 \<and> FixedSegments (Score loose_match) < 1"
proof -
  have c: "candidate_of (\<lambda>_. ''f'') (\<lambda>_ _. ''d'') scan_plan [name_filter] loose_match =
      Some \<lparr>ChoiceMeta = name_meta, ChoiceScore = 1, ChoicePattern = \<lparr>FixedSegments = 0, TotalSegments = 1\<rparr>\<rparr>"
    by (simp add: candidate_of_def loose_match_def scan_plan_def name_compile)
  from choose_template_best [where hash = "\<lambda>_. ''f''" and digest = "\<lambda>_ _. ''d''" and plan = scan_plan
      and filters = "[name_filter]" and matches = "[loose_match, pattern_result name_template]"]
  have "FixedSegments (ChoicePattern scan_best) \<noteq> 0 \<or> TotalSegments (ChoicePattern scan_best) \<ge> 1"
    by (auto simp: scan_best c)
  then show ?thesis using scan_best by (simp add: scan_best_def loose_match_def name_score)
qed

end
