(* ===== verification/Documents.thy ===== *)
theory Documents
  imports Values
begin

text \<open>
  Documents and paths: the user-facing document (\<^verbatim>\<open>pkg/model/document.go\<close>), the stored document and
  its identity (\<^verbatim>\<open>internal/core/storage/types/helpers.go\<close>), path validation and the conversion
  between the two (\<^verbatim>\<open>internal/helper\<close>).
\<close>

section \<open>User documents\<close>

text \<open>A Go map from field names to values; an absent key is \<open>None\<close>.\<close>

type_synonym document = "string \<Rightarrow> any option"

definition id_char :: "char \<Rightarrow> bool" where
  "id_char c \<longleftrightarrow>
     (CHR ''a'' \<le> c \<and> c \<le> CHR ''z'') \<or> (CHR ''A'' \<le> c \<and> c \<le> CHR ''Z'') \<or>
     (CHR ''0'' \<le> c \<and> c \<le> CHR ''9'') \<or> c = CHR ''_'' \<or> c = CHR ''-'' \<or> c = CHR ''.''"

text \<open>\<^verbatim>\<open>idRegex\<close>, the expression \<^verbatim>\<open>^[a-zA-Z0-9_\-\.]{1,64}$\<close>.\<close>

definition idRegex :: "string \<Rightarrow> bool" where
  "idRegex s \<longleftrightarrow> 1 \<le> length s \<and> length s \<le> 64 \<and> list_all id_char s"

definition CheckDocumentID :: "string \<Rightarrow> bool" where
  "CheckDocumentID docid = idRegex docid"

definition StripProtectedFields :: "document \<Rightarrow> document" where
  "StripProtectedFields doc =
     doc(''version'' := None, ''updatedAt'' := None, ''createdAt'' := None, ''collection'' := None,
         ''deleted'' := None)"

definition GetID :: "document \<Rightarrow> string" where
  "GetID doc = (case doc ''id'' of Some (Str s) \<Rightarrow> s | _ \<Rightarrow> '''')"

definition SetID :: "string \<Rightarrow> document \<Rightarrow> document" where
  "SetID newID doc = doc(''id'' \<mapsto> Str newID)"

text \<open>\<open>fresh\<close> is what \<^verbatim>\<open>uuid.New().String()\<close> returns.\<close>

definition GenerateIDIfEmpty :: "string \<Rightarrow> document \<Rightarrow> document" where
  "GenerateIDIfEmpty fresh doc = (if doc ''id'' = None then doc(''id'' \<mapsto> Str fresh) else doc)"

definition GetCollection :: "document \<Rightarrow> string" where
  "GetCollection doc = (case doc ''collection'' of Some (Str s) \<Rightarrow> s | _ \<Rightarrow> '''')"

definition SetCollection :: "string \<Rightarrow> document \<Rightarrow> document" where
  "SetCollection collection doc = doc(''collection'' \<mapsto> Str collection)"

definition HasKey :: "string \<Rightarrow> document \<Rightarrow> bool" where
  "HasKey key doc \<longleftrightarrow> doc key \<noteq> None"

definition HasVersion :: "document \<Rightarrow> bool" where
  "HasVersion doc \<longleftrightarrow> doc ''version'' \<noteq> None"

text \<open>
  The conversion \<^verbatim>\<open>int64(v)\<close> of a double in the range of \<^verbatim>\<open>int64\<close> truncates toward zero; outside it
  the language leaves the result to the implementation, which \<open>outside\<close> stands for.
\<close>

definition f64_truncate :: "64 word \<Rightarrow> int" where
  "f64_truncate f =
     (if f64_scaled f \<ge> 0 then f64_scaled f div 2 ^ 1074 else - (- f64_scaled f div 2 ^ 1074))"

definition GetVersion :: "(64 word \<Rightarrow> 64 word) \<Rightarrow> document \<Rightarrow> 64 word" where
  "GetVersion outside doc =
     (case doc ''version'' of
        Some (Float64 v) \<Rightarrow>
          if f64_is_nan v \<or> f64_is_inf v \<or> f64_truncate v < - (2 ^ 63) \<or> f64_truncate v \<ge> 2 ^ 63
          then outside v else of_int (f64_truncate v)
      | _ \<Rightarrow> - 1)"

definition IsEmpty :: "document \<Rightarrow> bool" where
  "IsEmpty doc \<longleftrightarrow> dom doc = {''id''}"

definition IsDeleted :: "document \<Rightarrow> bool" where
  "IsDeleted doc \<longleftrightarrow> doc ''deleted'' = Some (Bool True)"

text \<open>\<^verbatim>\<open>fmt.Sprintf("%d", i)\<close>.\<close>

definition digit_char :: "nat \<Rightarrow> char" where
  "digit_char n = char_of (48 + n)"

fun nat_digits :: "nat \<Rightarrow> string" where
  "nat_digits n = (if n < 10 then [digit_char n] else nat_digits (n div 10) @ [digit_char (n mod 10)])"

declare nat_digits.simps [simp del]

definition format_int :: "int \<Rightarrow> string" where
  "format_int i = (if i < 0 then ''-'' @ nat_digits (nat (- i)) else nat_digits (nat i))"

datatype document_error =
  NilDocument | EmptyID | InvalidID | IDNotStringOrInteger

text \<open>
  \<^verbatim>\<open>ValidateDocument\<close> rewrites an integer ID in place; the model returns the document.  A nil document
  is \<open>None\<close>.
\<close>

definition ValidateDocument :: "document option \<Rightarrow> document_error + document" where
  "ValidateDocument d =
     (case d of None \<Rightarrow> Inl NilDocument
      | Some doc \<Rightarrow>
          (case doc ''id'' of
             None \<Rightarrow> Inr doc
           | Some (Str s) \<Rightarrow>
               if s = '''' then Inl EmptyID else if \<not> idRegex s then Inl InvalidID else Inr doc
           | Some (GoInt w) \<Rightarrow> Inr (doc(''id'' \<mapsto> Str (format_int (sint w))))
           | Some (Int32 w) \<Rightarrow> Inr (doc(''id'' \<mapsto> Str (format_int (sint w))))
           | Some (Int64 w) \<Rightarrow> Inr (doc(''id'' \<mapsto> Str (format_int (sint w))))
           | Some _ \<Rightarrow> Inl IDNotStringOrInteger))"

section \<open>Paths\<close>

record validation_config =
  MaxPathLength :: int
  MaxIDLength :: int

definition DefaultValidationConfig :: validation_config where
  "DefaultValidationConfig = \<lparr>MaxPathLength = 1024, MaxIDLength = 128\<rparr>"

definition SetValidationConfig :: "validation_config \<Rightarrow> validation_config" where
  "SetValidationConfig cfg =
     (let a = (if MaxPathLength cfg \<le> 0
               then cfg\<lparr>MaxPathLength := MaxPathLength DefaultValidationConfig\<rparr> else cfg)
      in if MaxIDLength a \<le> 0 then a\<lparr>MaxIDLength := MaxIDLength DefaultValidationConfig\<rparr> else a)"

datatype path_error =
  EmptyPath | PathTooLong | PathCharacters | PathSlashEnds | PathEmptySegment
| NotDocumentPath | PathIDTooLong string | NotCollectionPath

text \<open>\<^verbatim>\<open>pathRegex\<close>, the expression \<^verbatim>\<open>^[a-zA-Z0-9_\-\./]+$\<close>.\<close>

definition pathRegex :: "string \<Rightarrow> bool" where
  "pathRegex path \<longleftrightarrow> path \<noteq> '''' \<and> list_all (\<lambda>c. id_char c \<or> c = CHR ''/'') path"

definition CheckPath :: "validation_config \<Rightarrow> string \<Rightarrow> path_error + unit" where
  "CheckPath cfg path =
     (if path = '''' then Inl EmptyPath
      else if int (length path) > MaxPathLength cfg then Inl PathTooLong
      else if \<not> pathRegex path then Inl PathCharacters
      else if has_prefix path ''/'' \<or> has_suffix path ''/'' then Inl PathSlashEnds
      else if contains_sub path ''//'' then Inl PathEmptySegment
      else Inr ())"

text \<open>The loop over the document IDs of a path, the segments at odd positions.\<close>

fun check_ids :: "validation_config \<Rightarrow> string list \<Rightarrow> path_error + unit" where
  "check_ids cfg (c # d # parts) =
     (if int (length d) > MaxIDLength cfg then Inl (PathIDTooLong d) else check_ids cfg parts)"
| "check_ids cfg _ = Inr ()"

definition CheckDocumentPath :: "validation_config \<Rightarrow> string \<Rightarrow> path_error + unit" where
  "CheckDocumentPath cfg path =
     bind_result (CheckPath cfg path) (\<lambda>_.
       let parts = split_on CHR ''/'' path in
       if length parts mod 2 \<noteq> 0 \<or> length parts < 2 then Inl NotDocumentPath
       else check_ids cfg parts)"

definition CheckCollectionPath :: "validation_config \<Rightarrow> string \<Rightarrow> path_error + unit" where
  "CheckCollectionPath cfg collection =
     bind_result (CheckPath cfg collection) (\<lambda>_.
       if length (split_on CHR ''/'' collection) mod 2 \<noteq> 0 then Inr () else Inl NotCollectionPath)"

definition ExplodeFullpath :: "validation_config \<Rightarrow> string \<Rightarrow> path_error + (string \<times> string)" where
  "ExplodeFullpath cfg path =
     bind_result (CheckPath cfg path) (\<lambda>_.
       let parts = split_on CHR ''/'' path in
       bind_result (check_ids cfg parts) (\<lambda>_.
         if length parts mod 2 \<noteq> 0 then Inr (path, '''')
         else Inr (join_with ''/'' (butlast parts), last parts)))"

section \<open>Stored documents\<close>

record stored_doc =
  Id :: string
  DocDatabase :: string
  Fullpath :: string
  Collection :: string
  CollectionHash :: string
  Parent :: string
  UpdatedAt :: "64 word"
  CreatedAt :: "64 word"
  DocVersion :: "64 word"
  Data :: document
  Deleted :: bool

datatype read_consistency = ReadDefault | ReadAuthoritative | OtherConsistency int

record read_options =
  Consistency :: read_consistency
  ShowDeleted :: bool
  MaxBytes :: int

datatype storage_error =
  TooManyReadOptions | NegativeBudget | UnsupportedConsistency
| IdentityNeedsDatabase | NotConcreteCollection | EmptyCollectionSegment | FullpathOutside | FullpathSegments
| ScanNeedsDatabase | InvalidScan | InvalidEnumeration

definition ResolveReadOptions :: "read_options list \<Rightarrow> storage_error + read_options" where
  "ResolveReadOptions opts =
     (if length opts > 1 then Inl TooManyReadOptions
      else
        let resolved = (case opts of [] \<Rightarrow> \<lparr>Consistency = ReadDefault, ShowDeleted = False, MaxBytes = 0\<rparr>
          | opt # _ \<Rightarrow> opt) in
        if MaxBytes resolved < 0 then Inl NegativeBudget
        else (case Consistency resolved of
            OtherConsistency _ \<Rightarrow> Inl UnsupportedConsistency
          | _ \<Rightarrow> Inr resolved))"

definition ValidateConcreteCollection :: "string \<Rightarrow> storage_error + unit" where
  "ValidateConcreteCollection collection =
     (if collection = '''' \<or> contains_any collection [CHR ''*'', CHR 0x00] then Inl NotConcreteCollection
      else if '''' \<in> set (split_on CHR ''/'' collection) then Inl EmptyCollectionSegment
      else Inr ())"

definition LogicalDocumentID :: "stored_doc \<Rightarrow> storage_error + string" where
  "LogicalDocumentID doc =
     (if DocDatabase doc = '''' then Inl IdentityNeedsDatabase
      else bind_result (ValidateConcreteCollection (Collection doc)) (\<lambda>_.
        let prefix = Collection doc @ ''/'' in
        if \<not> has_prefix (Fullpath doc) prefix then Inl FullpathOutside
        else
          let docid = trim_prefix (Fullpath doc) prefix in
          if docid = '''' \<or> contains_any docid [CHR ''/'', CHR 0x00] then Inl FullpathSegments
          else Inr docid))"

record source_scan_request =
  ScanCollection :: string
  AfterID :: string
  ScanLimit :: int
  ScanMaxBytes :: int
  ScanConsistency :: read_consistency

definition ValidateScan :: "string \<Rightarrow> source_scan_request \<Rightarrow> storage_error + unit" where
  "ValidateScan database request =
     (if database = '''' then Inl ScanNeedsDatabase
      else bind_result (ValidateConcreteCollection (ScanCollection request)) (\<lambda>_.
        if contains_any (AfterID request) [CHR ''/'', CHR 0x00] \<or> ScanLimit request \<le> 0 \<or>
           ScanLimit request > 2147483647 \<or> ScanMaxBytes request < 0
        then Inl InvalidScan
        else bind_result (ResolveReadOptions
            [\<lparr>Consistency = ScanConsistency request, ShowDeleted = False, MaxBytes = 0\<rparr>]) (\<lambda>_. Inr ())))"

text \<open>The options of a collection enumeration are one flag, \<^verbatim>\<open>IncludeSystem\<close>.\<close>

definition ResolveCollectionEnumerationOptions ::
  "string \<Rightarrow> string \<Rightarrow> int \<Rightarrow> bool list \<Rightarrow> storage_error + bool" where
  "ResolveCollectionEnumerationOptions database afterCollection limit opts =
     (if database = '''' \<or> limit \<le> 0 \<or> limit > 2147483647 \<or> length opts > 1 then Inl InvalidEnumeration
      else bind_result (if afterCollection \<noteq> '''' then ValidateConcreteCollection afterCollection else Inr ())
        (\<lambda>_. Inr (case opts of [opt] \<Rightarrow> opt | _ \<Rightarrow> False)))"

text \<open>\<open>hash16\<close> stands for the hexadecimal first sixteen bytes of \<^verbatim>\<open>blake3.Sum256\<close>.\<close>

definition CalculateDatabase :: "(string \<Rightarrow> string) \<Rightarrow> string \<Rightarrow> string \<Rightarrow> string" where
  "CalculateDatabase hash16 database fullpath = database @ '':'' @ hash16 fullpath"

definition CalculateID :: "(string \<Rightarrow> string) \<Rightarrow> string \<Rightarrow> string" where
  "CalculateID hash16 fullpath = hash16 fullpath"

definition CalculateCollectionHash :: "(string \<Rightarrow> string) \<Rightarrow> string \<Rightarrow> string" where
  "CalculateCollectionHash hash16 collection = hash16 (''collection:'' @ collection)"

text \<open>\<^verbatim>\<open>collection[:strings.LastIndex(collection, "/")]\<close>, or nothing when there is no slash.\<close>

definition parent_of :: "string \<Rightarrow> string" where
  "parent_of collection =
     (if CHR ''/'' \<in> set collection
      then rev (tl (dropWhile (\<lambda>c. c \<noteq> CHR ''/'') (rev collection))) else '''')"

definition NewStoredDoc ::
  "(string \<Rightarrow> string) \<Rightarrow> 64 word \<Rightarrow> string \<Rightarrow> string \<Rightarrow> string \<Rightarrow> document \<Rightarrow> stored_doc" where
  "NewStoredDoc hash16 now database collection docid data =
     (let data1 = data(''id'' \<mapsto> Str docid);
          data2 = StripProtectedFields data1;
          fullpath = collection @ ''/'' @ docid
      in \<lparr>Id = CalculateDatabase hash16 database fullpath, DocDatabase = database, Fullpath = fullpath,
          Collection = collection, CollectionHash = CalculateCollectionHash hash16 collection,
          Parent = parent_of collection, UpdatedAt = now, CreatedAt = now, DocVersion = 1,
          Data = data2, Deleted = False\<rparr>)"

section \<open>Flattening\<close>

definition extractIDFromFullpath :: "string \<Rightarrow> string" where
  "extractIDFromFullpath fullpath =
     (let parts = split_on CHR ''/'' fullpath in if length parts mod 2 \<noteq> 0 then '''' else last parts)"

definition flatten_id :: "stored_doc \<Rightarrow> string" where
  "flatten_id doc =
     (let i = GetID (Data doc) in if i \<noteq> [] then i else extractIDFromFullpath (Fullpath doc))"

definition FlattenStorageDocument :: "stored_doc \<Rightarrow> document" where
  "FlattenStorageDocument doc =
     (let out = SetCollection (Collection doc) (SetID (flatten_id doc) (Data doc));
          out' = out(''version'' \<mapsto> Int64 (DocVersion doc), ''updatedAt'' \<mapsto> Int64 (UpdatedAt doc),
            ''createdAt'' \<mapsto> Int64 (CreatedAt doc))
      in if Deleted doc then out'(''deleted'' \<mapsto> Bool True) else out')"

text \<open>
  \<^verbatim>\<open>documentToStoredDoc\<close> of the realtime hub, which turns a streamed document back into a stored one.
\<close>

definition documentToStoredDoc :: "(64 word \<Rightarrow> 64 word) \<Rightarrow> document \<Rightarrow> string \<Rightarrow> stored_doc" where
  "documentToStoredDoc outside doc collection =
     \<lparr>Id = [], DocDatabase = [], Fullpath = collection @ ''/'' @ GetID doc, Collection = collection,
      CollectionHash = [], Parent = [],
      UpdatedAt = (case doc ''updatedAt'' of Some (Int64 w) \<Rightarrow> w | _ \<Rightarrow> 0),
      CreatedAt = (case doc ''createdAt'' of Some (Int64 w) \<Rightarrow> w | _ \<Rightarrow> 0),
      DocVersion = GetVersion outside doc, Data = doc, Deleted = False\<rparr>"

section \<open>Paths and segments\<close>

lemma has_prefix_slash: "has_prefix s ''/'' \<longleftrightarrow> (\<exists>t. s = CHR ''/'' # t)"
  by (simp add: has_prefix_iff)

lemma has_suffix_slash: "has_suffix s ''/'' \<longleftrightarrow> s \<noteq> [] \<and> last s = CHR ''/''"
  by (cases s rule: rev_cases) (simp_all add: has_suffix_def)

lemma contains_slashes_Cons:
  "contains_sub (c # s) ''//'' \<longleftrightarrow> (c = CHR ''/'' \<and> (\<exists>t. s = CHR ''/'' # t)) \<or> contains_sub s ''//''"
  by (cases s) (auto simp: has_prefix_def)

text \<open>A path splits into non-empty segments exactly when it has no slash at either end and no two in a row.\<close>

lemma hd_split_on_empty: "hd (split_on c s) = [] \<longleftrightarrow> s = [] \<or> hd s = c"
  by (cases s) (auto split: list.splits)

lemma empty_segment_tail:
  "s \<noteq> [] \<Longrightarrow> [] \<in> set (tl (split_on CHR ''/'' s)) \<longleftrightarrow> last s = CHR ''/'' \<or> contains_sub s ''//''"
proof (induction s)
  case (Cons c s)
  show ?case
  proof (cases "s = []")
    case True
    then show ?thesis by (auto simp: has_prefix_def)
  next
    case False
    obtain y ys where y: "split_on CHR ''/'' s = y # ys" by (cases "split_on CHR ''/'' s") auto
    have "y = [] \<longleftrightarrow> hd s = CHR ''/''" using hd_split_on_empty [of "CHR ''/''" s] y False by simp
    moreover have "(\<exists>t. s = CHR ''/'' # t) \<longleftrightarrow> hd s = CHR ''/''" using False by (cases s) auto
    ultimately show ?thesis
      using Cons.IH [OF False] False y
      by (auto simp: contains_slashes_Cons simp del: contains_sub.simps)
  qed
qed simp

lemma empty_segment_iff:
  assumes "s \<noteq> []"
  shows "[] \<in> set (split_on CHR ''/'' s) \<longleftrightarrow>
    has_prefix s ''/'' \<or> has_suffix s ''/'' \<or> contains_sub s ''//''"
proof -
  obtain y ys where y: "split_on CHR ''/'' s = y # ys" by (cases "split_on CHR ''/'' s") auto
  have "y = [] \<longleftrightarrow> has_prefix s ''/''"
    using hd_split_on_empty [of "CHR ''/''" s] y assms by (cases s) (auto simp: has_prefix_slash)
  then show ?thesis
    using empty_segment_tail [OF assms] y assms by (auto simp: has_suffix_slash)
qed

lemma split_on_chars:
  "list_all P s \<Longrightarrow> seg \<in> set (split_on c s) \<Longrightarrow> list_all P seg"
  by (induction s arbitrary: seg) (auto split: if_splits list.splits)

lemma split_on_chars_iff:
  "list_all (\<lambda>x. P x \<or> x = c) s \<longleftrightarrow> (\<forall>seg \<in> set (split_on c s). list_all (\<lambda>x. P x \<or> x = c) seg)"
  by (induction s) (auto split: list.splits)

definition path_segments_ok :: "string list \<Rightarrow> bool" where
  "path_segments_ok segs \<longleftrightarrow> list_all (\<lambda>seg. seg \<noteq> [] \<and> list_all id_char seg) segs"

lemma CheckPath_iff:
  "CheckPath cfg path = Inr () \<longleftrightarrow>
     int (length path) \<le> MaxPathLength cfg \<and> path_segments_ok (split_on CHR ''/'' path)"
proof (cases "path = []")
  case False
  have "list_all (\<lambda>c. id_char c \<or> c = CHR ''/'') path \<longleftrightarrow>
    (\<forall>seg \<in> set (split_on CHR ''/'' path). list_all id_char seg)"
    by (subst split_on_chars_iff) (use split_on_no_sep [of _ "CHR ''/''" path] in
        \<open>auto simp: list_all_iff\<close>)
  then show ?thesis
    using False empty_segment_iff [OF False]
    by (auto simp: CheckPath_def pathRegex_def path_segments_ok_def list_all_iff)
qed (simp add: CheckPath_def path_segments_ok_def)

lemma check_ids_butlast: "check_ids cfg parts = Inr () \<Longrightarrow> check_ids cfg (butlast parts) = Inr ()"
proof (induction cfg parts rule: check_ids.induct)
  case (1 cfg c d parts)
  then show ?case by (cases parts) (auto split: if_splits)
qed auto

lemma length_join_butlast:
  assumes "parts \<noteq> []" "butlast parts \<noteq> []"
  shows "join_with [c] parts = join_with [c] (butlast parts) @ c # last parts"
  using assms
proof (induction parts rule: rev_induct)
  case (snoc x xs)
  have "join_with [c] (ys @ [x]) = join_with [c] ys @ c # x" if "ys \<noteq> []" for ys
    using that by (induction "[c]" ys rule: join_with.induct) auto
  then show ?case using snoc by simp
qed simp

text \<open>Decimal integers: the characters and the length of what \<^verbatim>\<open>%d\<close> prints.\<close>

lemma digit_char_id: "n < 10 \<Longrightarrow> id_char (digit_char n)"
proof -
  assume "n < 10"
  then have "n \<in> {0, 1, 2, 3, 4, 5, 6, 7, 8, 9}" by auto
  then show ?thesis by (auto simp: digit_char_def id_char_def less_eq_char_def)
qed

lemma nat_digits_nonempty: "nat_digits n \<noteq> []"
  by (subst nat_digits.simps) simp

lemma nat_digits_id: "list_all id_char (nat_digits n)"
  by (induction n rule: nat_digits.induct) (subst nat_digits.simps, auto simp: digit_char_id)

lemma nat_digits_length: "n < 10 ^ k \<Longrightarrow> 0 < k \<Longrightarrow> length (nat_digits n) \<le> k"
proof (induction n arbitrary: k rule: nat_digits.induct)
  case (1 n)
  show ?case
  proof (cases "n < 10")
    case True
    then show ?thesis using 1 by (subst nat_digits.simps) simp
  next
    case False
    then obtain j where j: "k = Suc j" "0 < j" using 1 by (cases k; cases "k - 1") auto
    then have "n div 10 < 10 ^ j" using 1 by auto
    then show ?thesis using 1 False j by (subst nat_digits.simps) simp
  qed
qed

lemma format_int_id:
  assumes "- (2 ^ 63) \<le> i" and "i < 2 ^ 63"
  shows "idRegex (format_int i)"
proof -
  have "nat (- i) < 10 ^ 60" "nat i < 10 ^ 60" using assms by simp_all
  then have "length (nat_digits (nat (- i))) \<le> 60" "length (nat_digits (nat i)) \<le> 60"
    by (auto intro: nat_digits_length)
  moreover have "1 \<le> length (nat_digits (nat i))" using nat_digits_nonempty [of "nat i"] by (cases "nat_digits (nat i)") auto
  ultimately show ?thesis
    using nat_digits_id by (simp add: format_int_def idRegex_def) (simp add: id_char_def)
qed

lemma format_sint [simp]:
  "idRegex (format_int (sint (v :: 64 word)))" "idRegex (format_int (sint (w :: 32 word)))"
  using sint_ge [of v] sint_lt [of v] sint_ge [of w] sint_lt [of w]
  by (auto intro!: format_int_id)

section \<open>Properties\<close>

text \<open>
  C26: a path is accepted exactly when it is short enough and all its slash-separated segments are
  non-empty words over letters, digits, underscore, hyphen and dot.
\<close>

theorem CheckPath_accepts:
  "CheckPath cfg path = Inr () \<longleftrightarrow>
     int (length path) \<le> MaxPathLength cfg \<and>
     list_all (\<lambda>seg. seg \<noteq> [] \<and> list_all id_char seg) (split_on CHR ''/'' path)"
  using CheckPath_iff by (simp add: path_segments_ok_def)

text \<open>
  C25: \<open>ExplodeFullpath\<close> splits a document path into its collection and its last segment, so that
  joining them gives the path back and both parts are valid paths of their kind; a collection path is
  returned whole with an empty document ID.
\<close>

theorem ExplodeFullpath_joins:
  assumes "ExplodeFullpath cfg path = Inr (collection, docId)"
  shows "if docId = '''' then collection = path \<and> CheckCollectionPath cfg path = Inr ()
    else path = collection @ ''/'' @ docId \<and> CheckDocumentPath cfg path = Inr () \<and>
      CheckCollectionPath cfg collection = Inr ()"
proof -
  let ?parts = "split_on CHR ''/'' path"
  have p: "CheckPath cfg path = Inr ()" "check_ids cfg ?parts = Inr ()"
    and r: "(collection, docId) = (if length ?parts mod 2 \<noteq> 0 then (path, '''')
      else (join_with ''/'' (butlast ?parts), last ?parts))"
    using assms by (auto simp: ExplodeFullpath_def result_simps Let_def split: if_splits)
  note ok = p(1) [unfolded CheckPath_iff]
  show ?thesis
  proof (cases "length ?parts mod 2 = 0")
    case False
    then show ?thesis using r p by (simp add: CheckCollectionPath_def)
  next
    case True
    have nonempty: "?parts \<noteq> []" by simp
    then have two: "2 \<le> length ?parts" "butlast ?parts \<noteq> []"
      using True by (cases ?parts; cases "tl ?parts"; auto)+
    have "last ?parts \<noteq> []"
      using ok last_in_set [OF nonempty] by (auto simp: path_segments_ok_def list_all_iff)
    moreover have j: "path = collection @ ''/'' @ docId"
      using length_join_butlast [OF nonempty two(2), of "CHR ''/''"] r True join_split_on [of "CHR ''/''" path]
      by simp
    moreover have split: "split_on CHR ''/'' collection = butlast ?parts"
      using r True two(2) split_on_no_sep [of _ "CHR ''/''" path]
      by (simp add: split_on_join in_set_butlastD)
    moreover have "path_segments_ok (butlast ?parts)"
      using ok by (auto simp: path_segments_ok_def list_all_iff dest: in_set_butlastD)
    then have "CheckPath cfg collection = Inr ()"
      unfolding CheckPath_iff using ok j split by simp
    moreover have "length (butlast ?parts) mod 2 \<noteq> 0" unfolding length_butlast using True two(1) by presburger
    ultimately show ?thesis
      using r p True two by (simp add: CheckCollectionPath_def CheckDocumentPath_def)
  qed
qed

text \<open>
  C27: after \<open>ValidateDocument\<close> succeeds the document has no ID or one that \<open>CheckDocumentID\<close> accepts,
  also when an integer ID was rewritten, and no other field has changed.
\<close>

theorem ValidateDocument_checked:
  assumes "ValidateDocument (Some doc) = Inr doc'"
  shows "(doc' ''id'' = None \<or> CheckDocumentID (GetID doc')) \<and> (k \<noteq> ''id'' \<longrightarrow> doc' k = doc k)"
proof (cases "doc ''id''")
  case (Some v)
  then show ?thesis
    using assms
    by (cases v) (auto simp: ValidateDocument_def CheckDocumentID_def GetID_def split: if_splits)
qed (use assms in \<open>auto simp: ValidateDocument_def\<close>)

text \<open>
  C28: a document built by \<open>NewStoredDoc\<close> in a concrete collection under a document ID without slash
  or NUL has that ID as its logical identity and in its data, whatever the data held before, and no
  protected field is left in the data.
\<close>

theorem NewStoredDoc_identity:
  assumes "ValidateConcreteCollection collection = Inr ()" and "database \<noteq> ''''"
    and "docid \<noteq> ''''" and "\<not> contains_any docid [CHR ''/'', CHR 0x00]"
  shows "LogicalDocumentID (NewStoredDoc hash16 now database collection docid data) = Inr docid \<and>
    GetID (Data (NewStoredDoc hash16 now database collection docid data)) = docid \<and>
    (\<forall>k \<in> {''version'', ''updatedAt'', ''createdAt'', ''collection'', ''deleted''}.
       Data (NewStoredDoc hash16 now database collection docid data) k = None)"
proof -
  have f: "collection @ ''/'' @ docid = (collection @ ''/'') @ docid" by simp
  have "has_prefix (collection @ ''/'' @ docid) (collection @ ''/'')"
    "trim_prefix (collection @ ''/'' @ docid) (collection @ ''/'') = docid"
    unfolding f by (rule has_prefix_append, rule trim_prefix_append)
  then have "LogicalDocumentID (NewStoredDoc hash16 now database collection docid data) = Inr docid"
    using assms by (simp add: LogicalDocumentID_def NewStoredDoc_def Let_def)
  moreover have d: "Data (NewStoredDoc hash16 now database collection docid data) =
      StripProtectedFields (data(''id'' \<mapsto> Str docid))"
    by (simp add: NewStoredDoc_def Let_def)
  moreover have "GetID (StripProtectedFields (data(''id'' \<mapsto> Str docid))) = docid"
    by (simp add: GetID_def StripProtectedFields_def)
  moreover have "StripProtectedFields d k = None"
    if "k \<in> {''version'', ''updatedAt'', ''createdAt'', ''collection'', ''deleted''}" for d k
    using that by (auto simp: StripProtectedFields_def)
  ultimately show ?thesis by metis
qed

text \<open>
  C29: a stored document that is flattened and read back by the realtime hub keeps its collection and
  its timestamps but loses its version: \<open>FlattenStorageDocument\<close> stores an \<^verbatim>\<open>int64\<close> where \<open>GetVersion\<close>
  accepts only a double, so the version read back is always minus one.
\<close>

theorem documentToStoredDoc_version:
  "let back = documentToStoredDoc outside (FlattenStorageDocument doc) (Collection doc) in
   DocVersion back = - 1 \<and> UpdatedAt back = UpdatedAt doc \<and> CreatedAt back = CreatedAt doc \<and>
   Collection back = Collection doc"
  by (simp add: documentToStoredDoc_def FlattenStorageDocument_def GetVersion_def Let_def)

lemma sample_chars: "list_all id_char ''users1''"
  by (simp add: id_char_def less_eq_char_def)

theorem ExplodeFullpath_joins_witness:
  "ExplodeFullpath DefaultValidationConfig ''users/u1'' = Inr (''users'', ''u1'') \<and>
   ''users/u1'' = ''users'' @ ''/'' @ ''u1'' \<and> CheckCollectionPath DefaultValidationConfig ''users'' = Inr ()"
proof -
  have split: "split_on CHR ''/'' ''users/u1'' = [''users'', ''u1'']" by simp
  have "CheckPath DefaultValidationConfig ''users/u1'' = Inr ()"
    unfolding CheckPath_iff split path_segments_ok_def
    using sample_chars by (simp add: DefaultValidationConfig_def)
  moreover have "check_ids DefaultValidationConfig [''users'', ''u1''] = Inr ()"
    by (simp add: DefaultValidationConfig_def)
  ultimately have e: "ExplodeFullpath DefaultValidationConfig ''users/u1'' = Inr (''users'', ''u1'')"
    unfolding ExplodeFullpath_def split by (simp only: bind_result_simps Let_def) simp
  have "''u1'' \<noteq> ''''" by simp
  then show ?thesis using ExplodeFullpath_joins [OF e] e by (simp only: if_False)
qed

lemma digit_chars: "digit_char 4 = CHR ''4''" "digit_char 2 = CHR ''2''"
  by code_simp+

theorem ValidateDocument_checked_witness:
  "CheckDocumentID (GetID [''id'' \<mapsto> Str ''42'', ''n'' \<mapsto> NilValue])"
proof -
  have "ValidateDocument (Some [''id'' \<mapsto> GoInt 42, ''n'' \<mapsto> NilValue]) =
      Inr [''id'' \<mapsto> Str ''42'', ''n'' \<mapsto> NilValue]"
    by (simp add: ValidateDocument_def format_int_def nat_digits.simps digit_chars fun_upd_twist)
  from ValidateDocument_checked [OF this] show ?thesis by simp
qed

theorem NewStoredDoc_identity_witness:
  "LogicalDocumentID (NewStoredDoc (\<lambda>s. s) 0 ''db'' ''users'' ''u1'' [''version'' \<mapsto> NilValue]) = Inr ''u1''"
  using NewStoredDoc_identity [of "''users''" "''db''" "''u1''" "\<lambda>s. s" 0 "[''version'' \<mapsto> NilValue]"]
  by (simp add: ValidateConcreteCollection_def contains_any_def)

end
