(* ===== verification/Events.thy ===== *)
theory Events
  imports Documents Heaps "HOL-Library.Product_Lexorder"
begin

text \<open>
  Change events of the puller (\<^verbatim>\<open>internal/puller/events\<close>): operations, cluster times, the keys under which
  events are buffered, and the translation of a store change into the event the rest of the system sees.
\<close>

section \<open>Events\<close>

datatype store_operation =
  StoreOperationInsert | StoreOperationUpdate | StoreOperationReplace | StoreOperationDelete | OtherOperation string

fun op_IsValid :: "store_operation \<Rightarrow> bool" where
  "op_IsValid (OtherOperation _) = False"
| "op_IsValid _ = True"

record cluster_time =
  TimeT :: "32 word"
  TimeI :: "32 word"

definition ct_Compare :: "cluster_time \<Rightarrow> cluster_time \<Rightarrow> int" where
  "ct_Compare c other =
     (if TimeT c < TimeT other then -1
      else if TimeT c > TimeT other then 1
      else if TimeI c < TimeI other then -1
      else if TimeI c > TimeI other then 1
      else 0)"

definition ct_IsZero :: "cluster_time \<Rightarrow> bool" where
  "ct_IsZero c \<longleftrightarrow> TimeT c = 0 \<and> TimeI c = 0"

record truncated_array =
  TruncField :: string
  NewSize :: int

record update_description =
  UpdatedFields :: document
  RemovedFields :: "string list"
  TruncatedArrays :: "truncated_array list"

record store_change_event =
  EventID :: string
  EvDatabase :: string
  MgoColl :: string
  MgoDocID :: string
  OpType :: store_operation
  FullDocument :: "stored_doc option"
  UpdateDesc :: "update_description option"
  EvClusterTime :: cluster_time
  TxnNumber :: "64 word option"
  Timestamp :: "64 word"
  Backend :: string

section \<open>Buffer keys\<close>

text \<open>The digits are written from the end of a buffer of ten bytes, which a 32-bit number never exceeds.\<close>

function uint_digits :: "32 word \<Rightarrow> string \<Rightarrow> string" where
  "uint_digits v buf = (if v > 0 then uint_digits (v div 10) (digit_char (unat (v mod 10)) # buf) else buf)"
  by pat_completeness auto
termination
proof (relation "measure (\<lambda>(v, _). unat v)")
  fix v :: "32 word" and buf :: string
  assume "v > 0"
  then have "0 < unat v" by (simp add: word_less_nat_alt)
  then show "((v div 10, digit_char (unat (v mod 10)) # buf), v, buf) \<in> measure (\<lambda>(v, _). unat v)"
    by (simp add: unat_div)
qed simp

declare uint_digits.simps [simp del]

definition uintToString :: "32 word \<Rightarrow> string" where
  "uintToString v = (if v = 0 then ''0'' else uint_digits v [])"

definition formatUint32 :: "32 word \<Rightarrow> string" where
  "formatUint32 v = (let n = ''0000000000'' @ uintToString v in drop (length n - 10) n)"

definition FormatBufferKey :: "cluster_time \<Rightarrow> string \<Rightarrow> string" where
  "FormatBufferKey ct eventID = formatUint32 (TimeT ct) @ ''-'' @ formatUint32 (TimeI ct) @ ''-'' @ eventID"

definition BufferKey :: "store_change_event \<Rightarrow> string" where
  "BufferKey e = FormatBufferKey (EvClusterTime e) (EventID e)"

section \<open>Fixed-width decimals\<close>

fun decimal :: "nat \<Rightarrow> nat \<Rightarrow> string" where
  "decimal 0 n = []"
| "decimal (Suc k) n = digit_char (n div 10 ^ k) # decimal k (n mod 10 ^ k)"

lemma length_decimal [simp]: "length (decimal k n) = k"
  by (induction k arbitrary: n) auto

lemma digit_char_less: "a < 10 \<Longrightarrow> b < 10 \<Longrightarrow> digit_char a < digit_char b \<longleftrightarrow> a < b"
  by (simp add: digit_char_def less_char_def)

lemma digit_char_eq: "a < 10 \<Longrightarrow> b < 10 \<Longrightarrow> digit_char a = digit_char b \<longleftrightarrow> a = b"
  using digit_char_less [of a b] digit_char_less [of b a] by (metis less_irrefl linorder_neqE_nat)

lemma decimal_less: "n < 10 ^ k \<Longrightarrow> m < 10 ^ k \<Longrightarrow> decimal k n < decimal k m \<longleftrightarrow> n < m"
proof (induction k arbitrary: n m)
  case (Suc k)
  let ?q = "\<lambda>x. x div (10::nat) ^ k" and ?r = "\<lambda>x. x mod (10::nat) ^ k"
  have q: "?q n < 10" "?q m < 10" using Suc.prems by (simp_all add: less_mult_imp_div_less mult.commute)
  have "decimal (Suc k) n < decimal (Suc k) m \<longleftrightarrow> ?q n < ?q m \<or> ?q n = ?q m \<and> ?r n < ?r m"
    using Suc.IH [of "?r n" "?r m"] by (simp add: digit_char_less [OF q] digit_char_eq [OF q])
  also have "\<dots> \<longleftrightarrow> n < m" using div_mod_less [of "10 ^ k" n m] by simp
  finally show ?case .
qed simp
lemma zero_char: "digit_char 0 = CHR ''0''"
  by code_simp

lemma decimal_snoc: "n < 10 ^ Suc k \<Longrightarrow> decimal (Suc k) n = decimal k (n div 10) @ [digit_char (n mod 10)]"
proof (induction k arbitrary: n)
  case (Suc k)
  have "n mod 10 ^ Suc k < 10 ^ Suc k" by simp
  from Suc.IH [OF this] have "decimal (Suc (Suc k)) n = digit_char (n div 10 ^ Suc k) #
      decimal k (n mod 10 ^ Suc k div 10) @ [digit_char (n mod 10 ^ Suc k mod 10)]" by simp
  also have "n mod 10 ^ Suc k div 10 = n div 10 mod 10 ^ k" by (simp add: mod_mult_div)
  also have "n mod 10 ^ Suc k mod 10 = n mod 10" by (simp add: mod_mod_cancel)
  also have "n div 10 ^ Suc k = n div 10 div 10 ^ k" by (simp add: div_mult2_eq)
  finally show ?case by simp
qed simp

lemma decimal_pad:
  "n < 10 ^ k \<Longrightarrow> 0 < k \<Longrightarrow> decimal k n = replicate (k - length (nat_digits n)) CHR ''0'' @ nat_digits n"
proof (induction k arbitrary: n)
  case (Suc k)
  have zeros: "decimal j 0 = replicate j CHR ''0''" for j by (induction j) (simp_all add: zero_char)
  note snoc = decimal_snoc [OF Suc.prems(1)]
  show ?case
  proof (cases "n < 10")
    case True
    then have "nat_digits n = [digit_char n]" by (subst nat_digits.simps) simp
    then show ?thesis using True zeros [of k] by (simp only: snoc) simp
  next
    case False
    then have d: "nat_digits n = nat_digits (n div 10) @ [digit_char (n mod 10)]" by (subst nat_digits.simps) simp
    have "n div 10 < 10 ^ k" using Suc.prems(1) by (simp add: less_mult_imp_div_less mult.commute)
    moreover have "0 < k" using False Suc.prems(1) by (cases k) auto
    ultimately show ?thesis using Suc.IH [of "n div 10"] by (simp only: snoc d) simp
  qed
qed simp

lemma uint_digits_nat: "uint_digits v buf = (if v = 0 then buf else nat_digits (unat v) @ buf)"
proof (induction v buf rule: uint_digits.induct)
  case (1 v buf)
  show ?case
  proof (cases "v = 0")
    case False
    then have v: "v > 0" "0 < unat v" by (simp_all add: word_gt_0 unat_gt_0)
    have ten: "unat (v div 10) = unat v div 10" "unat (v mod 10) = unat v mod 10" by (simp_all add: unat_div unat_mod)
    then have "v div 10 = 0 \<longleftrightarrow> unat v < 10" by (metis div_eq_0_iff unat_eq_zero zero_neq_numeral)
    then show ?thesis using 1 [OF v(1)] v False
      by (subst uint_digits.simps) (subst nat_digits.simps, auto simp: ten)
  qed (simp add: uint_digits.simps)
qed

lemma formatUint32_decimal: "formatUint32 v = decimal 10 (unat v)"
proof -
  have u: "uintToString v = nat_digits (unat v)"
    using nat_digits.simps [of 0] by (auto simp: uintToString_def uint_digits_nat zero_char)
  have "unat v < 2 ^ LENGTH(32)" by (rule unsigned_less)
  then have b: "unat v < 10 ^ 10" by simp
  have len: "length (nat_digits (unat v)) \<le> 10" by (rule nat_digits_length [OF b]) simp
  have "''0000000000'' = replicate 10 CHR ''0''" by (simp add: numeral_eq_Suc)
  then show ?thesis
    using decimal_pad [OF b] len by (simp add: formatUint32_def u Let_def drop_append)
qed

section \<open>Transformation\<close>

datatype event_type = EventCreate | EventUpdate | EventDelete

datatype transform_error = ErrDeleteOPIgnored | ErrUnknownOpType | NilChange

text \<open>An error is represented by its message, a time by its nanoseconds and the zero time by \<open>None\<close>.\<close>

record puller_event =
  Change :: "store_change_event option"
  Progress :: string
  EvReady :: bool
  EvError :: "string option"
  Retryable :: bool
  AdmissionState :: string
  AdmissionGeneration :: "64 word"
  AdmissionReason :: string
  TransportGeneration :: "64 word"
  admissionReceived :: "int option"

record syntrix_change_event =
  ChangeId :: string
  ChangeDatabase :: string
  ChangeType :: event_type
  ChangeDocument :: "stored_doc option"
  ChangeUpdateDesc :: "update_description option"
  ChangeTimestamp :: "64 word"
  ChangeProgress :: string

text \<open>A nil change is dereferenced and panics.\<close>

definition Transform :: "puller_event \<Rightarrow> transform_error + syntrix_change_event" where
  "Transform pe =
     (case Change pe of None \<Rightarrow> Inl NilChange
      | Some c \<Rightarrow>
          if OpType c = StoreOperationDelete then Inl ErrDeleteOPIgnored
          else
            let evt = (\<lambda>ty. \<lparr>ChangeId = EventID c, ChangeDatabase = EvDatabase c, ChangeType = ty,
                  ChangeDocument = FullDocument c, ChangeUpdateDesc = UpdateDesc c, ChangeTimestamp = Timestamp c,
                  ChangeProgress = Progress pe\<rparr>) in
            case OpType c of
              StoreOperationInsert \<Rightarrow> Inr (evt EventCreate)
            | StoreOperationUpdate \<Rightarrow>
                Inr (evt (case FullDocument c of Some d \<Rightarrow> if Deleted d then EventDelete else EventUpdate | None \<Rightarrow> EventUpdate))
            | StoreOperationReplace \<Rightarrow>
                Inr (evt (case FullDocument c of Some d \<Rightarrow> if Deleted d then EventDelete else EventCreate | None \<Rightarrow> EventCreate))
            | _ \<Rightarrow> Inl ErrUnknownOpType)"

section \<open>Properties\<close>

lemma ct_Compare_sign:
  "ct_Compare a b < 0 \<longleftrightarrow> (TimeT a, TimeI a) < (TimeT b, TimeI b)"
  "ct_Compare a b = 0 \<longleftrightarrow> a = b"
  "ct_Compare a b > 0 \<longleftrightarrow> (TimeT b, TimeI b) < (TimeT a, TimeI a)"
  by (auto simp: ct_Compare_def less_prod_def')

lemma formatUint32_less: "formatUint32 v < formatUint32 w \<longleftrightarrow> v < w"
proof -
  have "unat v < 2 ^ LENGTH(32)" "unat w < 2 ^ LENGTH(32)" by (rule unsigned_less)+
  then show ?thesis by (simp add: formatUint32_decimal decimal_less word_less_nat_alt)
qed

lemma formatUint32_eq: "formatUint32 v = formatUint32 w \<longleftrightarrow> v = w"
  using formatUint32_less by (metis less_irrefl linorder_neqE)

lemma length_formatUint32 [simp]: "length (formatUint32 v) = 10"
  by (simp add: formatUint32_decimal)

lemma buffer_key_less:
  "FormatBufferKey ct e < FormatBufferKey ct' e' \<longleftrightarrow> ct_Compare ct ct' < 0 \<or> ct = ct' \<and> e < e'"
proof -
  have "FormatBufferKey ct e < FormatBufferKey ct' e' \<longleftrightarrow>
      TimeT ct < TimeT ct' \<or> TimeT ct = TimeT ct' \<and> (TimeI ct < TimeI ct' \<or> TimeI ct = TimeI ct' \<and> e < e')"
    unfolding FormatBufferKey_def
    by (subst lex_append_length, simp, subst append_Cons, subst append_Cons, simp add: formatUint32_less formatUint32_eq)
      (subst lex_append_length, simp, simp add: formatUint32_less formatUint32_eq)
  then show ?thesis by (auto simp: ct_Compare_sign less_prod_def')
qed

text \<open>
  C37: Buffered events sort by time.  The key under which an event is buffered precedes another one's, as a byte
  string, exactly when its cluster time is earlier, or the times are equal and its ID comes first; so a scan of
  the buffer in key order is a scan in cluster-time order, for every pair of 32-bit timestamps.
\<close>

theorem FormatBufferKey_order:
  "FormatBufferKey ct e < FormatBufferKey ct' e' \<longleftrightarrow> ct_Compare ct ct' < 0 \<or> ct_Compare ct ct' = 0 \<and> e < e'"
  using buffer_key_less by (simp add: ct_Compare_sign)

end
