(* ===== verification/EventIDs.thy ===== *)
theory EventIDs
  imports Events
begin

text \<open>
  Event identifiers (\<^verbatim>\<open>internal/puller/normalizer/normalizer.go\<close>) and progress markers
  (\<^verbatim>\<open>internal/puller/cursor/progress.go\<close>): an identifier starts with the cluster time of its event, and the
  marker of a consumer keeps the last identifier of each backend.
\<close>

section \<open>Scanning\<close>

text \<open>
  What \<^verbatim>\<open>fmt.Sscanf\<close> does with \<^verbatim>\<open>%d-%d-%s\<close>: every verb first skips spaces, and a line break is an error.  The
  spaces are those of the library's table, as UTF-8.
\<close>

datatype scan_error = UnexpectedNewline | UnexpectedEOF | ExpectedInteger | IntegerOverflow string | NoMatch

definition space_runes :: "string list" where
  "space_runes = [[CHR 0x09], [CHR 0x0B], [CHR 0x0C], [CHR 0x0D], [CHR 0x20], [CHR 0xC2, CHR 0x85], [CHR 0xC2, CHR 0xA0],
     [CHR 0xE1, CHR 0x9A, CHR 0x80], [CHR 0xE2, CHR 0x80, CHR 0x80], [CHR 0xE2, CHR 0x80, CHR 0x81],
     [CHR 0xE2, CHR 0x80, CHR 0x82], [CHR 0xE2, CHR 0x80, CHR 0x83], [CHR 0xE2, CHR 0x80, CHR 0x84],
     [CHR 0xE2, CHR 0x80, CHR 0x85], [CHR 0xE2, CHR 0x80, CHR 0x86], [CHR 0xE2, CHR 0x80, CHR 0x87],
     [CHR 0xE2, CHR 0x80, CHR 0x88], [CHR 0xE2, CHR 0x80, CHR 0x89], [CHR 0xE2, CHR 0x80, CHR 0x8A],
     [CHR 0xE2, CHR 0x80, CHR 0xA8], [CHR 0xE2, CHR 0x80, CHR 0xA9], [CHR 0xE2, CHR 0x80, CHR 0xAF],
     [CHR 0xE2, CHR 0x81, CHR 0x9F], [CHR 0xE3, CHR 0x80, CHR 0x80]]"

definition space_length :: "string \<Rightarrow> nat" where
  "space_length s = (case find (\<lambda>r. take (length r) s = r) space_runes of None \<Rightarrow> 0 | Some r \<Rightarrow> length r)"

function SkipSpace :: "string \<Rightarrow> scan_error + string" where
  "SkipSpace s =
     (if s = [] then Inr []
      else if hd s = CHR 0x0A then Inl UnexpectedNewline
      else if space_length s = 0 then Inr s
      else SkipSpace (drop (space_length s) s))"
  by pat_completeness auto
termination
  by (relation "measure length") auto

declare SkipSpace.simps [simp del]

definition is_digit :: "char \<Rightarrow> bool" where
  "is_digit c \<longleftrightarrow> 48 \<le> (of_char c :: nat) \<and> (of_char c :: nat) \<le> 57"

definition digits_value :: "string \<Rightarrow> nat" where
  "digits_value s = foldl (\<lambda>n c. n * 10 + (of_char c - 48)) 0 s"

definition scanUint32 :: "string \<Rightarrow> scan_error + (32 word \<times> string)" where
  "scanUint32 s =
     bind_result (SkipSpace s) (\<lambda>r.
       let tok = takeWhile is_digit r in
       if r = [] then Inl UnexpectedEOF
       else if tok = [] then Inl ExpectedInteger
       else if digits_value tok \<ge> 2 ^ 32 then Inl (IntegerOverflow tok)
       else Inr (of_nat (digits_value tok), dropWhile is_digit r))"

definition scan_dash :: "string \<Rightarrow> scan_error + string" where
  "scan_dash s = (case s of [] \<Rightarrow> Inl UnexpectedEOF | c # r \<Rightarrow> if c = CHR ''-'' then Inr r else Inl NoMatch)"

definition scan_word :: "string \<Rightarrow> scan_error + string" where
  "scan_word s = bind_result (SkipSpace s) (\<lambda>r. if r = [] then Inl UnexpectedEOF else Inr r)"

section \<open>Event identifiers\<close>

definition hex_char :: "nat \<Rightarrow> char" where
  "hex_char n = ''0123456789abcdef'' ! n"

definition hex_string :: "byte list \<Rightarrow> string" where
  "hex_string bs = concat (map (\<lambda>b. [hex_char (unat b div 16), hex_char (unat b mod 16)]) bs)"

text \<open>\<open>sha256\<close> is the digest of the standard library.\<close>

definition generateEventID :: "(string \<Rightarrow> byte list) \<Rightarrow> cluster_time \<Rightarrow> string \<Rightarrow> string \<Rightarrow> string" where
  "generateEventID sha256 ct collection docID =
     (let data = collection @ ''/'' @ docID; hashStr = hex_string (take 8 (sha256 data)) in
      nat_digits (unat (TimeT ct)) @ ''-'' @ nat_digits (unat (TimeI ct)) @ ''-'' @ hashStr)"

text \<open>The operands are always three once the scan has succeeded.\<close>

definition ParseEventID :: "string \<Rightarrow> scan_error + cluster_time" where
  "ParseEventID s =
     bind_result (scanUint32 s) (\<lambda>(t, r).
     bind_result (scan_dash r) (\<lambda>r.
     bind_result (scanUint32 r) (\<lambda>(i, r).
     bind_result (scan_dash r) (\<lambda>r.
     bind_result (scan_word r) (\<lambda>_. Inr \<lparr>TimeT = t, TimeI = i\<rparr>)))))"

section \<open>Progress markers\<close>

text \<open>A nil map of positions and an empty one are not distinguished: every operation treats them alike.\<close>

record progress_marker =
  PmPositions :: "string \<Rightarrow> string option"
  PmLineages :: "(string \<Rightarrow> string option) option"

definition NewProgressMarker :: progress_marker where
  "NewProgressMarker = \<lparr>PmPositions = Map.empty, PmLineages = None\<rparr>"

definition SetPosition :: "string \<Rightarrow> string \<Rightarrow> progress_marker \<Rightarrow> progress_marker" where
  "SetPosition backend eventID pm = pm\<lparr>PmPositions := (PmPositions pm)(backend \<mapsto> eventID)\<rparr>"

definition GetPosition :: "string \<Rightarrow> progress_marker \<Rightarrow> string" where
  "GetPosition backend pm = (case PmPositions pm backend of None \<Rightarrow> '''' | Some eventID \<Rightarrow> eventID)"

definition pm_Clone :: "progress_marker option \<Rightarrow> progress_marker" where
  "pm_Clone pm = (case pm of None \<Rightarrow> NewProgressMarker
     | Some p \<Rightarrow> \<lparr>PmPositions = PmPositions p, PmLineages = PmLineages p\<rparr>)"

section \<open>Scanning what was printed\<close>

lemma digit_char_code: "n < 10 \<Longrightarrow> (of_char (digit_char n) :: nat) = 48 + n"
  by (simp add: digit_char_def)

lemma digits_value_snoc: "digits_value (s @ [c]) = digits_value s * 10 + (of_char c - 48)"
  by (simp add: digits_value_def)

lemma nat_digits_scan: "digits_value (nat_digits n) = n \<and> nat_digits n \<noteq> [] \<and> list_all is_digit (nat_digits n)"
proof (induction n rule: nat_digits.induct)
  case (1 n)
  show ?case
  proof (cases "n < 10")
    case True
    then have d: "nat_digits n = [digit_char n]" by (subst nat_digits.simps) simp
    show ?thesis using True unfolding d by (simp add: digits_value_def is_digit_def digit_char_code)
  next
    case False
    then have d: "nat_digits n = nat_digits (n div 10) @ [digit_char (n mod 10)]" by (subst nat_digits.simps) simp
    show ?thesis using 1 False unfolding d by (simp add: digits_value_snoc is_digit_def digit_char_code)
  qed
qed

lemma skip_none:
  assumes "s \<noteq> []" and "hd s \<notin> set (map hd space_runes)" and "hd s \<noteq> CHR 0x0A"
  shows "SkipSpace s = Inr s"
proof -
  have "take (length r) s \<noteq> r" if "r \<in> set space_runes" for r
  proof
    assume t: "take (length r) s = r"
    have "r \<noteq> []" using that by (auto simp: space_runes_def)
    then have "hd s = hd r" using t by (metis hd_take length_greater_0_conv)
    then show False using assms(2) that by auto
  qed
  then have "find (\<lambda>r. take (length r) s = r) space_runes = None" by (simp add: find_None_iff)
  then show ?thesis using assms by (simp add: SkipSpace.simps space_length_def)
qed

lemma skip_printable:
  assumes "s \<noteq> []" and "33 \<le> (of_char (hd s) :: nat)" and "(of_char (hd s) :: nat) < 128"
  shows "SkipSpace s = Inr s"
  by (rule skip_none [OF assms(1)]) (use assms(2,3) in \<open>auto simp: space_runes_def\<close>)

lemma scan_printed:
  assumes "n < 2 ^ 32" and "rest = [] \<or> \<not> is_digit (hd rest)"
  shows "scanUint32 (nat_digits n @ rest) = Inr (of_nat n, rest)"
proof -
  let ?d = "nat_digits n"
  have d: "digits_value ?d = n" "?d \<noteq> []" "list_all is_digit ?d" using nat_digits_scan by simp_all
  have "is_digit (hd (?d @ rest))" using d(2,3) by (cases ?d) simp_all
  then have "SkipSpace (?d @ rest) = Inr (?d @ rest)"
    using d(2) by (intro skip_printable) (auto simp: is_digit_def)
  moreover have "takeWhile is_digit (?d @ rest) = ?d" "dropWhile is_digit (?d @ rest) = rest"
    using d(3) assms(2)
    by (cases rest; auto simp: list_all_iff takeWhile_append2 dropWhile_append2 takeWhile_eq_Nil_iff neq_Nil_conv)+
  ultimately show ?thesis using d assms(1) by (simp add: scanUint32_def)
qed

lemma hex_head:
  assumes "bs \<noteq> []"
  shows "hex_string bs \<noteq> [] \<and> 33 \<le> (of_char (hd (hex_string bs)) :: nat) \<and> (of_char (hd (hex_string bs)) :: nat) < 128"
proof -
  obtain b r where bs: "bs = b # r" using assms by (cases bs) auto
  have "unat b < 256" using unsigned_less [of b] by simp
  then have "unat b div 16 < 16" by simp
  then have "hex_char (unat b div 16) \<in> set ''0123456789abcdef''" unfolding hex_char_def by (intro nth_mem) simp
  then show ?thesis unfolding bs hex_string_def by auto
qed

section \<open>Properties\<close>

text \<open>
  C38: The cluster time of an event can be recovered from its identifier.  Parsing a generated identifier gives
  the cluster time it was generated with, whatever the collection, the document and the digest of the two, as
  long as digests are not empty.
\<close>

theorem ParseEventID_generateEventID:
  assumes "\<And>data. sha256 data \<noteq> []"
  shows "ParseEventID (generateEventID sha256 ct collection docID) = Inr ct"
proof -
  define h where "h = hex_string (take 8 (sha256 (collection @ ''/'' @ docID)))"
  have "take 8 (sha256 (collection @ ''/'' @ docID)) \<noteq> []" using assms by simp
  then have h: "h \<noteq> []" "SkipSpace h = Inr h" unfolding h_def using hex_head by (auto intro!: skip_printable)
  have nd: "\<not> is_digit CHR ''-''" by (simp add: is_digit_def)
  have u: "unat v < 2 ^ 32" for v :: "32 word" using unsigned_less [of v] by simp
  have scan: "scanUint32 (nat_digits (unat v) @ CHR ''-'' # r) = Inr (v, CHR ''-'' # r)" for v r
    using scan_printed [OF u, of "CHR ''-'' # r" v] nd by simp
  show ?thesis
    unfolding generateEventID_def Let_def h_def [symmetric] ParseEventID_def
    using h by (simp add: scan scan_dash_def scan_word_def)
qed

theorem ParseEventID_generateEventID_witness:
  "(\<forall>data. (\<lambda>_::string. [0x1f, 0xa0 :: byte]) data \<noteq> []) \<and>
   ParseEventID (generateEventID (\<lambda>_. [0x1f, 0xa0]) \<lparr>TimeT = 1700000000, TimeI = 7\<rparr> ''users'' ''u1'') =
     Inr \<lparr>TimeT = 1700000000, TimeI = 7\<rparr>"
  using ParseEventID_generateEventID [of "\<lambda>_. [0x1f, 0xa0]" "\<lparr>TimeT = 1700000000, TimeI = 7\<rparr>" "''users''" "''u1''"] by simp

end
