(* ===== verification/Coalescing.thy ===== *)
theory Coalescing
  imports Events
begin

text \<open>
  Coalescing of change events during catch-up (\<^verbatim>\<open>internal/puller/buffer/coalescer.go\<close> and
  \<^verbatim>\<open>internal/puller/core/coalescing_iterator.go\<close>): at most one event per document and batch, with the effect
  of all of them.
\<close>

section \<open>Coalescer\<close>

type_synonym coalescer = "string \<Rightarrow> store_change_event option"

definition NewCoalescer :: coalescer where
  "NewCoalescer = (\<lambda>_. None)"

definition docKey :: "string \<Rightarrow> string \<Rightarrow> string" where
  "docKey collection documentID = collection @ ''/'' @ documentID"

definition event_key :: "store_change_event \<Rightarrow> string" where
  "event_key e = docKey (MgoColl e) (MgoDocID e)"

definition coalesce_merge :: "store_change_event \<Rightarrow> store_change_event \<Rightarrow> store_change_event option" where
  "coalesce_merge existing incoming =
     (if OpType incoming = StoreOperationDelete
      then (if OpType existing = StoreOperationInsert then None else Some incoming)
      else if OpType existing = StoreOperationDelete then Some incoming
      else if OpType existing = StoreOperationInsert
      then (if OpType incoming = StoreOperationUpdate \<or> OpType incoming = StoreOperationReplace
            then Some \<lparr>EventID = EventID incoming, EvDatabase = EvDatabase incoming, MgoColl = MgoColl incoming,
              MgoDocID = MgoDocID incoming, OpType = StoreOperationInsert, FullDocument = FullDocument incoming,
              UpdateDesc = None, EvClusterTime = EvClusterTime incoming, TxnNumber = TxnNumber incoming,
              Timestamp = Timestamp incoming, Backend = ''''\<rparr>
            else Some incoming)
      else if (OpType existing = StoreOperationUpdate \<or> OpType existing = StoreOperationReplace) \<and>
        (OpType incoming = StoreOperationUpdate \<or> OpType incoming = StoreOperationReplace)
      then Some incoming
      else Some incoming)"

definition coalesce_Add :: "store_change_event \<Rightarrow> coalescer \<Rightarrow> coalescer" where
  "coalesce_Add evt c =
     (let key = event_key evt in
      case c key of None \<Rightarrow> c(key \<mapsto> evt)
      | Some existing \<Rightarrow> c(key := coalesce_merge existing evt))"

text \<open>
  The order in which Go iterates a map is unspecified; it is the argument \<open>order\<close>, which lists the keys of a
  map.
\<close>

definition map_order :: "(coalescer \<Rightarrow> string list) \<Rightarrow> bool" where
  "map_order order \<longleftrightarrow> (\<forall>c. finite (dom c) \<longrightarrow> distinct (order c) \<and> set (order c) = dom c)"

definition coalesce_Flush :: "(coalescer \<Rightarrow> string list) \<Rightarrow> coalescer \<Rightarrow> store_change_event list \<times> coalescer" where
  "coalesce_Flush order c =
     (sort_slice (\<lambda>a b. BufferKey a < BufferKey b) (map (\<lambda>k. the (c k)) (order c)), NewCoalescer)"

definition coalesce_FlushOne :: "string \<Rightarrow> string \<Rightarrow> coalescer \<Rightarrow> store_change_event option \<times> coalescer" where
  "coalesce_FlushOne collection documentID c =
     (let key = docKey collection documentID in (c key, c(key := None)))"

definition coalesce_Count :: "coalescer \<Rightarrow> nat" where
  "coalesce_Count c = card (dom c)"

definition coalesce_Clear :: "coalescer \<Rightarrow> coalescer" where
  "coalesce_Clear c = NewCoalescer"

definition CoalesceEvents :: "(coalescer \<Rightarrow> string list) \<Rightarrow> store_change_event list \<Rightarrow> store_change_event list" where
  "CoalesceEvents order evts =
     (if evts = [] then [] else fst (coalesce_Flush order (fold coalesce_Add evts NewCoalescer)))"

section \<open>Coalescing iterator\<close>

text \<open>A source iterator: the events it has still to return, and the error it ends with.\<close>

record event_source =
  SrcEvents :: "store_change_event list"
  SrcErr :: "string option"

record coalescing_iterator =
  CoSource :: event_source
  CoBuffer :: "store_change_event list option"
  CoIndex :: int
  CoErr :: "string option"
  CoBatchSize :: int

definition NewCoalescingIterator :: "event_source \<Rightarrow> int \<Rightarrow> coalescing_iterator" where
  "NewCoalescingIterator source batchSize =
     \<lparr>CoSource = source, CoBuffer = None, CoIndex = -1, CoErr = None, CoBatchSize = batchSize\<rparr>"

text \<open>
  Reading a batch: the coalescer is empty between two calls, so it is local to the function.  \<open>SrcErr\<close> is what
  \<^verbatim>\<open>Err\<close> reports once the source has no more events.
\<close>

function co_fill :: "(coalescer \<Rightarrow> string list) \<Rightarrow> coalescing_iterator \<Rightarrow> coalescing_iterator \<times> bool" where
  "co_fill order it =
     (let src = CoSource it; n = nat (CoBatchSize it);
          batch = take n (SrcEvents src); src' = src\<lparr>SrcEvents := drop n (SrcEvents src)\<rparr>;
          it' = it\<lparr>CoSource := src'\<rparr>;
          ended = length (SrcEvents src) < n;
          buf = CoalesceEvents order batch
      in if ended \<and> SrcErr src \<noteq> None then (it'\<lparr>CoErr := SrcErr src\<rparr>, False)
         else if batch = [] then (it', False)
         else if buf = [] then co_fill order (it'\<lparr>CoBuffer := None\<rparr>)
         else (it'\<lparr>CoBuffer := Some buf, CoIndex := 0\<rparr>, True))"
  by pat_completeness auto
termination
  by (relation "measure (\<lambda>(_, it). length (SrcEvents (CoSource it)))") auto
declare co_fill.simps [simp del]

definition co_Next :: "(coalescer \<Rightarrow> string list) \<Rightarrow> coalescing_iterator \<Rightarrow> coalescing_iterator \<times> bool" where
  "co_Next order it =
     (if CoErr it \<noteq> None then (it, False)
      else case CoBuffer it of
        Some buf \<Rightarrow>
          let it' = it\<lparr>CoIndex := CoIndex it + 1\<rparr> in
          if CoIndex it' < int (length buf) then (it', True)
          else co_fill order (it'\<lparr>CoBuffer := None, CoIndex := -1\<rparr>)
      | None \<Rightarrow> co_fill order it)"

definition co_Event :: "coalescing_iterator \<Rightarrow> store_change_event option" where
  "co_Event it =
     (case CoBuffer it of
        Some buf \<Rightarrow> if 0 \<le> CoIndex it \<and> CoIndex it < int (length buf) then Some (buf ! nat (CoIndex it)) else None
      | None \<Rightarrow> None)"

section \<open>The effect of events on pending keys\<close>

text \<open>
  What consumers keep of a document: nothing once it is deleted, and otherwise the full document of its last
  event.  The coalescer is first compared with a replica by its own keys.
\<close>

type_synonym key_replica = "string \<Rightarrow> stored_doc option option"

definition outcome :: "store_change_event \<Rightarrow> stored_doc option option" where
  "outcome e = (if OpType e = StoreOperationDelete then None else Some (FullDocument e))"

definition key_effect :: "store_change_event \<Rightarrow> key_replica \<Rightarrow> key_replica" where
  "key_effect e st = st(event_key e := outcome e)"

text \<open>
  The conditions on a stream, by pending key.
\<close>

fun key_consistent :: "key_replica \<Rightarrow> string set \<Rightarrow> store_change_event list \<Rightarrow> bool" where
  "key_consistent st deleted [] \<longleftrightarrow> True"
| "key_consistent st deleted (e # es) \<longleftrightarrow>
     (OpType e = StoreOperationInsert \<longrightarrow> st (event_key e) = None \<and> event_key e \<notin> deleted) \<and>
     key_consistent (key_effect e st) (if OpType e = StoreOperationDelete then insert (event_key e) deleted else deleted) es"

definition pending_ok :: "key_replica \<Rightarrow> key_replica \<Rightarrow> string set \<Rightarrow> coalescer \<Rightarrow> bool" where
  "pending_ok st st' deleted c \<longleftrightarrow> finite (dom c) \<and> (\<forall>k. case c k of None \<Rightarrow> st' k = st k
     | Some e \<Rightarrow> event_key e = k \<and> st' k = outcome e \<and> (OpType e = StoreOperationInsert \<longrightarrow> st k = None) \<and>
         (OpType e = StoreOperationDelete \<longrightarrow> k \<in> deleted))"

lemma merge_outcome:
  assumes "event_key x = event_key e" and "coalesce_merge x e = Some m"
  shows "event_key m = event_key e \<and> outcome m = outcome e \<and>
    (OpType m = StoreOperationInsert \<longrightarrow> OpType x = StoreOperationInsert \<or> OpType e = StoreOperationInsert) \<and>
    (OpType m = StoreOperationDelete \<longrightarrow> OpType e = StoreOperationDelete)"
  using assms by (auto simp: coalesce_merge_def event_key_def outcome_def split: if_splits)

lemma merge_cancels: "coalesce_merge x e = None \<longleftrightarrow> OpType x = StoreOperationInsert \<and> OpType e = StoreOperationDelete"
  by (auto simp: coalesce_merge_def)

lemma add_pending:
  assumes inv: "pending_ok st st' deleted c"
    and e: "OpType e = StoreOperationInsert \<longrightarrow> st' (event_key e) = None \<and> event_key e \<notin> deleted"
  shows "pending_ok st (key_effect e st') (if OpType e = StoreOperationDelete then insert (event_key e) deleted else deleted)
    (coalesce_Add e c)" (is "pending_ok _ ?st ?del ?c")
proof -
  let ?k = "event_key e"
  have k: "case c j of None \<Rightarrow> st' j = st j | Some x \<Rightarrow> event_key x = j \<and> st' j = outcome x \<and>
      (OpType x = StoreOperationInsert \<longrightarrow> st j = None) \<and> (OpType x = StoreOperationDelete \<longrightarrow> j \<in> deleted)" for j
    using inv unfolding pending_ok_def by blast
  have "finite (dom ?c)"
  proof (rule finite_subset)
    show "dom ?c \<subseteq> insert ?k (dom c)" by (auto simp: coalesce_Add_def Let_def split: option.splits if_splits)
    show "finite (insert ?k (dom c))" using inv by (simp add: pending_ok_def)
  qed
  moreover have "case ?c j of None \<Rightarrow> ?st j = st j | Some x \<Rightarrow> event_key x = j \<and> ?st j = outcome x \<and>
      (OpType x = StoreOperationInsert \<longrightarrow> st j = None) \<and> (OpType x = StoreOperationDelete \<longrightarrow> j \<in> ?del)" for j
  proof (cases "j = ?k")
    case False
    then have "?c j = c j" "?st j = st' j" by (auto simp: coalesce_Add_def key_effect_def Let_def split: option.splits)
    then show ?thesis using k [of j] by (auto split: option.splits)
  next
    case j: True
    have st: "?st ?k = outcome e" by (simp add: key_effect_def)
    show ?thesis
    proof (cases "c ?k")
      case None
      then have "?c ?k = Some e" "st' ?k = st ?k" using k [of ?k] by (simp_all add: coalesce_Add_def)
      then show ?thesis using e st j by auto
    next
      case (Some x)
      then have c: "?c ?k = coalesce_merge x e" by (simp add: coalesce_Add_def)
      have x: "event_key x = ?k" "st' ?k = outcome x" "OpType x = StoreOperationInsert \<longrightarrow> st ?k = None"
        "OpType x = StoreOperationDelete \<longrightarrow> ?k \<in> deleted" using k [of ?k] Some by simp_all
      show ?thesis
      proof (cases "coalesce_merge x e")
        case None
        have op: "OpType x = StoreOperationInsert" "OpType e = StoreOperationDelete"
          using None unfolding merge_cancels by simp_all
        have "?st ?k = st ?k" using x(3) op st by (simp add: outcome_def)
        then show ?thesis using c None j by simp
      next
        case (Some m)
        note m = merge_outcome [OF x(1) Some]
        have "OpType e = StoreOperationInsert \<Longrightarrow> st ?k = None"
          using e x by (auto simp: outcome_def split: if_splits)
        then show ?thesis using m x c st j Some by auto
      qed
    qed
  qed
  ultimately show ?thesis unfolding pending_ok_def by blast
qed


lemma fold_pending:
  assumes "pending_ok st st' deleted c" and "key_consistent st' deleted evts"
  shows "\<exists>deleted'. pending_ok st (fold key_effect evts st') deleted' (fold coalesce_Add evts c)"
  using assms
proof (induction evts arbitrary: st' deleted c)
  case Nil
  then show ?case by auto
next
  case (Cons e es)
  have "OpType e = StoreOperationInsert \<longrightarrow> st' (event_key e) = None \<and> event_key e \<notin> deleted"
    and rest: "key_consistent (key_effect e st') (if OpType e = StoreOperationDelete then insert (event_key e) deleted else deleted) es"
    using Cons.prems(2) by simp_all
  from Cons.IH [OF add_pending [OF Cons.prems(1) this(1)] rest] show ?case by simp
qed


lemma fold_effect_other: "k \<notin> event_key ` set evts \<Longrightarrow> fold key_effect evts st k = st k"
  by (induction evts arbitrary: st) (auto simp: key_effect_def)

lemma fold_effect_mem:
  assumes "distinct (map event_key evts)" and "e \<in> set evts"
  shows "fold key_effect evts st (event_key e) = outcome e"
  using assms
proof (induction evts arbitrary: st)
  case (Cons x xs)
  show ?case
  proof (cases "e = x")
    case True
    then have "event_key e \<notin> event_key ` set xs" using Cons.prems by simp
    then show ?thesis using True by (simp add: fold_effect_other) (simp add: key_effect_def)
  next
    case False
    then show ?thesis using Cons by simp
  qed
qed simp

interpretation buffered: weak_order "\<lambda>a b. BufferKey a < BufferKey b"
  by unfold_locales auto

lemma flush_effect:
  assumes order: "map_order order" and inv: "pending_ok st st' deleted c"
  shows "fold key_effect (fst (coalesce_Flush order c)) st = st'"
proof
  fix k
  define pend where "pend = map (\<lambda>k. the (c k)) (order c)"
  define out where "out = fst (coalesce_Flush order c)"
  have o: "distinct (order c)" "set (order c) = dom c"
    using order inv by (auto simp: map_order_def pending_ok_def)
  have c: "case c j of None \<Rightarrow> st' j = st j | Some x \<Rightarrow> event_key x = j \<and> st' j = outcome x \<and>
      (OpType x = StoreOperationInsert \<longrightarrow> st j = None) \<and> (OpType x = StoreOperationDelete \<longrightarrow> j \<in> deleted)" for j
    using inv unfolding pending_ok_def by blast
  have key: "event_key (the (c j)) = j" if "j \<in> dom c" for j
    using c [of j] that by (auto simp: dom_def)
  have "map event_key pend = order c" using o(2) key by (auto simp: pend_def intro!: map_idI)
  moreover have mset: "mset out = mset pend"
    using buffered.sort_slice_correct [of pend] by (simp add: out_def pend_def coalesce_Flush_def)
  ultimately have m: "mset (map event_key out) = mset (order c)"
    by (metis mset_map)
  then have d: "distinct (map event_key out)" using o(1) by (metis mset_eq_imp_distinct_iff)
  have keys: "event_key ` set out = dom c" using m o(2) by (metis list.set_map mset_eq_setD)
  have set: "set out = set pend" using mset by (rule mset_eq_setD)
  show "fold key_effect out st k = st' k"
  proof (cases "c k")
    case None
    then have "k \<notin> event_key ` set out" using keys by auto
    then show ?thesis using c [of k] None by (simp add: fold_effect_other)
  next
    case (Some x)
    then have "x \<in> set out" unfolding set pend_def using o(2) by force
    then show ?thesis using fold_effect_mem [OF d, of x st] c [of k] Some by simp
  qed
qed

lemma coalesce_effect:
  assumes "map_order order" and "key_consistent st {} evts"
  shows "fold key_effect (CoalesceEvents order evts) st = fold key_effect evts st"
proof (cases "evts = []")
  case False
  have "pending_ok st st {} NewCoalescer" by (simp add: pending_ok_def NewCoalescer_def)
  from fold_pending [OF this assms(2)] flush_effect [OF assms(1)] show ?thesis
    using False by (auto simp: CoalesceEvents_def)
qed (simp add: CoalesceEvents_def)


section \<open>Draining the iterator\<close>

text \<open>
  The loop of the consumer (\<^verbatim>\<open>for iter.Next() { evt := iter.Event() ... }\<close>), with fuel: \<open>None\<close> when the fuel
  does not suffice.
\<close>

fun co_drain :: "(coalescer \<Rightarrow> string list) \<Rightarrow> nat \<Rightarrow> coalescing_iterator \<Rightarrow>
  (store_change_event option list \<times> coalescing_iterator) option" where
  "co_drain order 0 it = None"
| "co_drain order (Suc fuel) it =
     (case co_Next order it of
        (it', False) \<Rightarrow> Some ([], it')
      | (it', True) \<Rightarrow> map_option (\<lambda>(out, it''). (co_Event it' # out, it'')) (co_drain order fuel it'))"

text \<open>What the iterator has still to return: the rest of its buffer and the coalesced batches of its source.\<close>

function co_batches :: "(coalescer \<Rightarrow> string list) \<Rightarrow> nat \<Rightarrow> bool \<Rightarrow> store_change_event list \<Rightarrow> store_change_event list" where
  "co_batches order n fails xs =
     (if xs = [] \<or> n = 0 \<or> fails \<and> length xs < n then []
      else CoalesceEvents order (take n xs) @ co_batches order n fails (drop n xs))"
  by pat_completeness auto
termination
  by (relation "measure (\<lambda>(_, _, _, xs). length xs)") auto

declare co_batches.simps [simp del]

definition co_rest :: "(coalescer \<Rightarrow> string list) \<Rightarrow> coalescing_iterator \<Rightarrow> store_change_event list" where
  "co_rest order it =
     (case CoBuffer it of Some buf \<Rightarrow> drop (nat (CoIndex it + 1)) buf | None \<Rightarrow> []) @
     co_batches order (nat (CoBatchSize it)) (SrcErr (CoSource it) \<noteq> None) (SrcEvents (CoSource it))"

definition co_ok :: "coalescing_iterator \<Rightarrow> bool" where
  "co_ok it \<longleftrightarrow> CoErr it = None \<and> 0 < CoBatchSize it \<and> -1 \<le> CoIndex it"

lemma fill_step:
  assumes "0 < CoBatchSize it" and "CoErr it = None" and "CoBuffer it = None"
  shows "SrcErr (CoSource (fst (co_fill order it))) = SrcErr (CoSource it) \<and>
    (if snd (co_fill order it)
     then co_ok (fst (co_fill order it)) \<and>
       map Some (co_rest order it) = co_Event (fst (co_fill order it)) # map Some (co_rest order (fst (co_fill order it)))
     else co_rest order it = [] \<and> CoErr (fst (co_fill order it)) = SrcErr (CoSource it))"
  using assms
proof (induction order it rule: co_fill.induct)
  case (1 order it)
  let ?n = "nat (CoBatchSize it)" and ?xs = "SrcEvents (CoSource it)" and ?err = "SrcErr (CoSource it)"
  let ?it = "it\<lparr>CoSource := (CoSource it)\<lparr>SrcEvents := drop ?n ?xs\<rparr>\<rparr>"
  have n: "?n \<noteq> 0" using 1 by simp
  have rest: "co_rest order it = co_batches order ?n (?err \<noteq> None) ?xs" using 1 by (simp add: co_rest_def)
  have split: "co_rest order it = CoalesceEvents order (take ?n ?xs) @ co_batches order ?n (?err \<noteq> None) (drop ?n ?xs)"
    if "\<not> (length ?xs < ?n \<and> ?err \<noteq> None)" "?xs \<noteq> []"
    unfolding rest co_batches.simps [of order ?n _ ?xs] using that n by auto
  consider (fails) "length ?xs < ?n" "?err \<noteq> None" | (none) "\<not> (length ?xs < ?n \<and> ?err \<noteq> None)" "?xs = []"
    | (again) "\<not> (length ?xs < ?n \<and> ?err \<noteq> None)" "?xs \<noteq> []" "CoalesceEvents order (take ?n ?xs) = []"
    | (buf) "\<not> (length ?xs < ?n \<and> ?err \<noteq> None)" "?xs \<noteq> []" "CoalesceEvents order (take ?n ?xs) \<noteq> []" by blast
  then show ?case
  proof cases
    case fails
    then show ?thesis unfolding rest by (simp add: co_fill.simps [of order it] co_batches.simps Let_def)
  next
    case none
    then show ?thesis unfolding rest using 1 n by (simp add: co_fill.simps [of order it] co_batches.simps Let_def)
  next
    case again
    have b: "take ?n ?xs \<noteq> []" using again n by simp
    have f: "co_fill order it = co_fill order (?it\<lparr>CoBuffer := None\<rparr>)"
      unfolding co_fill.simps [of order it] Let_def using again b by (simp only: if_False if_True simp_thms)
    define it' where "it' = ?it\<lparr>CoBuffer := None\<rparr>"
    have it': "0 < CoBatchSize it'" "CoErr it' = None" "CoBuffer it' = None" "SrcErr (CoSource it') = ?err"
      using 1(2-) by (simp_all add: it'_def)
    have rest': "co_rest order it = co_rest order it'"
      unfolding split [OF again(1,2)] again(3) by (simp add: co_rest_def it'_def)
    have f': "co_fill order it = co_fill order it'" unfolding f it'_def ..
    show ?thesis unfolding f' rest' it'(4) [symmetric]
      by (rule 1(1) [OF refl refl refl refl refl refl refl again(1) b again(3), folded it'_def, OF it'(1-3)])
  next
    case buf
    have b: "take ?n ?xs \<noteq> []" using buf n by simp
    let ?buf = "CoalesceEvents order (take ?n ?xs)"
    have f: "co_fill order it = (?it\<lparr>CoBuffer := Some ?buf, CoIndex := 0\<rparr>, True)"
      unfolding co_fill.simps [of order it] Let_def using buf b by (simp only: if_False if_True simp_thms)
    have "?buf = hd ?buf # drop 1 ?buf" using buf(3) by (simp add: drop_Suc)
    then have "co_rest order it = ?buf ! 0 # drop 1 ?buf @ co_batches order ?n (?err \<noteq> None) (drop ?n ?xs)"
      unfolding split [OF buf(1,2)] using buf(3) by (metis append_Cons hd_conv_nth)
    then show ?thesis using buf(3) 1(2-) unfolding f by (simp add: co_Event_def co_ok_def co_rest_def)
  qed
qed


lemma next_step:
  assumes "co_ok it"
  shows "SrcErr (CoSource (fst (co_Next order it))) = SrcErr (CoSource it) \<and>
    (if snd (co_Next order it)
     then co_ok (fst (co_Next order it)) \<and>
       map Some (co_rest order it) = co_Event (fst (co_Next order it)) # map Some (co_rest order (fst (co_Next order it)))
     else co_rest order it = [] \<and> CoErr (fst (co_Next order it)) = SrcErr (CoSource it))"
proof (cases "CoBuffer it")
  case None
  then have "co_Next order it = co_fill order it" using assms by (simp add: co_Next_def co_ok_def)
  then show ?thesis using fill_step [of it order] None assms unfolding co_ok_def by simp
next
  case (Some buf)
  have ok: "CoErr it = None" "0 < CoBatchSize it" "-1 \<le> CoIndex it" using assms by (simp_all add: co_ok_def)
  show ?thesis
  proof (cases "CoIndex it + 1 < int (length buf)")
    case True
    let ?i = "nat (CoIndex it + 1)"
    have i: "?i < length buf" using True ok by linarith
    have "nat (CoIndex it + 2) = Suc ?i" using ok by linarith
    moreover have "drop ?i buf = buf ! ?i # drop (Suc ?i) buf" using i by (simp add: Cons_nth_drop_Suc)
    moreover have "co_Next order it = (it\<lparr>CoIndex := CoIndex it + 1\<rparr>, True)"
      using True Some ok by (simp add: co_Next_def)
    ultimately show ?thesis using True Some ok by (simp add: co_rest_def co_Event_def co_ok_def add.commute)
  next
    case False
    define it' where "it' = it\<lparr>CoBuffer := None, CoIndex := -1\<rparr>"
    have n: "co_Next order it = co_fill order it'" using False Some ok by (simp add: co_Next_def it'_def)
    have it': "0 < CoBatchSize it'" "CoErr it' = None" "CoBuffer it' = None" "SrcErr (CoSource it') = SrcErr (CoSource it)"
      using ok by (simp_all add: it'_def)
    have "length buf \<le> nat (CoIndex it + 1)" using False by linarith
    then have rest': "co_rest order it = co_rest order it'" using Some by (simp add: co_rest_def it'_def)
    show ?thesis unfolding n rest' it'(4) [symmetric] by (rule fill_step [OF it'(1-3)])
  qed
qed

lemma drain_rest:
  assumes "co_ok it" and "length (co_rest order it) < fuel"
  shows "\<exists>it'. co_drain order fuel it = Some (map Some (co_rest order it), it') \<and> CoErr it' = SrcErr (CoSource it)"
  using assms
proof (induction fuel arbitrary: it)
  case (Suc fuel)
  obtain it' b where n: "co_Next order it = (it', b)" by fastforce
  note step = next_step [OF Suc.prems(1), of order, unfolded n fst_conv snd_conv]
  show ?case
  proof (cases b)
    case True
    then have r: "co_ok it'" "map Some (co_rest order it) = co_Event it' # map Some (co_rest order it')" using step by simp_all
    have "length (co_rest order it) = Suc (length (co_rest order it'))" using arg_cong [OF r(2), of length] by simp
    then obtain it'' where "co_drain order fuel it' = Some (map Some (co_rest order it'), it'')" "CoErr it'' = SrcErr (CoSource it')"
      using Suc.IH [OF r(1)] Suc.prems(2) by auto
    then show ?thesis using n True r(2) step by simp
  next
    case False
    then show ?thesis using n step by simp
  qed
qed simp

lemma consistent_append: "key_consistent st deleted (xs @ ys) \<Longrightarrow>
  key_consistent st deleted xs \<and> (\<exists>deleted'. key_consistent (fold key_effect xs st) deleted' ys)"
  by (induction xs arbitrary: st deleted) (auto split: if_splits)

lemma consistent_mono: "key_consistent st deleted xs \<Longrightarrow> deleted' \<subseteq> deleted \<Longrightarrow> key_consistent st deleted' xs"
proof (induction xs arbitrary: st deleted deleted')
  case (Cons e es)
  have "insert (event_key e) deleted' \<subseteq> insert (event_key e) deleted" using Cons.prems(2) by blast
  then show ?case using Cons.IH Cons.prems by (cases "OpType e = StoreOperationDelete") (simp; blast)+
qed simp

lemma consistent_batch:
  assumes "key_consistent st {} xs"
  shows "key_consistent st {} (take n xs) \<and> key_consistent (fold key_effect (take n xs) st) {} (drop n xs)"
proof -
  have "key_consistent st {} (take n xs @ drop n xs)" using assms by simp
  from consistent_append [OF this] show ?thesis by (meson consistent_mono empty_subsetI)
qed

lemma batches_effect:
  assumes "map_order order" and "0 < n" and "key_consistent st {} xs"
  shows "\<exists>m. fold key_effect (co_batches order n fails xs) st = fold key_effect (take m xs) st \<and>
    length xs < m + n \<and> (\<not> fails \<longrightarrow> length xs \<le> m)"
  using assms
proof (induction order n fails xs arbitrary: st rule: co_batches.induct)
  case (1 order n fails xs)
  show ?case
  proof (cases "xs = [] \<or> n = 0 \<or> fails \<and> length xs < n")
    case True
    then have "co_batches order n fails xs = []" by (simp add: co_batches.simps [of order n])
    then show ?thesis using 1(3) True by (intro exI [of _ 0]) auto
  next
    case False
    note c = consistent_batch [OF 1(4), of n]
    obtain m where m: "fold key_effect (co_batches order n fails (drop n xs)) (fold key_effect (take n xs) st) =
        fold key_effect (take m (drop n xs)) (fold key_effect (take n xs) st)"
      "length (drop n xs) < m + n" "\<not> fails \<longrightarrow> length (drop n xs) \<le> m"
      using 1(1) [OF False 1(2,3) conjunct2 [OF c]] by blast
    have "co_batches order n fails xs = CoalesceEvents order (take n xs) @ co_batches order n fails (drop n xs)"
      unfolding co_batches.simps [of order n fails xs] using False by auto
    then have "fold key_effect (co_batches order n fails xs) st = fold key_effect (take (n + m) xs) st"
      using m(1) coalesce_effect [OF 1(2) conjunct1 [OF c]] by (simp add: take_add)
    moreover have "length xs < n + m + n" "\<not> fails \<longrightarrow> length xs \<le> n + m" using m(2,3) by (simp, auto)
    ultimately show ?thesis by blast
  qed
qed

lemma pending_card: "finite (dom c) \<Longrightarrow> finite (dom (fold coalesce_Add evts c)) \<and> card (dom (fold coalesce_Add evts c)) \<le> card (dom c) + length evts"
proof (induction evts arbitrary: c)
  case (Cons e es)
  have sub: "dom (coalesce_Add e c) \<subseteq> insert (event_key e) (dom c)"
    by (auto simp: coalesce_Add_def Let_def split: option.splits if_splits)
  have fin: "finite (insert (event_key e) (dom c))" using Cons.prems by simp
  have "card (dom (coalesce_Add e c)) \<le> Suc (card (dom c))"
    using card_mono [OF fin sub] card_insert_le_m1 [of "Suc (card (dom c))" "dom c" "event_key e"] by simp
  then show ?case using Cons.IH [OF finite_subset [OF sub fin]] by simp
qed simp


lemma coalesce_length:
  assumes "map_order order"
  shows "length (CoalesceEvents order evts) \<le> length evts"
proof (cases "evts = []")
  case False
  let ?c = "fold coalesce_Add evts NewCoalescer"
  have c: "finite (dom ?c)" "card (dom ?c) \<le> length evts"
    using pending_card [of NewCoalescer evts] by (simp_all add: NewCoalescer_def)
  have "length (order ?c) = card (dom ?c)"
    using assms c(1) unfolding map_order_def by (metis distinct_card)
  moreover have "length (CoalesceEvents order evts) = length (map (\<lambda>k. the (?c k)) (order ?c))"
    unfolding CoalesceEvents_def coalesce_Flush_def fst_conv if_not_P [OF False]
    by (rule mset_eq_length [OF conjunct1 [OF buffered.sort_slice_correct]])
  ultimately show ?thesis using c(2) by simp
qed (simp add: CoalesceEvents_def)

lemma batches_length: "map_order order \<Longrightarrow> length (co_batches order n fails xs) \<le> length xs"
proof (induction order n fails xs rule: co_batches.induct)
  case (1 order n fails xs)
  show ?case
  proof (cases "xs = [] \<or> n = 0 \<or> fails \<and> length xs < n")
    case False
    have "length (CoalesceEvents order (take n xs)) \<le> length (take n xs)" using 1(2) by (rule coalesce_length)
    then have "length (CoalesceEvents order (take n xs) @ co_batches order n fails (drop n xs)) \<le> length (take n xs @ drop n xs)"
      using 1(1) [OF False 1(2)] unfolding length_append by (rule add_mono)
    then show ?thesis unfolding append_take_drop_id co_batches.simps [of order n fails xs] using False by auto
  qed (simp add: co_batches.simps [of order n])
qed

lemma sorted_keys_order: "map_order (\<lambda>c. sorted_list_of_set (dom c))"
  by (simp add: map_order_def)

section \<open>The effect of events on documents\<close>

text \<open>
  A replica holds documents by their collection and document ID.  A stream is consistent with the replica it is
  applied to when it inserts only documents that do not exist, and none again after it was deleted.
\<close>

type_synonym replica = "string \<times> string \<Rightarrow> stored_doc option option"

definition document_of :: "store_change_event \<Rightarrow> string \<times> string" where
  "document_of e = (MgoColl e, MgoDocID e)"

definition event_effect :: "store_change_event \<Rightarrow> replica \<Rightarrow> replica" where
  "event_effect e st = st(document_of e := (if OpType e = StoreOperationDelete then None else Some (FullDocument e)))"

fun consistent :: "replica \<Rightarrow> (string \<times> string) set \<Rightarrow> store_change_event list \<Rightarrow> bool" where
  "consistent st deleted [] \<longleftrightarrow> True"
| "consistent st deleted (e # es) \<longleftrightarrow>
     (OpType e = StoreOperationInsert \<longrightarrow> st (document_of e) = None \<and> document_of e \<notin> deleted) \<and>
     consistent (event_effect e st) (if OpType e = StoreOperationDelete then insert (document_of e) deleted else deleted) es"

definition plain_collection :: "store_change_event \<Rightarrow> bool" where
  "plain_collection e \<longleftrightarrow> CHR ''/'' \<notin> set (MgoColl e)"

text \<open>A pending key names one document, when collections have no slash.\<close>

definition split_key :: "string \<Rightarrow> string \<times> string" where
  "split_key k = (takeWhile (\<lambda>c. c \<noteq> CHR ''/'') k, tl (dropWhile (\<lambda>c. c \<noteq> CHR ''/'') k))"

definition key_view :: "replica \<Rightarrow> key_replica" where
  "key_view st k = (if CHR ''/'' \<in> set k then st (split_key k) else None)"

lemma split_docKey: "CHR ''/'' \<notin> set coll \<Longrightarrow> split_key (docKey coll docID) = (coll, docID)"
proof -
  assume n: "CHR ''/'' \<notin> set coll"
  then have "\<And>x. x \<in> set coll \<Longrightarrow> x \<noteq> CHR ''/''" by blast
  then show ?thesis by (simp add: split_key_def docKey_def takeWhile_append2 dropWhile_append2)
qed

lemma docKey_split: "CHR ''/'' \<in> set k \<Longrightarrow> split_key k = (coll, docID) \<Longrightarrow> k = docKey coll docID"
proof -
  assume k: "CHR ''/'' \<in> set k" "split_key k = (coll, docID)"
  let ?d = "dropWhile (\<lambda>c. c \<noteq> CHR ''/'') k"
  have "?d \<noteq> []" using k(1) by simp
  then have "?d = CHR ''/'' # tl ?d" using hd_dropWhile [of "\<lambda>c. c \<noteq> CHR ''/''" k] by (cases ?d) auto
  then have "k = takeWhile (\<lambda>c. c \<noteq> CHR ''/'') k @ CHR ''/'' # tl ?d"
    using takeWhile_dropWhile_id [of "\<lambda>c. c \<noteq> CHR ''/''" k] by simp
  then show ?thesis using k(2) by (auto simp: split_key_def docKey_def)
qed

lemma key_view_at: "plain_collection e \<Longrightarrow> key_view st (event_key e) = st (document_of e)"
  by (simp add: key_view_def event_key_def document_of_def plain_collection_def split_docKey) (simp add: docKey_def)

lemma key_view_effect:
  assumes "plain_collection e"
  shows "key_view (event_effect e st) = key_effect e (key_view st)"
proof
  fix k
  show "key_view (event_effect e st) k = key_effect e (key_view st) k"
  proof (cases "k = event_key e")
    case True
    then show ?thesis using key_view_at [OF assms] by (simp add: key_effect_def event_effect_def outcome_def)
  next
    case False
    then have "CHR ''/'' \<in> set k \<longrightarrow> split_key k \<noteq> document_of e"
      using docKey_split [of k] by (auto simp: document_of_def event_key_def)
    then show ?thesis using False by (auto simp: key_view_def key_effect_def event_effect_def)
  qed
qed

lemma key_view_fold: "list_all plain_collection es \<Longrightarrow> key_view (fold event_effect es st) = fold key_effect es (key_view st)"
  by (induction es arbitrary: st) (simp_all add: key_view_effect)

definition document_keys :: "(string \<times> string) set \<Rightarrow> string set" where
  "document_keys ds = {docKey c i | c i. (c, i) \<in> ds \<and> CHR ''/'' \<notin> set c}"

lemma document_keys_at: "plain_collection e \<Longrightarrow> event_key e \<in> document_keys ds \<longleftrightarrow> document_of e \<in> ds"
proof
  assume p: "plain_collection e" and "event_key e \<in> document_keys ds"
  then obtain c i where c: "docKey (MgoColl e) (MgoDocID e) = docKey c i" "(c, i) \<in> ds" "CHR ''/'' \<notin> set c"
    by (auto simp: document_keys_def event_key_def)
  have "split_key (docKey (MgoColl e) (MgoDocID e)) = (MgoColl e, MgoDocID e)"
    by (rule split_docKey) (use p in \<open>simp only: plain_collection_def not_False_eq_True\<close>)
  then have "(MgoColl e, MgoDocID e) = (c, i)" unfolding c(1) split_docKey [OF c(3)] by (rule sym)
  then show "document_of e \<in> ds" using c(2) by (simp only: document_of_def)
next
  assume "plain_collection e" and "document_of e \<in> ds"
  then show "event_key e \<in> document_keys ds"
    unfolding document_keys_def document_of_def event_key_def plain_collection_def by blast
qed

lemma document_keys_insert:
  "plain_collection e \<Longrightarrow> document_keys (insert (document_of e) ds) = insert (event_key e) (document_keys ds)"
  by (auto simp: document_keys_def document_of_def event_key_def plain_collection_def)

lemma consistent_keys:
  "list_all plain_collection es \<Longrightarrow> consistent st deleted es \<Longrightarrow> key_consistent (key_view st) (document_keys deleted) es"
  by (induction es arbitrary: st deleted)
    (auto simp: key_view_at document_keys_at simp flip: key_view_effect document_keys_insert)

lemma fold_effect_slash:
  "list_all plain_collection es \<Longrightarrow> CHR ''/'' \<in> set c \<Longrightarrow> fold event_effect es st (c, i) = st (c, i)"
  by (induction es arbitrary: st) (auto simp: event_effect_def document_of_def plain_collection_def)

lemma key_view_inj:
  assumes "key_view st = key_view st'" and "\<And>c i. CHR ''/'' \<in> set c \<Longrightarrow> st (c, i) = st' (c, i)"
  shows "st = st'"
proof
  fix d :: "string \<times> string"
  obtain c i where d: "d = (c, i)" by fastforce
  show "st d = st' d"
  proof (cases "CHR ''/'' \<in> set c")
    case False
    then show ?thesis
      using fun_cong [OF assms(1), of "docKey c i"] unfolding key_view_def split_docKey [OF False] d by (simp add: docKey_def)
  qed (simp add: d assms(2))
qed

lemma merge_collection: "coalesce_merge x e = Some m \<Longrightarrow> MgoColl m = MgoColl e"
  by (auto simp: coalesce_merge_def split: if_split_asm)

lemma add_collection: "coalesce_Add e c k = Some y \<Longrightarrow> c k = Some y \<or> MgoColl y = MgoColl e"
  by (cases "k = event_key e"; cases "c (event_key e)") (simp_all add: coalesce_Add_def merge_collection)

lemma pending_from:
  "fold coalesce_Add es c k = Some y \<Longrightarrow> c k = Some y \<or> (\<exists>e \<in> set es. MgoColl y = MgoColl e)"
proof (induction es arbitrary: c)
  case (Cons e es)
  have "coalesce_Add e c k = Some y \<or> (\<exists>e \<in> set es. MgoColl y = MgoColl e)" using Cons.IH Cons.prems by simp
  then show ?case using add_collection [of e c k y] by auto
qed simp

lemma CoalesceEvents_plain:
  assumes "map_order order" and "list_all plain_collection es"
  shows "list_all plain_collection (CoalesceEvents order es)"
proof (cases "es = []")
  case False
  let ?c = "fold coalesce_Add es NewCoalescer"
  let ?xs = "map (\<lambda>k. the (?c k)) (order ?c)"
  have "finite (dom ?c)" using pending_card [of NewCoalescer es] by (simp add: NewCoalescer_def)
  then have o: "set (order ?c) = dom ?c" using assms(1) unfolding map_order_def by blast
  have "plain_collection y" if "?c k = Some y" for k y
    using pending_from [OF that] assms(2) by (auto simp: NewCoalescer_def list_all_iff plain_collection_def)
  then have "\<forall>x \<in> set ?xs. plain_collection x" using o by fastforce
  moreover have "set (sort_slice (\<lambda>a b. BufferKey a < BufferKey b) ?xs) = set ?xs"
    using mset_eq_setD [OF conjunct1 [OF buffered.sort_slice_correct]] .
  ultimately show ?thesis using False by (simp add: CoalesceEvents_def coalesce_Flush_def list_all_iff)
qed (simp add: CoalesceEvents_def)

lemma batches_plain:
  "map_order order \<Longrightarrow> list_all plain_collection xs \<Longrightarrow> list_all plain_collection (co_batches order n fails xs)"
proof (induction order n fails xs rule: co_batches.induct)
  case (1 order n fails xs)
  have t: "list_all plain_collection (take n xs)" "list_all plain_collection (drop n xs)"
    using 1(3) by (auto simp: list_all_iff dest: in_set_takeD in_set_dropD)
  show ?case
  proof (cases "xs = [] \<or> n = 0 \<or> fails \<and> length xs < n")
    case False
    then show ?thesis
      unfolding co_batches.simps [of order n fails xs] using CoalesceEvents_plain [OF 1(2) t(1)] 1(1) [OF False 1(2) t(2)] by auto
  qed (auto simp: co_batches.simps [of order n])
qed

lemma batches_documents:
  assumes "map_order order" and "0 < n" and "list_all plain_collection xs" and "consistent st {} xs"
  shows "\<exists>m. fold event_effect (co_batches order n fails xs) st = fold event_effect (take m xs) st \<and>
    length xs < m + n \<and> (\<not> fails \<longrightarrow> length xs \<le> m)"
proof -
  have "key_consistent (key_view st) {} xs" using consistent_keys [OF assms(3,4)] by (simp add: document_keys_def)
  from batches_effect [OF assms(1,2) this, of fails] obtain m where
    m: "fold key_effect (co_batches order n fails xs) (key_view st) = fold key_effect (take m xs) (key_view st)"
      "length xs < m + n" "\<not> fails \<longrightarrow> length xs \<le> m" by blast
  have p: "list_all plain_collection (co_batches order n fails xs)" "list_all plain_collection (take m xs)"
    using batches_plain [OF assms(1,3)] assms(3) by (auto simp: list_all_iff dest: in_set_takeD)
  have "fold event_effect (co_batches order n fails xs) st = fold event_effect (take m xs) st"
    by (rule key_view_inj) (simp_all add: key_view_fold [OF p(1)] key_view_fold [OF p(2)] m(1) fold_effect_slash [OF p(1)]
        fold_effect_slash [OF p(2)])
  then show ?thesis using m(2,3) by blast
qed

text \<open>
  Two merges that lose information: the event into which an insertion and an update are merged has no backend,
  and a document that is deleted, inserted again and deleted again leaves no pending event, although the first
  deletion still stands.
\<close>

lemma merge_drops_backend:
  assumes "OpType x = StoreOperationInsert" and "OpType e = StoreOperationUpdate \<or> OpType e = StoreOperationReplace"
  shows "\<exists>m. coalesce_merge x e = Some m \<and> Backend m = ''''"
  using assms by (auto simp: coalesce_merge_def)

lemma delete_insert_delete:
  assumes "OpType d = StoreOperationDelete" and "OpType i = StoreOperationInsert" and "OpType d' = StoreOperationDelete"
    and "event_key i = event_key d" and "event_key d' = event_key d"
  shows "coalesce_Add d' (coalesce_Add i (coalesce_Add d NewCoalescer)) = NewCoalescer"
  using assms by (simp add: coalesce_Add_def coalesce_merge_def NewCoalescer_def Let_def)

section \<open>Properties\<close>

definition sample_event :: "store_operation \<Rightarrow> string \<Rightarrow> 32 word \<Rightarrow> store_change_event" where
  "sample_event op docID i = \<lparr>EventID = ''e'', EvDatabase = ''db'', MgoColl = ''c'', MgoDocID = docID, OpType = op,
     FullDocument = None, UpdateDesc = None, EvClusterTime = \<lparr>TimeT = 1, TimeI = i\<rparr>, TxnNumber = None, Timestamp = 0,
     Backend = ''b1''\<rparr>"

text \<open>
  C13: Catching up through the coalescing iterator has the effect of the events themselves on every document, that
  is on every pair of a collection and a document ID; the database and the backend of an event are not part of what
  names a document, as they are not part of the pending key.  When collection names have no slash, and the source
  inserts only documents that do not exist and none again after it was deleted, the consumer's loop ends within one
  round per event of the source and one more; what the iterator returned leaves every document as the events of a prefix
  of the source do, the prefix is the whole source unless the source fails, it lacks less than a batch otherwise,
  and the error the iterator reports is the source's.
\<close>

theorem coalescing_effect:
  assumes "map_order order" and "0 < batchSize" and "list_all plain_collection (SrcEvents source)"
    and "consistent st {} (SrcEvents source)"
  shows "\<exists>out it' m. co_drain order (Suc (length (SrcEvents source))) (NewCoalescingIterator source batchSize) =
      Some (map Some out, it') \<and>
    CoErr it' = SrcErr source \<and>
    fold event_effect out st = fold event_effect (take m (SrcEvents source)) st \<and>
    int (length (SrcEvents source)) < int m + batchSize \<and>
    (SrcErr source = None \<longrightarrow> length (SrcEvents source) \<le> m)"
proof -
  let ?it = "NewCoalescingIterator source batchSize"
  have rest: "co_rest order ?it = co_batches order (nat batchSize) (SrcErr source \<noteq> None) (SrcEvents source)"
    by (simp add: co_rest_def NewCoalescingIterator_def)
  have "co_ok ?it" using assms(2) by (simp add: co_ok_def NewCoalescingIterator_def)
  from drain_rest [OF this, of order "Suc (length (SrcEvents source))"] batches_length [OF assms(1)]
  obtain it' where it': "co_drain order (Suc (length (SrcEvents source))) ?it = Some (map Some (co_rest order ?it), it')"
    "CoErr it' = SrcErr source"
    unfolding rest by (auto simp: NewCoalescingIterator_def less_Suc_eq_le)
  obtain m where m: "fold event_effect (co_rest order ?it) st = fold event_effect (take m (SrcEvents source)) st"
    "length (SrcEvents source) < m + nat batchSize" "SrcErr source = None \<longrightarrow> length (SrcEvents source) \<le> m"
    unfolding rest using batches_documents [OF assms(1) _ assms(3,4), of "nat batchSize" "SrcErr source \<noteq> None"] assms(2) by auto
  have "int (length (SrcEvents source)) < int m + batchSize" using m(2) assms(2) by linarith
  with it' m(1,3) show ?thesis
    by (intro exI [of _ "co_rest order ?it"] exI [of _ it'] exI [of _ m] conjI) assumption+
qed


theorem coalescing_effect_witness:
  "\<exists>order st evts. evts = [sample_event StoreOperationInsert ''x'' 1, sample_event StoreOperationUpdate ''x'' 2,
      sample_event StoreOperationDelete ''y'' 3] \<and>
    map_order order \<and> (0::int) < 2 \<and> list_all plain_collection evts \<and> consistent st {} evts \<and>
    (\<exists>out it' m. co_drain order (Suc (length evts)) (NewCoalescingIterator \<lparr>SrcEvents = evts, SrcErr = None\<rparr> 2) =
        Some (map Some out, it') \<and> CoErr it' = None \<and>
      fold event_effect out st = fold event_effect evts st)"
proof -
  let ?evts = "[sample_event StoreOperationInsert ''x'' 1, sample_event StoreOperationUpdate ''x'' 2,
      sample_event StoreOperationDelete ''y'' 3]"
  let ?order = "\<lambda>c::coalescer. sorted_list_of_set (dom c)" and ?st = "\<lambda>_::string \<times> string. None"
  let ?source = "\<lparr>SrcEvents = ?evts, SrcErr = None\<rparr>"
  have c: "list_all plain_collection ?evts" "consistent ?st {} ?evts" by (simp_all add: sample_event_def plain_collection_def)
  then have "list_all plain_collection (SrcEvents ?source)" "consistent ?st {} (SrcEvents ?source)" by simp_all
  from coalescing_effect [OF sorted_keys_order _ this, of 2] obtain out it' m where
    "co_drain ?order (Suc (length ?evts)) (NewCoalescingIterator ?source 2) = Some (map Some out, it')"
    "CoErr it' = None" "fold event_effect out ?st = fold event_effect (take m ?evts) ?st" "length ?evts \<le> m" by auto
  then show ?thesis using c sorted_keys_order
    by (intro exI [of _ ?order] exI [of _ ?st] exI [of _ ?evts] exI [of _ out] exI [of _ it'] conjI) simp_all
qed

end
