(* ===== verification/EventMerge.thy ===== *)
theory EventMerge
  imports Coalescing
begin

text \<open>
  The merge of the backends' event streams (\<^verbatim>\<open>internal/puller/core/merge_iterator.go\<close>, and the naming of the
  backend in \<^verbatim>\<open>internal/puller/core/puller.go\<close>): a heap of the next event of each source.
\<close>

section \<open>The iterator\<close>

record merge_item =
  ItemEvent :: store_change_event
  ItemIter :: nat

record merge_iterator =
  MiIterators :: "event_source list"
  MiPq :: "merge_item list"
  MiErr :: "string option"
  MiCurrent :: "store_change_event option"

definition event_before :: "store_change_event \<Rightarrow> store_change_event \<Rightarrow> bool" where
  "event_before a b =
     (let cmp = ct_Compare (EvClusterTime a) (EvClusterTime b) in
      if cmp < 0 then True else if cmp > 0 then False else Backend a < Backend b)"

definition pq_Less :: "merge_item \<Rightarrow> merge_item \<Rightarrow> bool" where
  "pq_Less a b = event_before (ItemEvent a) (ItemEvent b)"

text \<open>
  Advancing source \<open>i\<close>: its next event is pushed, and at its end its error is recorded.  \<open>True\<close> when the source
  did not fail.
\<close>

definition mi_advance :: "nat \<Rightarrow> merge_iterator \<Rightarrow> merge_iterator \<times> bool" where
  "mi_advance i mi =
     (let iter = MiIterators mi ! i in
      case SrcEvents iter of
        e # es \<Rightarrow> (mi\<lparr>MiIterators := (MiIterators mi)[i := iter\<lparr>SrcEvents := es\<rparr>],
                    MiPq := heap_push pq_Less (MiPq mi) \<lparr>ItemEvent = e, ItemIter = i\<rparr>\<rparr>, True)
      | [] \<Rightarrow> if SrcErr iter \<noteq> None then (mi\<lparr>MiErr := SrcErr iter\<rparr>, False) else (mi, True))"

definition NewMergeIterator :: "event_source list \<Rightarrow> merge_iterator" where
  "NewMergeIterator iters =
     fold (\<lambda>i mi. fst (mi_advance i mi)) [0..<length iters]
       \<lparr>MiIterators = iters, MiPq = [], MiErr = None, MiCurrent = None\<rparr>"

definition mi_Next :: "merge_iterator \<Rightarrow> merge_iterator \<times> bool" where
  "mi_Next mi =
     (if MiErr mi \<noteq> None then (mi, False)
      else if length (MiPq mi) = 0 then (mi, False)
      else case heap_pop pq_Less (MiPq mi) of
        (x, pq) \<Rightarrow> mi_advance (ItemIter x) (mi\<lparr>MiPq := pq, MiCurrent := Some (ItemEvent x)\<rparr>))"

definition mi_Event :: "merge_iterator \<Rightarrow> store_change_event option" where
  "mi_Event mi = MiCurrent mi"

definition mi_Err :: "merge_iterator \<Rightarrow> string option" where
  "mi_Err mi = MiErr mi"

text \<open>The naming of the backend by \<^verbatim>\<open>backendInjectingIterator\<close>, on the events a source returns.\<close>

definition inject_backend :: "string \<Rightarrow> store_change_event \<Rightarrow> store_change_event" where
  "inject_backend backendName evt = (if Backend evt = '''' then evt\<lparr>Backend := backendName\<rparr> else evt)"

definition inject_source :: "string \<Rightarrow> event_source \<Rightarrow> event_source" where
  "inject_source backendName src = src\<lparr>SrcEvents := map (inject_backend backendName) (SrcEvents src)\<rparr>"

fun mi_drain :: "nat \<Rightarrow> merge_iterator \<Rightarrow> (store_change_event option list \<times> merge_iterator) option" where
  "mi_drain 0 mi = None"
| "mi_drain (Suc fuel) mi =
     (case mi_Next mi of
        (mi', False) \<Rightarrow> Some ([], mi')
      | (mi', True) \<Rightarrow> map_option (\<lambda>(out, mi''). (mi_Event mi' # out, mi'')) (mi_drain fuel mi'))"

section \<open>The order of the queue\<close>

lemma ct_Compare_cases:
  "ct_Compare a b < 0 \<longleftrightarrow> (TimeT a, TimeI a) < (TimeT b, TimeI b)"
  "0 < ct_Compare a b \<longleftrightarrow> (TimeT b, TimeI b) < (TimeT a, TimeI a)"
  "ct_Compare a b = 0 \<longleftrightarrow> TimeT a = TimeT b \<and> TimeI a = TimeI b"
  by (auto simp: ct_Compare_def)

text \<open>The place of an event in the merged stream: its cluster time, then the name of its backend.\<close>

definition event_rank :: "store_change_event \<Rightarrow> (32 word \<times> 32 word) \<times> string" where
  "event_rank e = ((TimeT (EvClusterTime e), TimeI (EvClusterTime e)), Backend e)"

lemma event_before_rank: "event_before a b \<longleftrightarrow> event_rank a < event_rank b"
  by (auto simp: event_before_def event_rank_def Let_def ct_Compare_cases) 

interpretation queue: weak_order pq_Less
  by unfold_locales (auto simp: pq_Less_def event_before_rank)

section \<open>What is left of each source\<close>

definition mi_left :: "merge_iterator \<Rightarrow> nat \<Rightarrow> store_change_event list" where
  "mi_left mi i = map ItemEvent (filter (\<lambda>x. ItemIter x = i) (MiPq mi)) @ SrcEvents (MiIterators mi ! i)"

text \<open>
  The states of the iterator, whose sources up to \<open>n\<close> were asked for their first event: at most one item per
  source, and a source without one has ended, without an error unless one is recorded.
\<close>

definition mi_inv :: "event_source list \<Rightarrow> nat \<Rightarrow> merge_iterator \<Rightarrow> bool" where
  "mi_inv iters n mi \<longleftrightarrow> heap_ok pq_Less (MiPq mi) \<and> distinct (map ItemIter (MiPq mi)) \<and>
     ItemIter ` set (MiPq mi) \<subseteq> {..<n} \<and> length (MiIterators mi) = length iters \<and> n \<le> length iters \<and>
     (\<forall>i<length iters. SrcErr (MiIterators mi ! i) = SrcErr (iters ! i)) \<and>
     (\<forall>i<n. i \<notin> ItemIter ` set (MiPq mi) \<longrightarrow> SrcEvents (MiIterators mi ! i) = [] \<and>
        (SrcErr (iters ! i) \<noteq> None \<longrightarrow> MiErr mi \<noteq> None)) \<and>
     (MiErr mi \<noteq> None \<longrightarrow> (\<exists>i<n. MiErr mi = SrcErr (iters ! i)))"

lemma filter_distinct_key:
  assumes "distinct (map f xs)" and "x \<in> set xs"
  shows "filter (\<lambda>y. f y = f x) xs = [x]"
  using assms
proof (induction xs)
  case (Cons y ys)
  show ?case
  proof (cases "x = y")
    case True
    then have "f x \<notin> f ` set ys" using Cons.prems by simp
    then have "filter (\<lambda>z. f z = f x) ys = []" unfolding filter_empty_conv by (metis imageI)
    then show ?thesis using True by simp
  next
    case False
    then have "f y \<noteq> f x" using Cons.prems by force
    then show ?thesis using Cons False by simp
  qed
qed simp

lemma filter_mset_key:
  assumes "mset xs = mset ys" and "distinct (map f xs)"
  shows "filter (\<lambda>y. f y = k) xs = filter (\<lambda>y. f y = k) ys"
proof (cases "k \<in> f ` set xs")
  case True
  then obtain x where x: "x \<in> set xs" "k = f x" by blast
  have "distinct (map f ys)" using assms by (metis mset_eq_imp_distinct_iff mset_map)
  then show ?thesis using x assms filter_distinct_key [of f] mset_eq_setD [OF assms(1)] by simp
next
  case False
  then have "k \<notin> f ` set ys" using mset_eq_setD [OF assms(1)] by simp
  then have "filter (\<lambda>y. f y = k) ys = []" by (force simp: filter_empty_conv)
  moreover have "filter (\<lambda>y. f y = k) xs = []" using False by (force simp: filter_empty_conv)
  ultimately show ?thesis by simp
qed

lemma push_distinct:
  assumes "distinct (map ItemIter pq)" and "ItemIter x \<notin> ItemIter ` set pq"
  shows "distinct (map ItemIter (heap_push pq_Less pq x)) \<and>
    set (heap_push pq_Less pq x) = insert x (set pq) \<and>
    filter (\<lambda>y. ItemIter y = k) (heap_push pq_Less pq x) = filter (\<lambda>y. ItemIter y = k) (x # pq)"
proof -
  have m: "mset (heap_push pq_Less pq x) = mset (x # pq)" by (simp add: queue.heap_push_mset)
  have d: "distinct (map ItemIter (x # pq))" using assms by simp
  have "distinct (map ItemIter (heap_push pq_Less pq x))" using m d by (metis mset_eq_imp_distinct_iff mset_map)
  then show ?thesis using filter_mset_key [OF m, of ItemIter k] mset_eq_setD [OF m] by simp
qed

text \<open>
  Advancing a source of which no event is queued keeps the states, and what is left of each source.
\<close>

lemma advance_inv:
  assumes inv: "heap_ok pq_Less (MiPq mi)" "distinct (map ItemIter (MiPq mi))"
      "ItemIter ` set (MiPq mi) \<subseteq> {..<n}" "length (MiIterators mi) = length iters" "n \<le> length iters"
      "\<forall>i<length iters. SrcErr (MiIterators mi ! i) = SrcErr (iters ! i)"
      "\<forall>i<n. i \<noteq> k \<longrightarrow> i \<notin> ItemIter ` set (MiPq mi) \<longrightarrow> SrcEvents (MiIterators mi ! i) = [] \<and>
        (SrcErr (iters ! i) \<noteq> None \<longrightarrow> MiErr mi \<noteq> None)"
      "MiErr mi \<noteq> None \<longrightarrow> (\<exists>i<n. MiErr mi = SrcErr (iters ! i))"
    and k: "k < n" "k \<notin> ItemIter ` set (MiPq mi)"
  shows "mi_inv iters n (fst (mi_advance k mi)) \<and> (\<forall>j<length iters. mi_left (fst (mi_advance k mi)) j = mi_left mi j) \<and>
    MiCurrent (fst (mi_advance k mi)) = MiCurrent mi \<and>
    (snd (mi_advance k mi) \<longrightarrow> MiErr (fst (mi_advance k mi)) = MiErr mi) \<and>
    (\<not> snd (mi_advance k mi) \<longrightarrow> MiErr (fst (mi_advance k mi)) \<noteq> None)"
proof (cases "SrcEvents (MiIterators mi ! k)")
  case Nil
  then show ?thesis using inv k unfolding mi_inv_def mi_advance_def mi_left_def by (auto simp: Let_def)
next
  case (Cons e es)
  let ?x = "\<lparr>ItemEvent = e, ItemIter = k\<rparr>"
  have p: "distinct (map ItemIter (heap_push pq_Less (MiPq mi) ?x))"
    "set (heap_push pq_Less (MiPq mi) ?x) = insert ?x (set (MiPq mi))"
    "filter (\<lambda>y. ItemIter y = j) (heap_push pq_Less (MiPq mi) ?x) = filter (\<lambda>y. ItemIter y = j) (?x # MiPq mi)" for j
    using push_distinct [OF inv(2), of ?x] k(2) by simp_all
  have f: "filter (\<lambda>y. ItemIter y = k) (MiPq mi) = []" using k(2) by (force simp: filter_empty_conv)
  have len: "k < length (MiIterators mi)" using k inv by simp
  define mi' where "mi' = fst (mi_advance k mi)"
  have mi': "mi' = mi\<lparr>MiIterators := (MiIterators mi)[k := (MiIterators mi ! k)\<lparr>SrcEvents := es\<rparr>],
      MiPq := heap_push pq_Less (MiPq mi) ?x\<rparr>" "snd (mi_advance k mi)"
    using Cons by (simp_all add: mi'_def mi_advance_def)
  have "mi_left mi' j = mi_left mi j" if "j < length iters" for j
    using p(3) [of j] f Cons len by (cases "j = k") (auto simp: mi_left_def mi')
  moreover have "mi_inv iters n mi'"
    unfolding mi_inv_def using inv k p(1) queue.heap_push_ok [OF inv(1)] len
    by (auto simp: mi' p(2) nth_list_update)
  ultimately show ?thesis using mi' by (simp add: mi'_def [symmetric])
qed


lemma new_inv:
  "mi_inv iters (length iters) (NewMergeIterator iters) \<and>
   (\<forall>j<length iters. mi_left (NewMergeIterator iters) j = SrcEvents (iters ! j))"
proof -
  let ?mi0 = "\<lparr>MiIterators = iters, MiPq = [], MiErr = None, MiCurrent = None\<rparr>"
  define mi where "mi n = fold (\<lambda>i mi. fst (mi_advance i mi)) [0..<n] ?mi0" for n
  have "mi_inv iters n (mi n) \<and> (\<forall>j<length iters. mi_left (mi n) j = SrcEvents (iters ! j))" if "n \<le> length iters" for n
    using that
  proof (induction n)
    case 0
    then show ?case by (simp add: mi_def mi_inv_def mi_left_def heap_ok_def)
  next
    case (Suc n)
    then have inv: "mi_inv iters n (mi n)" and left: "\<forall>j<length iters. mi_left (mi n) j = SrcEvents (iters ! j)" by simp_all
    have n: "n \<notin> ItemIter ` set (MiPq (mi n))" using inv by (auto simp: mi_inv_def)
    have "mi (Suc n) = fst (mi_advance n (mi n))" by (simp add: mi_def)
    moreover have "mi_inv iters (Suc n) (fst (mi_advance n (mi n))) \<and>
        (\<forall>j<length iters. mi_left (fst (mi_advance n (mi n))) j = mi_left (mi n) j) \<and>
        MiCurrent (fst (mi_advance n (mi n))) = MiCurrent (mi n) \<and>
        (snd (mi_advance n (mi n)) \<longrightarrow> MiErr (fst (mi_advance n (mi n))) = MiErr (mi n)) \<and>
        (\<not> snd (mi_advance n (mi n)) \<longrightarrow> MiErr (fst (mi_advance n (mi n))) \<noteq> None)"
    proof (rule advance_inv)
      show "ItemIter ` set (MiPq (mi n)) \<subseteq> {..<Suc n}" using inv by (auto simp: mi_inv_def)
      show "\<forall>i<Suc n. i \<noteq> n \<longrightarrow> i \<notin> ItemIter ` set (MiPq (mi n)) \<longrightarrow>
          SrcEvents (MiIterators (mi n) ! i) = [] \<and> (SrcErr (iters ! i) \<noteq> None \<longrightarrow> MiErr (mi n) \<noteq> None)"
        using inv by (simp add: mi_inv_def less_Suc_eq)
      show "MiErr (mi n) \<noteq> None \<longrightarrow> (\<exists>i<Suc n. MiErr (mi n) = SrcErr (iters ! i))"
        using inv unfolding mi_inv_def by (meson less_SucI)
    qed (use inv n Suc.prems in \<open>simp_all add: mi_inv_def\<close>)
    ultimately show ?case using left by simp
  qed
  then show ?thesis by (simp add: NewMergeIterator_def mi_def)
qed

lemma left_item:
  assumes "mi_inv iters n mi" and "x \<in> set (MiPq mi)"
  shows "mi_left mi (ItemIter x) = ItemEvent x # SrcEvents (MiIterators mi ! ItemIter x)"
  using assms filter_distinct_key [of ItemIter "MiPq mi" x] by (simp add: mi_inv_def mi_left_def)

lemma left_head:
  assumes "mi_inv iters (length iters) mi" and "i < length iters" and "mi_left mi i \<noteq> []"
  shows "\<exists>x\<in>set (MiPq mi). ItemIter x = i"
proof (rule ccontr)
  assume none: "\<not> ?thesis"
  then have "i \<notin> ItemIter ` set (MiPq mi)" by auto
  then have "SrcEvents (MiIterators mi ! i) = []" using assms(1,2) by (simp add: mi_inv_def)
  then show False using assms(3) none by (auto simp: mi_left_def filter_empty_conv)
qed

lemma next_merge:
  assumes inv: "mi_inv iters (length iters) mi" and n: "mi_Next mi = (mi', ok)"
  shows "if ok
    then mi_inv iters (length iters) mi' \<and> MiErr mi' = None \<and>
      (\<exists>e k. mi_Event mi' = Some e \<and> k < length iters \<and> mi_left mi k = e # mi_left mi' k \<and>
        (\<forall>j<length iters. j \<noteq> k \<longrightarrow> mi_left mi' j = mi_left mi j) \<and>
        (\<forall>j<length iters. mi_left mi j \<noteq> [] \<longrightarrow> \<not> event_before (hd (mi_left mi j)) e))
    else (MiErr mi' = None \<longrightarrow> (\<forall>i<length iters. SrcErr (iters ! i) = None \<and> mi_left mi i = [])) \<and>
      (MiErr mi' \<noteq> None \<longrightarrow> (\<exists>i<length iters. MiErr mi' = SrcErr (iters ! i)))"
proof (cases "MiErr mi \<noteq> None \<or> MiPq mi = []")
  case True
  then have m: "mi' = mi" "ok = False" using n by (auto simp: mi_Next_def split: if_splits)
  have "\<exists>i<length iters. MiErr mi = SrcErr (iters ! i)" if "MiErr mi \<noteq> None"
    using inv that unfolding mi_inv_def by blast
  moreover have "SrcErr (iters ! i) = None \<and> mi_left mi i = []" if "MiErr mi = None" "i < length iters" for i
    using inv that True unfolding mi_inv_def mi_left_def by auto
  ultimately show ?thesis unfolding m by auto
next
  case False
  obtain x pq where pop: "heap_pop pq_Less (MiPq mi) = (x, pq)" by fastforce
  let ?mi = "mi\<lparr>MiPq := pq, MiCurrent := Some (ItemEvent x)\<rparr>"
  have h: "heap_ok pq_Less (MiPq mi)" "distinct (map ItemIter (MiPq mi))" using inv by (simp_all add: mi_inv_def)
  have c: "heap_ok pq_Less pq" "mset (x # pq) = mset (MiPq mi)"
    using queue.heap_pop_correct [OF h(1) _ pop] False by auto
  have set: "set (MiPq mi) = insert x (set pq)" using mset_eq_setD [OF c(2)] by simp
  have d: "distinct (map ItemIter (x # pq))" using c(2) h(2) by (metis mset_eq_imp_distinct_iff mset_map)
  have x: "ItemIter x < length iters" "ItemIter x \<notin> ItemIter ` set pq" using inv set d by (auto simp: mi_inv_def)
  have nx: "mi_Next mi = mi_advance (ItemIter x) ?mi" using False pop by (simp add: mi_Next_def)
  have adv: "mi_inv iters (length iters) mi' \<and> (\<forall>j<length iters. mi_left mi' j = mi_left ?mi j) \<and>
      MiCurrent mi' = MiCurrent ?mi \<and> (ok \<longrightarrow> MiErr mi' = MiErr ?mi) \<and> (\<not> ok \<longrightarrow> MiErr mi' \<noteq> None)"
    unfolding fst_conv [of mi' ok, folded n [unfolded nx], symmetric] snd_conv [of mi' ok, folded n [unfolded nx], symmetric]
  proof (rule advance_inv)
    show "\<forall>i<length iters. i \<noteq> ItemIter x \<longrightarrow> i \<notin> ItemIter ` set (MiPq ?mi) \<longrightarrow>
        SrcEvents (MiIterators ?mi ! i) = [] \<and> (SrcErr (iters ! i) \<noteq> None \<longrightarrow> MiErr ?mi \<noteq> None)"
      using inv set unfolding mi_inv_def by simp
    show "ItemIter ` set (MiPq ?mi) \<subseteq> {..<length iters}" using inv set unfolding mi_inv_def by simp
    show "MiErr ?mi \<noteq> None \<longrightarrow> (\<exists>i<length iters. MiErr ?mi = SrcErr (iters ! i))" using False by simp
  qed (use inv x c(1) d in \<open>simp_all add: mi_inv_def\<close>)
  have left: "mi_left ?mi j = (if j = ItemIter x then SrcEvents (MiIterators mi ! j) else mi_left mi j)" for j
  proof (cases "j = ItemIter x")
    case True
    have "filter (\<lambda>y. ItemIter y = ItemIter x) pq = []" using x(2) unfolding filter_empty_conv by (metis imageI)
    then show ?thesis using True by (simp add: mi_left_def)
  next
    case False
    then show ?thesis using filter_mset_key [OF c(2) d, of j] by (simp add: mi_left_def)
  qed
  have lx: "mi_left mi (ItemIter x) = ItemEvent x # SrcEvents (MiIterators mi ! ItemIter x)"
    by (rule left_item [OF inv]) (simp add: set)
  have min: "\<not> event_before (hd (mi_left mi j)) (ItemEvent x)" if j: "j < length iters" "mi_left mi j \<noteq> []" for j
  proof -
    obtain y where y: "y \<in> set (MiPq mi)" "ItemIter y = j" using left_head [OF inv j] by blast
    have "\<not> pq_Less y x"
    proof (cases "y = x")
      case True
      then show ?thesis using queue.lt_asym [of x x] by blast
    next
      case False
      then show ?thesis using queue.heap_pop_min [OF h(1) _ pop, of y] \<open>\<not> (MiErr mi \<noteq> None \<or> MiPq mi = [])\<close> y(1) set by blast
    qed
    then show ?thesis using left_item [OF inv y(1)] y(2) by (simp add: pq_Less_def)
  qed
  show ?thesis
  proof (cases ok)
    case True
    have "mi_Event mi' = Some (ItemEvent x)" "mi_left mi (ItemIter x) = ItemEvent x # mi_left mi' (ItemIter x)"
      using adv left lx x by (simp_all add: mi_Event_def)
    moreover have "\<forall>j<length iters. j \<noteq> ItemIter x \<longrightarrow> mi_left mi' j = mi_left mi j" using adv left by simp
    moreover have "mi_inv iters (length iters) mi'" "MiErr mi' = None" using True adv \<open>\<not> (MiErr mi \<noteq> None \<or> MiPq mi = [])\<close> by simp_all
    ultimately show ?thesis using True x(1) min by (simp only: if_True) blast
  next
    case False
    then show ?thesis using adv unfolding mi_inv_def by (simp only: if_False) blast
  qed
qed


section \<open>Draining the iterator\<close>

abbreviation events_sorted :: "store_change_event list \<Rightarrow> bool" where
  "events_sorted evts \<equiv> sorted_wrt (\<lambda>a b. event_rank a \<le> event_rank b) evts"

definition named_sources :: "string list \<Rightarrow> (nat \<Rightarrow> store_change_event list) \<Rightarrow> bool" where
  "named_sources names src \<longleftrightarrow> distinct names \<and>
     (\<forall>i<length names. events_sorted (src i) \<and> (\<forall>e\<in>set (src i). Backend e = names ! i))"

lemma head_least:
  assumes "events_sorted xs" and "xs \<noteq> []" and "\<not> event_before (hd xs) e" and "x \<in> set xs"
  shows "\<not> event_before x e"
  using assms by (cases xs) (auto simp: event_before_rank)

lemma merge_step:
  assumes "named_sources names src" and "k < length names" and "src k = e # src' k"
    and "\<forall>j<length names. j \<noteq> k \<longrightarrow> src' j = src j"
  shows "named_sources names src' \<and> (\<Sum>i<length names. length (src i)) = Suc (\<Sum>i<length names. length (src' i))"
proof
  have "events_sorted (src' j) \<and> (\<forall>e\<in>set (src' j). Backend e = names ! j)" if "j < length names" for j
  proof (cases "j = k")
    case True
    have "events_sorted (src k) \<and> (\<forall>e\<in>set (src k). Backend e = names ! k)" using assms(1,2) by (simp add: named_sources_def)
    then show ?thesis using True assms(3) by simp
  next
    case False
    then show ?thesis using assms(1,4) that by (simp add: named_sources_def)
  qed
  then show "named_sources names src'" using assms(1) by (simp add: named_sources_def)
  have k: "k \<in> {..<length names}" using assms(2) by simp
  have "(\<Sum>i\<in>{..<length names} - {k}. length (src i)) = (\<Sum>i\<in>{..<length names} - {k}. length (src' i))"
    using assms(4) by (intro sum.cong) auto
  then show "(\<Sum>i<length names. length (src i)) = Suc (\<Sum>i<length names. length (src' i))"
    unfolding sum.remove [OF finite_lessThan k] using assms(3) by simp
qed

definition merge_result :: "string list \<Rightarrow> event_source list \<Rightarrow> (nat \<Rightarrow> store_change_event list) \<Rightarrow>
  store_change_event list \<Rightarrow> string option \<Rightarrow> bool" where
  "merge_result names iters src out err \<longleftrightarrow> events_sorted out \<and>
     (\<forall>e\<in>set out. \<exists>i<length names. e \<in> set (src i)) \<and>
     (\<forall>i<length names. \<exists>m. filter (\<lambda>e. Backend e = names ! i) out = take m (src i) \<and>
       (err = None \<longrightarrow> length (src i) \<le> m)) \<and>
     (err = None \<longrightarrow> (\<forall>i<length names. SrcErr (iters ! i) = None)) \<and>
     (err \<noteq> None \<longrightarrow> (\<exists>i<length names. err = SrcErr (iters ! i)))"

lemma merge_result_Cons:
  assumes r: "merge_result names iters src' out err" and src: "named_sources names src" and k: "k < length names"
    and e: "src k = e # src' k" and others: "\<forall>j<length names. j \<noteq> k \<longrightarrow> src' j = src j"
    and least: "\<forall>j<length names. src j \<noteq> [] \<longrightarrow> \<not> event_before (hd (src j)) e"
  shows "merge_result names iters src (e # out) err"
proof -
  have sub: "set (src' i) \<subseteq> set (src i)" if "i < length names" for i
    using e others that by (cases "i = k") auto
  have backend: "Backend e = names ! k" using src k e by (simp add: named_sources_def)
  have mem: "\<exists>i<length names. x \<in> set (src i)" if x: "x \<in> set (e # out)" for x
  proof (cases "x = e")
    case True
    then show ?thesis using k e by (intro exI [of _ k]) simp
  next
    case False
    then have "x \<in> set out" using x by simp
    moreover have "\<forall>x\<in>set out. \<exists>i<length names. x \<in> set (src' i)" using r unfolding merge_result_def by simp
    ultimately show ?thesis using sub by blast
  qed
  have "\<not> event_before x e" if x: "x \<in> set out" for x
  proof -
    have "\<exists>i<length names. x \<in> set (src i)" using x by (intro mem) simp
    then obtain i where i: "i < length names" "x \<in> set (src i)" by blast
    then have ne: "src i \<noteq> []" by auto
    have "events_sorted (src i)" using src i(1) by (simp add: named_sources_def)
    moreover have "\<not> event_before (hd (src i)) e" using least i(1) ne by blast
    ultimately show ?thesis using head_least ne i(2) by blast
  qed
  then have sorted: "events_sorted (e # out)" using r by (simp add: merge_result_def event_before_rank not_less)
  have "\<exists>m. filter (\<lambda>e. Backend e = names ! i) (e # out) = take m (src i) \<and>
      (err = None \<longrightarrow> length (src i) \<le> m)" if i: "i < length names" for i
  proof -
    have "\<exists>m. filter (\<lambda>e. Backend e = names ! i) out = take m (src' i) \<and> (err = None \<longrightarrow> length (src' i) \<le> m)"
      using r i unfolding merge_result_def by simp
    then obtain m where m: "filter (\<lambda>e. Backend e = names ! i) out = take m (src' i)"
      "err = None \<longrightarrow> length (src' i) \<le> m" by blast
    show ?thesis
    proof (cases "i = k")
      case True
      then show ?thesis using m e backend by (intro exI [of _ "Suc m"]) simp
    next
      case False
      then have "names ! k \<noteq> names ! i" using src k i by (simp add: named_sources_def nth_eq_iff_index_eq)
      then show ?thesis using False m others backend i by (intro exI [of _ m]) simp
    qed
  qed
  then show ?thesis using sorted mem r unfolding merge_result_def by simp
qed

lemma drain_merge:
  assumes "mi_inv iters (length iters) mi" and "length names = length iters" and "named_sources names (mi_left mi)"
    and "(\<Sum>i<length names. length (mi_left mi i)) < fuel"
  shows "\<exists>out mi'. mi_drain fuel mi = Some (map Some out, mi') \<and> merge_result names iters (mi_left mi) out (MiErr mi')"
  using assms
proof (induction fuel arbitrary: mi)
  case (Suc fuel)
  obtain mi1 ok where n: "mi_Next mi = (mi1, ok)" by fastforce
  note step = next_merge [OF Suc.prems(1) n]
  show ?case
  proof (cases ok)
    case False
    then have "(MiErr mi1 = None \<longrightarrow> (\<forall>i<length iters. SrcErr (iters ! i) = None \<and> mi_left mi i = [])) \<and>
      (MiErr mi1 \<noteq> None \<longrightarrow> (\<exists>i<length iters. MiErr mi1 = SrcErr (iters ! i)))" using step by simp
    then show ?thesis using n False Suc.prems(2)
      by (intro exI [of _ "[]"] exI [of _ mi1]) (auto simp: merge_result_def)
  next
    case True
    then obtain e k where s: "mi_inv iters (length iters) mi1" "mi_Event mi1 = Some e" "k < length iters"
      "mi_left mi k = e # mi_left mi1 k" "\<forall>j<length iters. j \<noteq> k \<longrightarrow> mi_left mi1 j = mi_left mi j"
      "\<forall>j<length iters. mi_left mi j \<noteq> [] \<longrightarrow> \<not> event_before (hd (mi_left mi j)) e"
      using step by auto
    note s' = s(3-6) [folded Suc.prems(2)]
    note m = merge_step [OF Suc.prems(3) s'(1-3)]
    have fuel: "(\<Sum>i<length names. length (mi_left mi1 i)) < fuel" using m Suc.prems(4) by simp
    obtain out mi' where o: "mi_drain fuel mi1 = Some (map Some out, mi')"
      "merge_result names iters (mi_left mi1) out (MiErr mi')"
      using Suc.IH [OF s(1) Suc.prems(2) conjunct1 [OF m] fuel] by blast
    have "mi_drain (Suc fuel) mi = Some (map Some (e # out), mi')" using n True s(2) o(1) by simp
    then show ?thesis using merge_result_Cons [OF o(2) Suc.prems(3) s'] by blast
  qed
qed simp

section \<open>Properties\<close>

definition sample_sources :: "event_source list" where
  "sample_sources = [\<lparr>SrcEvents = [sample_event StoreOperationInsert ''x'' 2], SrcErr = None\<rparr>,
     inject_source ''b0'' \<lparr>SrcEvents = [(sample_event StoreOperationInsert ''y'' 1)\<lparr>Backend := ''''\<rparr>], SrcErr = Some ''closed''\<rparr>]"

text \<open>
  C12: The merge of the backends' streams is ordered and complete.  When every source holds the events of one
  backend, in the order of their cluster times, the consumer's loop over the merged iterator ends within one
  round per event and one more; the events it saw are in order of cluster time and backend, and those of each
  backend are a prefix of its source in the order of the source.  The iterator ends without an error exactly
  when no source fails, and then every event of every source was returned; otherwise the error is a source's.
\<close>

theorem merge_events:
  assumes "length names = length iters" and "named_sources names (\<lambda>i. SrcEvents (iters ! i))"
  shows "\<exists>out mi'. mi_drain (Suc (\<Sum>i<length iters. length (SrcEvents (iters ! i)))) (NewMergeIterator iters) =
      Some (map Some out, mi') \<and> events_sorted out \<and>
    (\<forall>i<length iters. \<exists>m. filter (\<lambda>e. Backend e = names ! i) out = take m (SrcEvents (iters ! i)) \<and>
      (mi_Err mi' = None \<longrightarrow> length (SrcEvents (iters ! i)) \<le> m)) \<and>
    (\<forall>e\<in>set out. Backend e \<in> set names) \<and>
    (mi_Err mi' = None \<longleftrightarrow> (\<forall>i<length iters. SrcErr (iters ! i) = None)) \<and>
    (mi_Err mi' \<noteq> None \<longrightarrow> (\<exists>i<length iters. mi_Err mi' = SrcErr (iters ! i)))"
proof -
  have inv: "mi_inv iters (length iters) (NewMergeIterator iters)"
    and left: "i < length iters \<Longrightarrow> mi_left (NewMergeIterator iters) i = SrcEvents (iters ! i)" for i
    using new_inv by auto
  have "named_sources names (mi_left (NewMergeIterator iters))"
    using assms left by (simp add: named_sources_def)
  from drain_merge [OF inv assms(1) this, unfolded assms(1), OF lessI] obtain out mi' where o:
    "mi_drain (Suc (\<Sum>i<length iters. length (mi_left (NewMergeIterator iters) i))) (NewMergeIterator iters) = Some (map Some out, mi')"
    "merge_result names iters (mi_left (NewMergeIterator iters)) out (MiErr mi')" by blast
  note r = o(2) [unfolded merge_result_def assms(1)]
  have "(\<Sum>i<length iters. length (mi_left (NewMergeIterator iters) i)) = (\<Sum>i<length iters. length (SrcEvents (iters ! i)))"
    using left by (intro sum.cong) auto
  moreover have "\<forall>e\<in>set out. Backend e \<in> set names"
  proof
    fix e
    assume "e \<in> set out"
    then have "\<exists>i<length iters. e \<in> set (mi_left (NewMergeIterator iters) i)" using r by simp
    then obtain i where i: "i < length iters" "e \<in> set (mi_left (NewMergeIterator iters) i)" by blast
    then have "Backend e = names ! i" using left assms by (simp add: named_sources_def)
    then show "Backend e \<in> set names" using i(1) assms(1) by simp
  qed
  moreover have "\<forall>i<length iters. \<exists>m. filter (\<lambda>e. Backend e = names ! i) out = take m (SrcEvents (iters ! i)) \<and>
      (MiErr mi' = None \<longrightarrow> length (SrcEvents (iters ! i)) \<le> m)" using r left by simp
  moreover have "MiErr mi' = None \<longleftrightarrow> (\<forall>i<length iters. SrcErr (iters ! i) = None)" using r by metis
  ultimately show ?thesis unfolding mi_Err_def using o(1) r
    by (intro exI [of _ out] exI [of _ mi'] conjI) simp_all
qed

theorem merge_events_witness:
  "length [''b1'', ''b0''] = length sample_sources \<and>
   named_sources [''b1'', ''b0''] (\<lambda>i. SrcEvents (sample_sources ! i)) \<and>
   (\<exists>out mi'. mi_drain 3 (NewMergeIterator sample_sources) = Some (map Some out, mi') \<and> events_sorted out \<and>
      mi_Err mi' = Some ''closed'')"
proof -
  have len: "length [''b1'', ''b0''] = length sample_sources" by (simp add: sample_sources_def)
  have src: "named_sources [''b1'', ''b0''] (\<lambda>i. SrcEvents (sample_sources ! i))"
    by (simp add: named_sources_def less_Suc_eq numeral_2_eq_2 sample_sources_def inject_source_def inject_backend_def sample_event_def)
  have sum: "(\<Sum>i<length sample_sources. length (SrcEvents (sample_sources ! i))) = 2"
    by (simp add: sample_sources_def inject_source_def)
  from merge_events [OF len src, unfolded sum] obtain out mi' where o:
    "mi_drain (Suc 2) (NewMergeIterator sample_sources) = Some (map Some out, mi')" "events_sorted out"
    "mi_Err mi' = None \<longleftrightarrow> (\<forall>i<length sample_sources. SrcErr (sample_sources ! i) = None)"
    "mi_Err mi' \<noteq> None \<longrightarrow> (\<exists>i<length sample_sources. mi_Err mi' = SrcErr (sample_sources ! i))" by (elim exE conjE)
  have errs: "SrcErr (sample_sources ! 0) = None" "SrcErr (sample_sources ! 1) = Some ''closed''" "length sample_sources = 2"
    by (simp_all add: sample_sources_def inject_source_def)
  have "mi_Err mi' \<noteq> None" using o(3) errs by (metis less_numeral_extra(1) one_less_numeral_iff option.distinct(1) semiring_norm(76))
  then obtain i where i: "i < 2" "mi_Err mi' = SrcErr (sample_sources ! i)" using o(4) errs(3) by auto
  then have "i = 0 \<or> i = 1" by linarith
  then have "mi_Err mi' = Some ''closed''" using i(2) errs(1,2) \<open>mi_Err mi' \<noteq> None\<close> by auto
  then show ?thesis using len src o(1,2) by (simp only: eval_nat_numeral) blast
qed

end
