(* ===== verification/Delivery.thy ===== *)
theory Delivery
  imports EventIDs EventMerge
begin

text \<open>
  Delivery to a subscriber (\<^verbatim>\<open>internal/puller/core/subscriber.go\<close> and the delivery of \<^verbatim>\<open>subscription.go\<close>): the
  live queue with its recovery fence, the admission groups of a subscription that starts from now, and the
  positions that keep an event from being delivered twice.
\<close>

section \<open>Subscriber\<close>

record admission_group =
  GroupTime :: cluster_time
  GroupIDs :: "string set"

text \<open>
  A channel is the list of what it holds, with its capacity; \<open>recovery\<close> says whether the one-place notification
  is set, and \<open>SubDone\<close> whether the subscriber was closed.
\<close>

record subscriber =
  SubID :: string
  After :: progress_marker
  CoalesceOnCatchUp :: bool
  currentPos :: progress_marker
  lastClusterTime :: "string \<Rightarrow> cluster_time option"
  deliveredIDs :: "string \<Rightarrow> string set option"
  SubDone :: bool
  SubCh :: "store_change_event option list"
  SubChCap :: int
  recoveryPending :: bool
  recovery :: bool
  startFromNow :: bool
  admissionGroups :: "string \<Rightarrow> admission_group option"

text \<open>The floors of the backends with a position; \<open>order\<close> is the order in which Go iterates the positions.\<close>

fun parse_floors :: "(string \<Rightarrow> string option) \<Rightarrow> string list \<Rightarrow> (string \<Rightarrow> cluster_time option) \<Rightarrow>
  (string \<times> scan_error) + (string \<Rightarrow> cluster_time option)" where
  "parse_floors positions [] floors = Inr floors"
| "parse_floors positions (backend # order) floors =
     (case positions backend of None \<Rightarrow> parse_floors positions order floors
      | Some eventID \<Rightarrow>
          if eventID = '''' then parse_floors positions order floors
          else case ParseEventID eventID of
            Inl err \<Rightarrow> Inl (backend, err)
          | Inr timestamp \<Rightarrow> parse_floors positions order (floors(backend \<mapsto> timestamp)))"

definition NewSubscriber :: "string list \<Rightarrow> string \<Rightarrow> progress_marker option \<Rightarrow> bool \<Rightarrow> bool \<Rightarrow> int \<Rightarrow>
  (string \<times> scan_error) + subscriber" where
  "NewSubscriber order sid after fromNow coalesceOnCatchUp channelSize =
     (let after = (case after of None \<Rightarrow> NewProgressMarker | Some pm \<Rightarrow> pm);
          size = (if channelSize \<le> 0 then 10000 else channelSize) in
      bind_result (parse_floors (PmPositions after) order Map.empty) (\<lambda>floors.
        Inr \<lparr>SubID = sid, After = after, CoalesceOnCatchUp = coalesceOnCatchUp, currentPos = pm_Clone (Some after),
          lastClusterTime = floors, deliveredIDs = Map.empty, SubDone = False, SubCh = [], SubChCap = size,
          recoveryPending = False, recovery = False, startFromNow = fromNow, admissionGroups = Map.empty\<rparr>))"

section \<open>Admission to the live queue\<close>

definition note_admission :: "store_change_event option \<Rightarrow> subscriber \<Rightarrow> subscriber" where
  "note_admission event s =
     (case event of
        Some e \<Rightarrow>
          if startFromNow s then
            let grp = (case admissionGroups s (Backend e) of
                  None \<Rightarrow> \<lparr>GroupTime = EvClusterTime e, GroupIDs = {}\<rparr> | Some g \<Rightarrow> g);
                grp' = (if ct_Compare (EvClusterTime e) (GroupTime grp) = 0
                  then grp\<lparr>GroupIDs := insert (EventID e) (GroupIDs grp)\<rparr> else grp)
            in s\<lparr>admissionGroups := (admissionGroups s)(Backend e \<mapsto> grp')\<rparr>
          else s
      | None \<Rightarrow> s)"

definition enqueue :: "store_change_event option \<Rightarrow> subscriber \<Rightarrow> subscriber \<times> bool \<times> bool" where
  "enqueue event s =
     (let s = note_admission event s in
      if recoveryPending s then (s, False, False)
      else if int (length (SubCh s)) < SubChCap s then (s\<lparr>SubCh := SubCh s @ [event]\<rparr>, True, False)
      else (s\<lparr>recoveryPending := True, recovery := True\<rparr>, False, True))"

definition replayAdmitted :: "store_change_event option \<Rightarrow> subscriber \<Rightarrow> bool" where
  "replayAdmitted event s =
     (case event of None \<Rightarrow> True
      | Some e \<Rightarrow>
          if \<not> startFromNow s then True
          else case admissionGroups s (Backend e) of None \<Rightarrow> False
            | Some grp \<Rightarrow>
                let cmp = ct_Compare (EvClusterTime e) (GroupTime grp) in
                if cmp = -1 then False else if cmp = 1 then True else EventID e \<in> GroupIDs grp)"

definition AdmissionFloors :: "subscriber \<Rightarrow> string \<Rightarrow> cluster_time option" where
  "AdmissionFloors s = (\<lambda>backend. map_option GroupTime (admissionGroups s backend))"

definition drainEvents :: "subscriber \<Rightarrow> subscriber" where
  "drainEvents s = s\<lparr>SubCh := []\<rparr>"

definition BeginRecovery :: "subscriber \<Rightarrow> subscriber" where
  "BeginRecovery s = s\<lparr>recoveryPending := False, recovery := False\<rparr>"

definition RecoveryPending :: "subscriber \<Rightarrow> bool" where
  "RecoveryPending s = recoveryPending s"

definition take_event :: "subscriber \<Rightarrow> subscriber \<times> store_change_event option option" where
  "take_event s = (case SubCh s of [] \<Rightarrow> (s, None) | e # es \<Rightarrow> (s\<lparr>SubCh := es\<rparr>, Some e))"

definition sub_Close :: "subscriber \<Rightarrow> subscriber" where
  "sub_Close s = (if SubDone s then s else s\<lparr>SubDone := True\<rparr>)"

section \<open>Positions\<close>

definition UpdatePosition :: "string \<Rightarrow> string \<Rightarrow> cluster_time \<Rightarrow> subscriber \<Rightarrow> subscriber" where
  "UpdatePosition backend eventID clusterTime s =
     (let fresh = (case lastClusterTime s backend of None \<Rightarrow> True
            | Some previous \<Rightarrow> ct_Compare clusterTime previous \<noteq> 0 \<or> deliveredIDs s backend = None);
          ids = (if fresh then {} else the (deliveredIDs s backend)) in
      s\<lparr>currentPos := SetPosition backend eventID (currentPos s),
        lastClusterTime := (lastClusterTime s)(backend \<mapsto> clusterTime),
        deliveredIDs := (deliveredIDs s)(backend \<mapsto> insert eventID ids)\<rparr>)"

definition ShouldSend :: "string \<Rightarrow> string \<Rightarrow> cluster_time \<Rightarrow> subscriber \<Rightarrow> bool" where
  "ShouldSend backend eventID clusterTime s =
     (case lastClusterTime s backend of None \<Rightarrow> True
      | Some lst \<Rightarrow>
          let cmp = ct_Compare clusterTime lst in
          if cmp = -1 then False else if cmp = 1 then True
          else \<not> (case deliveredIDs s backend of None \<Rightarrow> False | Some ids \<Rightarrow> eventID \<in> ids))"

definition CurrentProgress :: "subscriber \<Rightarrow> progress_marker" where
  "CurrentProgress s = pm_Clone (Some (currentPos s))"

section \<open>Delivery\<close>

datatype subscription_phase = PhaseReplay | PhaseReady | PhaseLive | PhaseMaintenance

datatype exit_kind = ContextCanceled | SubscriberClosed | ReplayFailed | DeliveryFailed | ReadyFailed | MaintenanceFailed

record subscription_exit =
  ExitKind :: exit_kind
  ExitPhase :: subscription_phase
  ExitErr :: "string option"
  CleanupErr :: "string option"

definition canceledSubscriptionExit :: "subscription_phase \<Rightarrow> string \<Rightarrow> string option \<Rightarrow> subscription_exit" where
  "canceledSubscriptionExit phase err cleanupErr =
     \<lparr>ExitKind = ContextCanceled, ExitPhase = phase, ExitErr = Some err, CleanupErr = cleanupErr\<rparr>"

text \<open>
  The context and the transport are seen through what they answer: the errors of the context when it is asked,
  and the error of the driver's \<^verbatim>\<open>Deliver\<close>.
\<close>

record delivery_env =
  CtxEntry :: "string option"
  CtxDone :: "string option"
  DeliverErr :: "string option"
  CtxAfter :: "string option"

definition subscriptionStopped :: "delivery_env \<Rightarrow> subscriber \<Rightarrow> subscription_phase \<Rightarrow> subscription_exit option" where
  "subscriptionStopped env s phase =
     (case CtxEntry env of Some err \<Rightarrow> Some (canceledSubscriptionExit phase err None)
      | None \<Rightarrow>
          if SubDone s then
            (case CtxDone env of Some err \<Rightarrow> Some (canceledSubscriptionExit phase err None)
             | None \<Rightarrow> Some \<lparr>ExitKind = SubscriberClosed, ExitPhase = phase, ExitErr = None, CleanupErr = None\<rparr>)
          else None)"

definition ErrNilSubscriptionEvent :: string where
  "ErrNilSubscriptionEvent = ''subscription source returned a nil event''"

text \<open>The event and the progress passed to \<^verbatim>\<open>Deliver\<close>, if it was called and succeeded, and the exit.\<close>

definition deliverSubscriptionEvent :: "delivery_env \<Rightarrow> store_change_event option \<Rightarrow> subscription_phase \<Rightarrow> subscriber \<Rightarrow>
  subscriber \<times> (store_change_event \<times> progress_marker) option \<times> subscription_exit option" where
  "deliverSubscriptionEvent env evt phase s =
     (case subscriptionStopped env s phase of Some exit \<Rightarrow> (s, None, Some exit)
      | None \<Rightarrow>
      case evt of
        None \<Rightarrow> (s, None, Some \<lparr>ExitKind = DeliveryFailed, ExitPhase = phase, ExitErr = Some ErrNilSubscriptionEvent, CleanupErr = None\<rparr>)
      | Some e \<Rightarrow>
          if \<not> ShouldSend (Backend e) (EventID e) (EvClusterTime e) s then (s, None, None)
          else
            let pm = SetPosition (Backend e) (EventID e) (CurrentProgress s) in
            case DeliverErr env of
              Some err \<Rightarrow>
                (case CtxAfter env of Some ctxErr \<Rightarrow> (s, None, Some (canceledSubscriptionExit phase ctxErr None))
                 | None \<Rightarrow> (s, None, Some \<lparr>ExitKind = DeliveryFailed, ExitPhase = phase, ExitErr = Some err, CleanupErr = None\<rparr>))
            | None \<Rightarrow> (UpdatePosition (Backend e) (EventID e) (EvClusterTime e) s, Some (e, pm), None))"

text \<open>The events offered to a subscriber one after the other, until an exit.\<close>

fun deliver_all :: "(delivery_env \<times> store_change_event option \<times> subscription_phase) list \<Rightarrow> subscriber \<Rightarrow>
  (store_change_event \<times> progress_marker) list \<times> subscriber \<times> subscription_exit option" where
  "deliver_all [] s = ([], s, None)"
| "deliver_all ((env, evt, phase) # offers) s =
     (case deliverSubscriptionEvent env evt phase s of
        (s', sent, Some exit) \<Rightarrow> ([], s', Some exit)
      | (s', sent, None) \<Rightarrow>
          (case deliver_all offers s' of (out, s'', exit) \<Rightarrow> ((case sent of None \<Rightarrow> out | Some x \<Rightarrow> x # out), s'', exit)))"

section \<open>What has been delivered\<close>

definition ct_rank :: "cluster_time \<Rightarrow> 32 word \<times> 32 word" where
  "ct_rank ct = (TimeT ct, TimeI ct)"

lemma ct_Compare_rank:
  "ct_Compare a b = -1 \<longleftrightarrow> ct_rank a < ct_rank b"
  "ct_Compare a b = 1 \<longleftrightarrow> ct_rank b < ct_rank a"
  "ct_Compare a b = 0 \<longleftrightarrow> ct_rank a = ct_rank b"
  by (auto simp: ct_Compare_def ct_rank_def)

definition later :: "store_change_event \<Rightarrow> store_change_event \<Rightarrow> bool" where
  "later d e \<longleftrightarrow> (Backend d = Backend e \<longrightarrow> ct_rank (EvClusterTime d) < ct_rank (EvClusterTime e) \<or>
     ct_rank (EvClusterTime d) = ct_rank (EvClusterTime e) \<and> EventID d \<noteq> EventID e)"

definition positions_after :: "(string \<Rightarrow> string option) \<Rightarrow> store_change_event list \<Rightarrow> string \<Rightarrow> string option" where
  "positions_after pos evts = fold (\<lambda>e p. p(Backend e \<mapsto> EventID e)) evts pos"

definition covered :: "(string \<Rightarrow> cluster_time option) \<Rightarrow> store_change_event list \<Rightarrow> store_change_event \<Rightarrow> bool" where
  "covered floors sent e \<longleftrightarrow>
     (\<exists>d\<in>set sent. Backend d = Backend e \<and> (ct_rank (EvClusterTime e) < ct_rank (EvClusterTime d) \<or>
        ct_rank (EvClusterTime e) = ct_rank (EvClusterTime d) \<and> EventID d = EventID e)) \<or>
     (\<exists>floor. floors (Backend e) = Some floor \<and> ct_rank (EvClusterTime e) < ct_rank floor)"

definition sent_to :: "string \<Rightarrow> store_change_event list \<Rightarrow> store_change_event list" where
  "sent_to b sent = filter (\<lambda>d. Backend d = b) sent"

definition delivery_inv :: "subscriber \<Rightarrow> store_change_event list \<Rightarrow> subscriber \<Rightarrow> bool" where
  "delivery_inv s0 sent s \<longleftrightarrow> sorted_wrt later sent \<and>
     PmPositions (currentPos s) = positions_after (PmPositions (currentPos s0)) sent \<and>
     (\<forall>e\<in>set sent. \<forall>floor. lastClusterTime s0 (Backend e) = Some floor \<longrightarrow> ct_rank floor \<le> ct_rank (EvClusterTime e)) \<and>
     (\<forall>b. if sent_to b sent = [] then lastClusterTime s b = lastClusterTime s0 b \<and> deliveredIDs s b = None
        else lastClusterTime s b = Some (EvClusterTime (last (sent_to b sent))) \<and>
          deliveredIDs s b = Some (EventID ` {d \<in> set (sent_to b sent).
            ct_rank (EvClusterTime d) = ct_rank (EvClusterTime (last (sent_to b sent)))}))"

lemma sent_to_snoc: "sent_to b (sent @ [e]) = (if Backend e = b then sent_to b sent @ [e] else sent_to b sent)"
  by (simp add: sent_to_def)

lemma last_sent_later:
  assumes "sorted_wrt later sent" and "d \<in> set (sent_to b sent)"
  shows "ct_rank (EvClusterTime d) \<le> ct_rank (EvClusterTime (last (sent_to b sent)))"
proof -
  have "sorted_wrt (\<lambda>x y. ct_rank (EvClusterTime x) \<le> ct_rank (EvClusterTime y)) (sent_to b sent)"
    using assms(1) unfolding sent_to_def
    by (intro sorted_wrt_mono_rel [OF _ sorted_wrt_filter]) (auto simp: later_def)
  then show ?thesis using assms(2)
    by (induction "sent_to b sent" rule: rev_induct) (auto simp: sorted_wrt_append dest!: sym [of _ "sent_to b sent"])
qed

lemma ShouldSend_sent:
  assumes inv: "delivery_inv s0 sent s"
  shows "ShouldSend (Backend e) (EventID e) (EvClusterTime e) s \<longleftrightarrow> \<not> covered (lastClusterTime s0) sent e"
proof -
  let ?b = "Backend e"
  let ?fs = "sent_to ?b sent"
  have st: "if ?fs = [] then lastClusterTime s ?b = lastClusterTime s0 ?b \<and> deliveredIDs s ?b = None
        else lastClusterTime s ?b = Some (EvClusterTime (last ?fs)) \<and>
          deliveredIDs s ?b = Some (EventID ` {d \<in> set ?fs. ct_rank (EvClusterTime d) = ct_rank (EvClusterTime (last ?fs))})"
    using inv unfolding delivery_inv_def by blast
  have mem: "d \<in> set sent \<and> Backend d = ?b \<longleftrightarrow> d \<in> set ?fs" for d by (auto simp: sent_to_def)
  show ?thesis
  proof (cases "?fs = []")
    case True
    then have "\<not> (\<exists>d\<in>set sent. Backend d = ?b)" using mem by auto
    then show ?thesis using st True
      by (auto simp: ShouldSend_def covered_def ct_Compare_rank Let_def split: option.splits)
  next
    case False
    let ?l = "last ?fs"
    have s: "lastClusterTime s ?b = Some (EvClusterTime ?l)"
      "deliveredIDs s ?b = Some (EventID ` {d \<in> set ?fs. ct_rank (EvClusterTime d) = ct_rank (EvClusterTime ?l)})"
      using st False by simp_all
    have l: "?l \<in> set ?fs" using False by simp
    have max: "ct_rank (EvClusterTime d) \<le> ct_rank (EvClusterTime ?l)" if "d \<in> set ?fs" for d
      using last_sent_later that inv unfolding delivery_inv_def by blast
    have bl: "Backend ?l = ?b" "?l \<in> set sent" using l mem [of ?l] by simp_all
    have floors: "\<forall>e\<in>set sent. \<forall>floor. lastClusterTime s0 (Backend e) = Some floor \<longrightarrow> ct_rank floor \<le> ct_rank (EvClusterTime e)"
      using inv unfolding delivery_inv_def by simp
    have floor: "ct_rank floor \<le> ct_rank (EvClusterTime ?l)" if "lastClusterTime s0 ?b = Some floor" for floor
      using floors bl that by simp
    define r where "r d = ct_rank (EvClusterTime d)" for d :: store_change_event
    have "covered (lastClusterTime s0) sent e \<longleftrightarrow> (\<exists>d\<in>set ?fs. r e < r d \<or> r e = r d \<and> EventID d = EventID e) \<or>
        (\<exists>floor. lastClusterTime s0 ?b = Some floor \<and> r e < ct_rank floor)"
      unfolding covered_def r_def using mem by blast
    also have "\<dots> \<longleftrightarrow> r e < r ?l \<or> r e = r ?l \<and> (\<exists>d\<in>set ?fs. r d = r ?l \<and> EventID d = EventID e)" (is "?A \<longleftrightarrow> ?B")
    proof
      assume ?A
      then consider d where "d \<in> set ?fs" "r e < r d" | d where "d \<in> set ?fs" "r e = r d" "EventID d = EventID e"
        | floor where "lastClusterTime s0 ?b = Some floor" "r e < ct_rank floor" by blast
      then show ?B
      proof cases
        case 1
        then show ?thesis using max [of d] unfolding r_def by (intro disjI1) (rule less_le_trans)
      next
        case 2
        then show ?thesis using max [of d] unfolding r_def by (cases "ct_rank (EvClusterTime d) = ct_rank (EvClusterTime ?l)") auto
      next
        case 3
        then show ?thesis using floor [of floor] unfolding r_def by (intro disjI1) (rule less_le_trans)
      qed
    next
      assume ?B
      then show ?A using l by auto
    qed
    also have "\<dots> \<longleftrightarrow> \<not> ShouldSend ?b (EventID e) (EvClusterTime e) s"
      unfolding ShouldSend_def s r_def by (auto simp: ct_Compare_rank Let_def intro: rev_image_eqI)
    finally show ?thesis by blast
  qed
qed


lemma deliver_inv:
  assumes inv: "delivery_inv s0 sent s" and new: "\<not> covered (lastClusterTime s0) sent e"
  shows "delivery_inv s0 (sent @ [e]) (UpdatePosition (Backend e) (EventID e) (EvClusterTime e) s)"
    (is "delivery_inv s0 ?sent ?s")
proof -
  have sorted: "sorted_wrt later sent" and pos: "PmPositions (currentPos s) = positions_after (PmPositions (currentPos s0)) sent"
    and floors: "\<forall>e\<in>set sent. \<forall>floor. lastClusterTime s0 (Backend e) = Some floor \<longrightarrow> ct_rank floor \<le> ct_rank (EvClusterTime e)"
    using inv unfolding delivery_inv_def by simp_all
  have state: "if sent_to b sent = [] then lastClusterTime s b = lastClusterTime s0 b \<and> deliveredIDs s b = None
        else lastClusterTime s b = Some (EvClusterTime (last (sent_to b sent))) \<and>
          deliveredIDs s b = Some (EventID ` {d \<in> set (sent_to b sent).
            ct_rank (EvClusterTime d) = ct_rank (EvClusterTime (last (sent_to b sent)))})" for b
    using inv unfolding delivery_inv_def by blast
  have less: "\<not> ct_rank (EvClusterTime e) < ct_rank (EvClusterTime d) \<and>
      (ct_rank (EvClusterTime e) = ct_rank (EvClusterTime d) \<longrightarrow> EventID d \<noteq> EventID e)"
    if "d \<in> set sent" "Backend d = Backend e" for d using new that unfolding covered_def by blast
  have "later d e" if "d \<in> set sent" for d
    using less [OF that] unfolding later_def by (metis linorder_neqE)
  then have "sorted_wrt later ?sent" using sorted by (simp add: sorted_wrt_append)
  moreover have "PmPositions (currentPos ?s) = positions_after (PmPositions (currentPos s0)) ?sent"
    using pos by (simp add: UpdatePosition_def SetPosition_def positions_after_def Let_def)
  moreover have "\<forall>d\<in>set ?sent. \<forall>floor. lastClusterTime s0 (Backend d) = Some floor \<longrightarrow> ct_rank floor \<le> ct_rank (EvClusterTime d)"
    using floors new unfolding covered_def by (simp add: not_less)
  moreover have "if sent_to b ?sent = [] then lastClusterTime ?s b = lastClusterTime s0 b \<and> deliveredIDs ?s b = None
        else lastClusterTime ?s b = Some (EvClusterTime (last (sent_to b ?sent))) \<and>
          deliveredIDs ?s b = Some (EventID ` {d \<in> set (sent_to b ?sent).
            ct_rank (EvClusterTime d) = ct_rank (EvClusterTime (last (sent_to b ?sent)))})" for b
  proof (cases "Backend e = b")
    case False
    then show ?thesis using state [of b] by (simp add: sent_to_snoc UpdatePosition_def Let_def)
  next
    case b: True
    let ?fs = "sent_to b sent"
    have snoc: "sent_to b ?sent = ?fs @ [e]" using b by (simp add: sent_to_snoc)
    have ids: "deliveredIDs ?s b = Some (insert (EventID e) (EventID ` {d \<in> set ?fs. ct_rank (EvClusterTime d) = ct_rank (EvClusterTime e)}))"
    proof (cases "?fs = []")
      case True
      then have "deliveredIDs s b = None" using state [of b] by simp
      then show ?thesis using True b by (auto simp: UpdatePosition_def Let_def split: option.splits)
    next
      case False
      let ?l = "last ?fs"
      have s: "lastClusterTime s b = Some (EvClusterTime ?l)"
        "deliveredIDs s b = Some (EventID ` {d \<in> set ?fs. ct_rank (EvClusterTime d) = ct_rank (EvClusterTime ?l)})"
        using state [of b] False by simp_all
      show ?thesis
      proof (cases "ct_rank (EvClusterTime e) = ct_rank (EvClusterTime ?l)")
        case True
        then show ?thesis using s b by (simp add: UpdatePosition_def Let_def ct_Compare_rank)
      next
        case False
        have "ct_rank (EvClusterTime d) \<noteq> ct_rank (EvClusterTime e)" if "d \<in> set ?fs" for d
        proof -
          have "?l \<in> set ?fs" using \<open>?fs \<noteq> []\<close> by simp
          then have l: "?l \<in> set sent" "Backend ?l = Backend e" using b by (simp_all add: sent_to_def)
          show ?thesis using last_sent_later [OF sorted that] less [OF l] False by auto
        qed
        then have none: "{d \<in> set ?fs. ct_rank (EvClusterTime d) = ct_rank (EvClusterTime e)} = {}" by blast
        show ?thesis unfolding none using False s b by (simp add: UpdatePosition_def Let_def ct_Compare_rank)
      qed
    qed
    moreover have "lastClusterTime ?s b = Some (EvClusterTime e)" using b by (simp add: UpdatePosition_def Let_def)
    moreover have "{d \<in> set (?fs @ [e]). ct_rank (EvClusterTime d) = ct_rank (EvClusterTime e)} =
        insert e {d \<in> set ?fs. ct_rank (EvClusterTime d) = ct_rank (EvClusterTime e)}" by auto
    ultimately show ?thesis unfolding snoc by simp
  qed
  ultimately show ?thesis unfolding delivery_inv_def by blast
qed


lemma deliver_step:
  assumes inv: "delivery_inv s0 sent s" and d: "deliverSubscriptionEvent env evt phase s = (s', passed, exit)"
  shows "case passed of
      None \<Rightarrow> s' = s \<and> (exit = None \<longrightarrow> (\<forall>e. evt = Some e \<longrightarrow> covered (lastClusterTime s0) sent e))
    | Some (e, pm) \<Rightarrow> exit = None \<and> evt = Some e \<and> delivery_inv s0 (sent @ [e]) s' \<and>
        PmPositions pm = positions_after (PmPositions (currentPos s0)) (sent @ [e])"
proof (cases "passed")
  case None
  then show ?thesis using d ShouldSend_sent [OF inv]
    by (auto simp: deliverSubscriptionEvent_def Let_def split: option.splits if_splits)
next
  case (Some x)
  obtain e pm where x: "x = (e, pm)" by fastforce
  have p: "exit = None" "evt = Some e" "ShouldSend (Backend e) (EventID e) (EvClusterTime e) s"
    "s' = UpdatePosition (Backend e) (EventID e) (EvClusterTime e) s"
    "pm = SetPosition (Backend e) (EventID e) (CurrentProgress s)"
    using d Some x by (auto simp: deliverSubscriptionEvent_def Let_def split: option.splits if_splits)
  have "PmPositions (currentPos s) = positions_after (PmPositions (currentPos s0)) sent"
    using inv unfolding delivery_inv_def by simp
  then have "PmPositions pm = positions_after (PmPositions (currentPos s0)) (sent @ [e])"
    by (simp add: p(5) SetPosition_def CurrentProgress_def pm_Clone_def positions_after_def)
  then show ?thesis using Some x p deliver_inv [OF inv] ShouldSend_sent [OF inv, of e] by simp
qed

lemma covered_mono: "covered floors sent e \<Longrightarrow> covered floors (sent @ more_sent) e"
  by (auto simp: covered_def)

lemma covered_self: "e \<in> set sent \<Longrightarrow> covered floors sent e"
  by (auto simp: covered_def)

lemma deliver_all_inv:
  assumes "delivery_inv s0 sent s" and "deliver_all offers s = (out, s', exit)"
  shows "delivery_inv s0 (sent @ map fst out) s' \<and> set (map (Some \<circ> fst) out) \<subseteq> set (map (fst \<circ> snd) offers) \<and>
    (\<forall>i<length out. PmPositions (snd (out ! i)) =
       positions_after (PmPositions (currentPos s0)) (sent @ take (Suc i) (map fst out))) \<and>
    (exit = None \<longrightarrow> (\<forall>env e phase. (env, Some e, phase) \<in> set offers \<longrightarrow> covered (lastClusterTime s0) (sent @ map fst out) e))"
  using assms
proof (induction offers arbitrary: sent s out)
  case (Cons offer offers)
  obtain env evt phase where o: "offer = (env, evt, phase)" using prod_cases3 by blast
  obtain s1 passed exit1 where d: "deliverSubscriptionEvent env evt phase s = (s1, passed, exit1)" using prod_cases3 by blast
  note step = deliver_step [OF Cons.prems(1) d]
  show ?case
  proof (cases exit1)
    case (Some x)
    then have "passed = None" using step by (cases passed) auto
    then show ?thesis using Cons.prems o d Some step by auto
  next
    case None
    obtain out1 where r: "deliver_all offers s1 = (out1, s', exit)" "out = (case passed of None \<Rightarrow> out1 | Some x \<Rightarrow> x # out1)"
      using Cons.prems(2) o d None by (auto split: prod.splits)
    show ?thesis
    proof (cases passed)
      case none: None
      then have s: "s1 = s" "\<forall>e. evt = Some e \<longrightarrow> covered (lastClusterTime s0) sent e" using step None by simp_all
      have out: "out1 = out" using r(2) none by simp
      note ih = Cons.IH [OF Cons.prems(1) r(1) [unfolded s(1) out]]
      have "covered (lastClusterTime s0) (sent @ map fst out) e" if "evt = Some e" for e using s(2) that covered_mono by blast
      then show ?thesis using ih o by auto
    next
      case (Some x)
      obtain e pm where x: "x = (e, pm)" by fastforce
      have s: "evt = Some e" "delivery_inv s0 (sent @ [e]) s1"
        "PmPositions pm = positions_after (PmPositions (currentPos s0)) (sent @ [e])" using step Some x by simp_all
      have out: "out = (e, pm) # out1" using r(2) Some x by simp
      note ih = Cons.IH [OF s(2) r(1)]
      have "PmPositions (snd (out ! i)) = positions_after (PmPositions (currentPos s0)) (sent @ take (Suc i) (map fst out))"
        if "i < length out" for i using ih s(3) that unfolding out by (cases i) simp_all
      moreover have "covered (lastClusterTime s0) (sent @ map fst out) e" by (rule covered_self) (simp add: out)
      ultimately show ?thesis using ih o s(1) unfolding out by auto
    qed
  qed
qed simp

lemma new_subscriber_inv:
  assumes "NewSubscriber order sid after fromNow coalesce channelSize = Inr s"
  shows "delivery_inv s [] s"
  using assms by (auto simp: NewSubscriber_def delivery_inv_def positions_after_def sent_to_def Let_def bind_result_Inr)

text \<open>
  The progress a subscription resumes from: the positions of the marker it was given, and for a backend with an
  event ID as its position the cluster time that ID begins with.
\<close>

definition resume_positions :: "progress_marker option \<Rightarrow> string \<Rightarrow> string option" where
  "resume_positions after = (case after of None \<Rightarrow> Map.empty | Some pm \<Rightarrow> PmPositions pm)"

definition resume_floor :: "progress_marker option \<Rightarrow> string \<Rightarrow> cluster_time option" where
  "resume_floor after backend =
     (case resume_positions after backend of None \<Rightarrow> None
      | Some eventID \<Rightarrow> if eventID = '''' then None
          else case ParseEventID eventID of Inl _ \<Rightarrow> None | Inr ct \<Rightarrow> Some ct)"

lemma parse_floors_at:
  "parse_floors positions order floors = Inr floors' \<Longrightarrow>
   floors' b = (if b \<in> set order then
       (case positions b of None \<Rightarrow> floors b
        | Some eventID \<Rightarrow> if eventID = '''' then floors b
            else case ParseEventID eventID of Inl _ \<Rightarrow> floors b | Inr ct \<Rightarrow> Some ct)
     else floors b)"
proof (induction order arbitrary: floors)
  case (Cons c order)
  show ?case
  proof (cases "positions c = None \<or> positions c = Some ''''")
    case True
    then have "parse_floors positions order floors = Inr floors'" using Cons.prems by auto
    from Cons.IH [OF this] show ?thesis using True by (cases "b = c") auto
  next
    case False
    then obtain eventID ct where id: "positions c = Some eventID" "eventID \<noteq> ''''" "ParseEventID eventID = Inr ct"
      and rest: "parse_floors positions order (floors(c \<mapsto> ct)) = Inr floors'"
      using Cons.prems by (auto split: sum.splits)
    show ?thesis using Cons.IH [OF rest] id by (cases "b = c") (auto split: option.splits sum.splits)
  qed
qed simp

lemma new_subscriber_floor:
  assumes "NewSubscriber order sid after fromNow coalesce channelSize = Inr s" and "set order = dom (resume_positions after)"
  shows "lastClusterTime s = resume_floor after" and "PmPositions (currentPos s) = resume_positions after"
proof -
  let ?pm = "case after of None \<Rightarrow> NewProgressMarker | Some pm \<Rightarrow> pm"
  have pos: "PmPositions ?pm = resume_positions after"
    by (cases after) (simp_all add: resume_positions_def NewProgressMarker_def)
  have f: "parse_floors (resume_positions after) order Map.empty = Inr (lastClusterTime s)"
    and c: "currentPos s = pm_Clone (Some ?pm)"
    using assms(1) unfolding NewSubscriber_def Let_def pos by (auto simp: bind_result_Inr)
  show "PmPositions (currentPos s) = resume_positions after" using pos by (simp add: c pm_Clone_def)
  show "lastClusterTime s = resume_floor after"
  proof
    fix b
    show "lastClusterTime s b = resume_floor after b"
    proof (cases "b \<in> set order")
      case False
      then have "resume_positions after b = None" using assms(2) by auto
      then show ?thesis using parse_floors_at [OF f, of b] False by (simp add: resume_floor_def)
    qed (use parse_floors_at [OF f, of b] in \<open>simp add: resume_floor_def\<close>)
  qed
qed

section \<open>The live queue\<close>

text \<open>
  What happens to the queue after \<^verbatim>\<open>RunSubscription\<close> drained it and began recovery: broadcasts are enqueued and the
  consumer takes events.
\<close>

datatype live_op = LiveEnqueue "store_change_event option" | LiveTake

fun live_run :: "live_op list \<Rightarrow> subscriber \<Rightarrow> store_change_event option list \<times> subscriber" where
  "live_run [] s = ([], s)"
| "live_run (LiveEnqueue event # ops) s = live_run ops (fst (enqueue event s))"
| "live_run (LiveTake # ops) s =
     (case take_event s of
        (s', None) \<Rightarrow> live_run ops s'
      | (s', Some e) \<Rightarrow> (case live_run ops s' of (taken, s'') \<Rightarrow> (e # taken, s'')))"

fun broadcasts :: "live_op list \<Rightarrow> store_change_event option list" where
  "broadcasts [] = []"
| "broadcasts (LiveEnqueue event # ops) = event # broadcasts ops"
| "broadcasts (LiveTake # ops) = broadcasts ops"

lemma note_admission_fields [simp]:
  "SubCh (note_admission event s) = SubCh s" "SubChCap (note_admission event s) = SubChCap s"
  "recoveryPending (note_admission event s) = recoveryPending s"
  by (simp_all add: note_admission_def Let_def split: option.splits)

lemma live_run_queue:
  assumes "int (length (SubCh s)) \<le> SubChCap s" and "live_run ops s = (taken, s')"
  shows "int (length (SubCh s')) \<le> SubChCap s \<and> (recoveryPending s \<longrightarrow> recoveryPending s' \<and> taken @ SubCh s' = SubCh s) \<and>
    (\<exists>n. taken @ SubCh s' = SubCh s @ take n (broadcasts ops) \<and> (\<not> recoveryPending s' \<longrightarrow> length (broadcasts ops) \<le> n))"
  using assms
proof (induction ops arbitrary: s taken)
  case (Cons op ops)
  show ?case
  proof (cases op)
    case (LiveEnqueue event)
    let ?s = "fst (enqueue event s)"
    have r: "live_run ops ?s = (taken, s')" using Cons.prems(2) LiveEnqueue by simp
    consider (pending) "recoveryPending s" | (room) "\<not> recoveryPending s" "int (length (SubCh s)) < SubChCap s"
      | (full) "\<not> recoveryPending s" "\<not> int (length (SubCh s)) < SubChCap s" by blast
    then show ?thesis
    proof cases
      case room
      then have e: "SubCh ?s = SubCh s @ [event]" "SubChCap ?s = SubChCap s" by (simp_all add: enqueue_def Let_def)
      then have "int (length (SubCh ?s)) \<le> SubChCap ?s" using room by simp
      from Cons.IH [OF this r] obtain n where "taken @ SubCh s' = SubCh ?s @ take n (broadcasts ops)"
        "\<not> recoveryPending s' \<longrightarrow> length (broadcasts ops) \<le> n" "int (length (SubCh s')) \<le> SubChCap ?s" by blast
      then show ?thesis using e room LiveEnqueue by (intro conjI exI [of _ "Suc n"]) simp_all
    next
      case pending
      then have e: "SubCh ?s = SubCh s" "SubChCap ?s = SubChCap s" "recoveryPending ?s" by (simp_all add: enqueue_def Let_def)
      then show ?thesis using Cons.IH [OF _ r] Cons.prems(1) by (intro conjI exI [of _ 0]) simp_all
    next
      case full
      then have e: "SubCh ?s = SubCh s" "SubChCap ?s = SubChCap s" "recoveryPending ?s" by (simp_all add: enqueue_def Let_def)
      then show ?thesis using Cons.IH [OF _ r] Cons.prems(1) full by (intro conjI exI [of _ 0]) simp_all
    qed
  next
    case LiveTake
    show ?thesis
    proof (cases "SubCh s")
      case Nil
      then have "live_run ops s = (taken, s')" using Cons.prems(2) LiveTake by (simp add: take_event_def)
      from Cons.IH [OF Cons.prems(1) this] show ?thesis using LiveTake by simp
    next
      case (Cons e es)
      let ?s = "s\<lparr>SubCh := es\<rparr>"
      obtain taken' where r: "live_run ops ?s = (taken', s')" "taken = e # taken'"
        using Cons.prems(2) LiveTake \<open>SubCh s = e # es\<close> by (auto simp: take_event_def split: prod.splits)
      have "int (length (SubCh ?s)) \<le> SubChCap ?s" using Cons.prems(1) \<open>SubCh s = e # es\<close> by simp
      from Cons.IH [OF this r(1)] show ?thesis using r(2) LiveTake \<open>SubCh s = e # es\<close> by simp
    qed
  qed
qed (use exI in auto)

section \<open>Properties\<close>

definition sample_env :: delivery_env where
  "sample_env = \<lparr>CtxEntry = None, CtxDone = None, DeliverErr = None, CtxAfter = None\<rparr>"

text \<open>A marker that resumes backend \<open>b1\<close> at the second event of its second 1.\<close>

definition sample_marker :: progress_marker where
  "sample_marker = \<lparr>PmPositions = [''b1'' \<mapsto> ''1-2-ab''], PmLineages = None\<rparr>"

lemma sample_position: "ParseEventID ''1-2-ab'' = Inr \<lparr>TimeT = 1, TimeI = 2\<rparr>"
  by (simp add: ParseEventID_def scanUint32_def scan_dash_def scan_word_def SkipSpace.simps space_length_def space_runes_def
      is_digit_def digits_value_def bind_result_def Let_def)

lemma sample_floor: "resume_positions (Some sample_marker) = [''b1'' \<mapsto> ''1-2-ab'']"
  "resume_floor (Some sample_marker) ''b1'' = Some \<lparr>TimeT = 1, TimeI = 2\<rparr>"
  by (simp_all add: resume_floor_def resume_positions_def sample_marker_def sample_position)

text \<open>
  C11: Events are delivered once and in order.  Whatever events are offered to a new subscriber, in replay or
  live, and whatever the transport answers: the events delivered of one backend have nondecreasing cluster times
  and no identifier twice at one time; for a backend the subscriber resumes at an event ID, none is older than the
  time that ID begins with; and the progress that goes with each event, like the subscriber's own at the end, holds
  for every backend the event delivered last, and the position resumed from where none was.  As long as the
  subscription does not exit, every event offered was delivered, or it or a later event of its backend was
  delivered before, or it is older than the position resumed from.
\<close>

theorem delivery_once:
  assumes "NewSubscriber order sid after fromNow coalesce channelSize = Inr s"
    and "set order = dom (resume_positions after)"
    and "deliver_all offers s = (out, s', exit)"
  shows "sorted_wrt later (map fst out) \<and>
    (\<forall>e\<in>set (map fst out). \<forall>floor. resume_floor after (Backend e) = Some floor \<longrightarrow> ct_rank floor \<le> ct_rank (EvClusterTime e)) \<and>
    (\<forall>i<length out. PmPositions (snd (out ! i)) = positions_after (resume_positions after) (take (Suc i) (map fst out))) \<and>
    PmPositions (currentPos s') = positions_after (resume_positions after) (map fst out) \<and>
    (exit = None \<longrightarrow> (\<forall>env e phase. (env, Some e, phase) \<in> set offers \<longrightarrow> covered (resume_floor after) (map fst out) e))"
  using deliver_all_inv [OF new_subscriber_inv [OF assms(1)] assms(3)]
  unfolding delivery_inv_def new_subscriber_floor [OF assms(1,2)] by simp

theorem delivery_once_witness:
  "\<exists>s out s'. NewSubscriber [''b1''] ''c1'' (Some sample_marker) False False 0 = Inr s \<and>
    deliver_all [(sample_env, Some (sample_event StoreOperationInsert ''w'' 1), PhaseReplay),
      (sample_env, Some (sample_event StoreOperationInsert ''x'' 3), PhaseReplay),
      (sample_env, Some (sample_event StoreOperationInsert ''x'' 3), PhaseLive)] s = (out, s', None) \<and>
    map fst out = [sample_event StoreOperationInsert ''x'' 3] \<and>
    covered (resume_floor (Some sample_marker)) (map fst out) (sample_event StoreOperationInsert ''w'' 1) \<and>
    PmPositions (currentPos s') ''b1'' = Some ''e''"
proof -
  let ?offers = "[(sample_env, Some (sample_event StoreOperationInsert ''w'' 1), PhaseReplay),
      (sample_env, Some (sample_event StoreOperationInsert ''x'' 3), PhaseReplay),
      (sample_env, Some (sample_event StoreOperationInsert ''x'' 3), PhaseLive)]"
  obtain s where s: "NewSubscriber [''b1''] ''c1'' (Some sample_marker) False False 0 = Inr s"
    by (simp add: NewSubscriber_def sample_marker_def sample_position bind_result_def Let_def)
  have o: "set [''b1''] = dom (resume_positions (Some sample_marker))" by (simp add: sample_floor)
  have f: "lastClusterTime s ''b1'' = Some \<lparr>TimeT = 1, TimeI = 2\<rparr>" "deliveredIDs s = Map.empty" "SubDone s = False"
    using new_subscriber_floor(1) [OF s o] s sample_floor by (auto simp: NewSubscriber_def bind_result_Inr Let_def)
  obtain out s' where d: "deliver_all ?offers s = (out, s', None)" "map fst out = [sample_event StoreOperationInsert ''x'' 3]"
    using f by (simp add: deliverSubscriptionEvent_def subscriptionStopped_def sample_env_def ShouldSend_def
      UpdatePosition_def ct_Compare_def sample_event_def Let_def)
  from delivery_once [OF s o d(1)]
  have "covered (resume_floor (Some sample_marker)) (map fst out) (sample_event StoreOperationInsert ''w'' 1)"
    "PmPositions (currentPos s') = positions_after (resume_positions (Some sample_marker)) (map fst out)" by simp_all
  then show ?thesis using s d by (auto simp: positions_after_def sample_event_def)
qed

text \<open>
  C18: The live queue has no gap.  After recovery began with a drained queue, whatever is broadcast and taken, the
  events taken and those still queued are together a prefix of the broadcasts, in their order, and they are all
  of them unless recovery is pending again; the queue never exceeds its capacity.
\<close>

theorem live_queue_no_gap:
  assumes "0 \<le> SubChCap s" and "live_run ops (BeginRecovery (drainEvents s)) = (taken, s')"
  shows "int (length (SubCh s')) \<le> SubChCap s \<and>
    (\<exists>n. taken @ SubCh s' = take n (broadcasts ops) \<and> (\<not> RecoveryPending s' \<longrightarrow> length (broadcasts ops) \<le> n))"
  using live_run_queue [OF _ assms(2)] assms(1) by (simp add: BeginRecovery_def drainEvents_def RecoveryPending_def)

theorem live_queue_no_gap_witness:
  "\<exists>s taken s'. NewSubscriber [] ''c1'' None False False 1 = Inr s \<and> 0 \<le> SubChCap s \<and>
    live_run [LiveEnqueue None, LiveEnqueue (Some (sample_event StoreOperationInsert ''x'' 1)), LiveTake]
      (BeginRecovery (drainEvents s)) = (taken, s') \<and> taken = [None] \<and> RecoveryPending s' \<and>
    (\<exists>n. taken @ SubCh s' = take n [None, Some (sample_event StoreOperationInsert ''x'' 1)])"
proof -
  let ?ops = "[LiveEnqueue None, LiveEnqueue (Some (sample_event StoreOperationInsert ''x'' 1)), LiveTake]"
  obtain s where s: "NewSubscriber [] ''c1'' None False False 1 = Inr s" by (simp add: NewSubscriber_def)
  then have f: "SubChCap s = 1" "startFromNow s = False" by (auto simp: NewSubscriber_def Let_def)
  obtain taken s' where d: "live_run ?ops (BeginRecovery (drainEvents s)) = (taken, s')" "taken = [None]" "RecoveryPending s'"
    using f by (simp add: enqueue_def note_admission_def take_event_def BeginRecovery_def drainEvents_def RecoveryPending_def Let_def)
  have c: "0 \<le> SubChCap s" using f by simp
  show ?thesis using live_queue_no_gap [OF c d(1)] s c d by auto
qed

end
