(* ===== verification/Spec2Isabelle.thy ===== *)
theory Spec2Isabelle
  imports QuerySearch Scans Delivery
begin

text \<open>
  Verification of the Syntrix document database (Go, \<^verbatim>\<open>packages/syntrix\<close>; paths below are relative to it).

  \<^bold>\<open>The program.\<close>  Clients store JSON documents in collections.  Queries are conjunctions of field filters with an
  order; the indexer answers them from ordered byte keys built by index templates.  The puller reads the change
  streams of the storage backends, buffers the events and delivers them to subscribers, which resume from a
  progress marker after a restart.  The development models the part of the system that computes: values, keys,
  filters, templates, the query planner and its scans, the in-memory index store, and the event pipeline of the
  puller from event identifiers to delivery.

  \<^bold>\<open>Conventions.\<close>  A function of the source is a HOL function of the same name, prefixed where two types share a
  method name; a method that changes its receiver returns it updated.  Errors are \<open>Inl\<close>, results \<open>Inr\<close>.  Go
  strings are byte strings (\<open>string\<close>), byte slices are lists of \<open>8 word\<close>, integers keep their width where
  arithmetic can wrap, Go maps are HOL maps.  The unspecified order in which Go iterates a map is an argument.
  Times, hashes, third-party parsers and the third-party ordered tree are arguments; what is used of them is a
  hypothesis of the property or a law of a locale.

  \<^bold>\<open>Theories and the code they model.\<close>
  \<^item> \<open>Prelude\<close>: results, byte strings and their order, the parts of \<^verbatim>\<open>strings\<close> and \<^verbatim>\<open>unicode/utf8\<close> in use.
  \<^item> \<open>Heaps\<close>: \<^verbatim>\<open>sort.Slice\<close> and \<^verbatim>\<open>container/heap\<close>, correct for every comparison that keeps the laws of the locale
    \<open>weak_order\<close>.
  \<^item> \<open>Values\<close> (\<^verbatim>\<open>pkg/model/value.go\<close>): normalisation, the bytes of scalars and their comparison.  Comparison through
    the bytes is the exact order of the scalars, doubles and 64-bit integers together.
  \<^item> \<open>OrderKey\<close> (\<^verbatim>\<open>internal/indexer/encoding/orderkey.go\<close>): index keys.  Keys compare as the tuples they encode; the
    document ID and the components are recovered.  The locale \<open>prefix_code\<close> carries the argument for one field to tuples.
  \<^item> \<open>Base64\<close> (same file): cursors round trip.
  \<^item> \<open>Filters\<close> (\<^verbatim>\<open>pkg/model/filter.go\<close>, \<^verbatim>\<open>filter_eval.go\<close>): validation, normalisation and evaluation against a
    declarative meaning.
  \<^item> \<open>Templates\<close> (\<^verbatim>\<open>internal/indexer/template/template.go\<close>): validation, matching and priority of index templates,
    against a declarative reading of patterns and wildcards.
  \<^item> \<open>Documents\<close> (\<^verbatim>\<open>pkg/model/document.go\<close>, \<^verbatim>\<open>internal/helper\<close>, helpers of \<^verbatim>\<open>internal/core/storage/types\<close>): documents,
    paths and stored documents.
  \<^item> \<open>Stores\<close> and \<open>MemStore\<close> (\<^verbatim>\<open>internal/indexer/store\<close>, \<^verbatim>\<open>mem_store\<close>): the store's contract and the in-memory store over
    any tree with the laws of \<open>ordered_tree\<close>; reachable stores keep their invariant, searches and iterators
    return what an abstract map of keys prescribes, and a generation that failed or was deleted is not read as ready
    until it is published again.
  \<^item> \<open>Candidates\<close>, \<open>Planner\<close>, \<open>Positions\<close>, \<open>Streams\<close>, \<open>Merging\<close>, \<open>Scans\<close> (\<^verbatim>\<open>internal/indexer/manager/candidates.go\<close>): from
    filters to key ranges, branches, positions and the merging stream.  Ranges and branches are exact, positions
    compare as the requested order compares the documents and resume a scan, the merge is correct over every source with the laws of \<open>ordered_source\<close> and
    \<open>budgeted_source\<close>, and a whole scan returns exactly the matching documents, in order, within its work limit.
  \<^item> \<open>QuerySearch\<close> (\<^verbatim>\<open>internal/indexer/manager/manager.go\<close>): template choice, key range of a plan, and the
    operations it passes to the store.
  \<^item> \<open>Events\<close> (\<^verbatim>\<open>internal/puller/events\<close>): change events, buffer keys in time order, translation for the services.
  \<^item> \<open>EventIDs\<close> (\<^verbatim>\<open>internal/puller/normalizer\<close>, \<^verbatim>\<open>internal/puller/cursor\<close>): event identifiers carry their cluster time;
    progress markers.
  \<^item> \<open>Coalescing\<close> (\<^verbatim>\<open>internal/puller/buffer/coalescer.go\<close>, \<^verbatim>\<open>core/coalescing_iterator.go\<close>): coalesced events have the
    effect of the events on every document, where collection names have no slash.
  \<^item> \<open>EventMerge\<close> (\<^verbatim>\<open>internal/puller/core/merge_iterator.go\<close>): the backends' streams merge in time order, completely.
  \<^item> \<open>Delivery\<close> (\<^verbatim>\<open>internal/puller/core/subscriber.go\<close>, delivery in \<^verbatim>\<open>subscription.go\<close>): each event is delivered once, in
    order, none older than the position resumed from, with the right progress; the live queue has no gap.

  \<^bold>\<open>How the parts meet.\<close>  \<open>Scans\<close> composes values, keys, filters, templates, plans, positions, the merge and the
  store's iterators.  The event pipeline runs from \<open>EventMerge\<close> through \<open>Coalescing\<close> to \<open>Delivery\<close>.

  \<^bold>\<open>Fuel and bounds.\<close>  Loops whose end depends on data are total functions with a measure, or have fuel: the loop that
  collects the branches of a position needs one round per branch and one more, draining a merged or coalesced
  iterator one per event and one more; the properties prove that this suffices.  The store's iterators count the
  postings they examine against the limit of the scan, as the code does.

  \<^bold>\<open>Not modelled.\<close>  Goroutines, channels shared by several of them, locks, contexts, timers and logging: the operations are
  atomic and their results are those of the sequential code.  In particular the loop of \<^verbatim>\<open>RunSubscription\<close>, the
  subscriber manager, the admission status and the flow control of the puller, whose content is timing.  Storage and
  transport: MongoDB, PostgreSQL, Pebble, NATS, gRPC, HTTP and websockets, with the services that forward to
  them (gateway, query engine, identity, streamer, triggers, persistent index store, buffer files).  JSON, BSON and
  YAML decoding, CEL programs, password hashing and tokens, which third-party packages carry out.  Generated code,
  command line tools, the benchmark, the console and the TypeScript clients.  Nil and empty order keys are not told apart.  Merged sources end with at most one
  error and repeat it; \<^verbatim>\<open>sort.Slice\<close> keeps the order of elements it does not distinguish, as it does up to twelve of
  them.
\<close>

end
